(* ===== verification/Web_Prelude.thy ===== *)
theory Web_Prelude
  imports Main "HOL-Library.Word" "HOL-Library.Sublist" "HOL-Library.Char_ord"
begin

text \<open>
  Shared vocabulary of the web-server theories: the parts of the C++ standard library
  that the sources call, on \<open>string\<close> as the model of \<open>std::string\<close> and \<open>char\<close> as the
  8-bit \<open>char\<close> of the target. A position is a \<open>nat option\<close>; \<open>None\<close> is
  \<open>std::string::npos\<close>, the largest \<open>size_t\<close>, so \<open>npos + 1\<close> is 0 and a count of \<open>npos\<close>
  means ``up to the end''. A call that the standard leaves undefined, or that throws,
  has a result of an option type.
\<close>

named_theorems cstr_simps \<open>evaluation of the std::string operations\<close>

unbundle bit_operations_syntax

subsection \<open>Characters\<close>

text \<open>\<open>char\<close> is signed on the target, so a byte above 127 is negative as an \<open>int\<close>.\<close>

definition schar :: "char \<Rightarrow> int" where
  "schar c = (if (of_char c :: int) < 128 then of_char c else of_char c - 256)"

abbreviation CR :: char where "CR \<equiv> CHR 0x0D"
abbreviation LF :: char where "LF \<equiv> CHR 0x0A"
abbreviation TAB :: char where "TAB \<equiv> CHR 0x09"
abbreviation DQUOTE :: char where "DQUOTE \<equiv> CHR 0x22"
abbreviation SQUOTE :: char where "SQUOTE \<equiv> CHR 0x27"
abbreviation BACKSLASH :: char where "BACKSLASH \<equiv> CHR 0x5C"
abbreviation CRLF :: string where "CRLF \<equiv> [CR, LF]"

text \<open>\<open>isspace\<close> and \<open>isdigit\<close> of the C locale, and the value of a digit.\<close>

definition isspace_c :: "char \<Rightarrow> bool" where
  "isspace_c c \<longleftrightarrow> c \<in> {CHR '' '', TAB, LF, CHR 0x0B, CHR 0x0C, CR}"

definition isdigit_c :: "char \<Rightarrow> bool" where
  "isdigit_c c \<longleftrightarrow> 48 \<le> (of_char c :: nat) \<and> (of_char c :: nat) \<le> 57"

definition digit_val :: "char \<Rightarrow> nat" where
  "digit_val c = of_char c - 48"

definition hex_val :: "char \<Rightarrow> nat option" where
  "hex_val c = (let n = (of_char c :: nat) in
     if 48 \<le> n \<and> n \<le> 57 then Some (n - 48)
     else if 65 \<le> n \<and> n \<le> 70 then Some (n - 55)
     else if 97 \<le> n \<and> n \<le> 102 then Some (n - 87)
     else None)"

subsection \<open>Searching and slicing\<close>

fun find_from :: "string \<Rightarrow> string \<Rightarrow> nat \<Rightarrow> nat option" where
  "find_from pat [] i = (if pat = [] then Some i else None)"
| "find_from pat (c # cs) i =
     (if prefix pat (c # cs) then Some i else find_from pat cs (Suc i))"

text \<open>\<open>s.find(pat, pos)\<close>: the first occurrence that starts at \<open>pos\<close> or later.\<close>

definition str_find :: "string \<Rightarrow> string \<Rightarrow> nat \<Rightarrow> nat option" where
  "str_find s pat pos = (if length s < pos then None else find_from pat (drop pos s) pos)"

text \<open>\<open>s.find(pat, pos)\<close> where the start is itself a position: nothing is found from \<open>npos\<close>.\<close>

definition str_find_pos :: "string \<Rightarrow> string \<Rightarrow> nat option \<Rightarrow> nat option" where
  "str_find_pos s pat p = (case p of None \<Rightarrow> None | Some pos \<Rightarrow> str_find s pat pos)"

text \<open>\<open>s.find_last_of(c)\<close> and \<open>s.find_first_of(cs, pos)\<close>.\<close>

fun find_last_aux :: "char \<Rightarrow> string \<Rightarrow> nat \<Rightarrow> nat option \<Rightarrow> nat option" where
  "find_last_aux c [] i r = r"
| "find_last_aux c (x # xs) i r = find_last_aux c xs (Suc i) (if x = c then Some i else r)"

definition find_last_of :: "string \<Rightarrow> char \<Rightarrow> nat option" where
  "find_last_of s c = find_last_aux c s 0 None"

fun find_first_aux :: "char list \<Rightarrow> string \<Rightarrow> nat \<Rightarrow> nat option" where
  "find_first_aux cs [] i = None"
| "find_first_aux cs (x # xs) i =
     (if x \<in> set cs then Some i else find_first_aux cs xs (Suc i))"

definition find_first_of :: "string \<Rightarrow> char list \<Rightarrow> nat option \<Rightarrow> nat option" where
  "find_first_of s cs p =
     (case p of None \<Rightarrow> None
      | Some pos \<Rightarrow> if length s < pos then None else find_first_aux cs (drop pos s) pos)"

text \<open>\<open>pos + 1\<close> on \<open>size_t\<close>: \<open>npos + 1\<close> wraps to 0.\<close>

definition pos_inc :: "nat option \<Rightarrow> nat" where
  "pos_inc p = (case p of None \<Rightarrow> 0 | Some i \<Rightarrow> Suc i)"

text \<open>\<open>end - start\<close> on \<open>size_t\<close> as a count: \<open>npos - start\<close> exceeds every string.\<close>

definition pos_diff :: "nat option \<Rightarrow> nat \<Rightarrow> nat option" where
  "pos_diff e s = (case e of None \<Rightarrow> None | Some i \<Rightarrow> Some (i - s))"

text \<open>\<open>s.substr(0, n)\<close> never throws; \<open>s.substr(pos, n)\<close> throws \<open>out_of_range\<close> past the end.\<close>

definition take_pos :: "string \<Rightarrow> nat option \<Rightarrow> string" where
  "take_pos s n = (case n of None \<Rightarrow> s | Some k \<Rightarrow> take k s)"

definition substr :: "string \<Rightarrow> nat \<Rightarrow> nat option \<Rightarrow> string option" where
  "substr s pos n = (if length s < pos then None else Some (take_pos (drop pos s) n))"

text \<open>\<open>s.replace(pos, n, t)\<close> throws \<open>out_of_range\<close> past the end.\<close>

definition str_replace :: "string \<Rightarrow> nat option \<Rightarrow> nat option \<Rightarrow> string \<Rightarrow> string option" where
  "str_replace s p n t =
     (case p of None \<Rightarrow> None
      | Some pos \<Rightarrow>
         if length s < pos then None
         else Some (take pos s @ t @ (case n of None \<Rightarrow> [] | Some k \<Rightarrow> drop k (drop pos s))))"

text \<open>A string handed over as \<open>c_str()\<close> to a C function ends at its first NUL.\<close>

definition c_str :: "string \<Rightarrow> string" where
  "c_str s = takeWhile (\<lambda>c. c \<noteq> CHR 0x00) s"

subsection \<open>Numbers in strings\<close>

text \<open>\<open>std::to_string\<close> on an unsigned and on a signed value.\<close>

definition digit_char :: "nat \<Rightarrow> char" where
  "digit_char n = ''0123456789'' ! n"

fun nat_digits :: "nat \<Rightarrow> string" where
  "nat_digits n =
     (if n < 10 then [digit_char n] else nat_digits (n div 10) @ [digit_char (n mod 10)])"

declare nat_digits.simps [simp del]

definition to_string_nat :: "nat \<Rightarrow> string" where
  "to_string_nat n = nat_digits n"

definition to_string_int :: "int \<Rightarrow> string" where
  "to_string_int i = (if i < 0 then CHR ''-'' # nat_digits (nat (- i)) else nat_digits (nat i))"

fun read_digits :: "nat \<Rightarrow> string \<Rightarrow> nat" where
  "read_digits acc [] = acc"
| "read_digits acc (c # cs) =
     (if isdigit_c c then read_digits (10 * acc + digit_val c) cs else acc)"

text \<open>
  The subject sequence of \<open>strtol\<close> and \<open>strtoull\<close> in base 10: white space, a sign, digits;
  \<open>None\<close> when there is no digit. Characters after the digits are ignored.
\<close>

definition strto_sign :: "string \<Rightarrow> (bool \<times> nat) option" where
  "strto_sign s =
     (let t = dropWhile isspace_c s;
          neg = (t \<noteq> [] \<and> hd t = CHR ''-'');
          u = (if t \<noteq> [] \<and> hd t \<in> {CHR ''-'', CHR ''+''} then tl t else t)
      in if u \<noteq> [] \<and> isdigit_c (hd u) then Some (neg, read_digits 0 u) else None)"

datatype stdexcept = Invalid_argument | Out_of_range

text \<open>
  \<open>std::stoull\<close>: a leading minus sign negates in unsigned arithmetic, so \<open>-1\<close> is
  \<open>2 ^ 64 - 1\<close>; a magnitude above \<open>2 ^ 64 - 1\<close> throws.
\<close>

definition stoull :: "string \<Rightarrow> stdexcept + 64 word" where
  "stoull s =
     (case strto_sign s of None \<Rightarrow> Inl Invalid_argument
      | Some (neg, v) \<Rightarrow>
          if 2 ^ 64 \<le> v then Inl Out_of_range
          else Inr (if neg then - of_nat v else of_nat v))"

text \<open>\<open>std::stoi\<close>: \<open>strtol\<close> on a 64-bit \<open>long\<close>, then the range of a 32-bit \<open>int\<close>.\<close>

definition stoi :: "string \<Rightarrow> stdexcept + int" where
  "stoi s =
     (case strto_sign s of None \<Rightarrow> Inl Invalid_argument
      | Some (neg, v) \<Rightarrow>
          let i = (if neg then - int v else int v)
          in if - (2 ^ 31) \<le> i \<and> i < 2 ^ 31 then Inr i else Inl Out_of_range)"

text \<open>
  \<open>istringstream(s) >> std::hex >> value\<close> on a short string: leading white space is
  skipped, then a sign, then a \<open>0x\<close> or \<open>0X\<close> prefix, then hexadecimal digits up to the first
  other character. \<open>None\<close> is the failed extraction (no digit).
\<close>

fun read_hex :: "nat \<Rightarrow> string \<Rightarrow> nat" where
  "read_hex acc [] = acc"
| "read_hex acc (c # cs) =
     (case hex_val c of None \<Rightarrow> acc | Some d \<Rightarrow> read_hex (16 * acc + d) cs)"

definition istream_hex :: "string \<Rightarrow> int option" where
  "istream_hex s =
     (let t = dropWhile isspace_c s;
          neg = (t \<noteq> [] \<and> hd t = CHR ''-'');
          u = (if t \<noteq> [] \<and> hd t \<in> {CHR ''-'', CHR ''+''} then tl t else t);
          w = (if 2 \<le> length u \<and> u ! 0 = CHR ''0'' \<and> u ! 1 \<in> {CHR ''x'', CHR ''X''}
               then drop 2 u else u)
      in if w \<noteq> [] \<and> hex_val (hd w) \<noteq> None
         then Some (if neg then - int (read_hex 0 w) else int (read_hex 0 w))
         else None)"

text \<open>\<open>static_cast<char>(value)\<close>.\<close>

definition cast_char :: "int \<Rightarrow> char" where
  "cast_char v = char_of (v mod 256)"

subsection \<open>Lemmas on searching\<close>

lemma find_from_None_iff:
  "find_from pat s i = None \<longleftrightarrow> \<not> sublist pat s"
proof (induction s arbitrary: i)
  case Nil
  then show ?case by (cases pat) auto
next
  case (Cons c cs)
  then show ?case by (auto simp: sublist_Cons_right)
qed

lemma str_find_None_iff [cstr_simps]:
  "str_find s pat 0 = None \<longleftrightarrow> \<not> sublist pat s"
  by (simp add: str_find_def find_from_None_iff)

lemma find_from_Some:
  assumes "find_from pat s i = Some k"
  shows "i \<le> k \<and> k - i \<le> length s \<and> prefix pat (drop (k - i) s)
    \<and> (\<forall>j < k - i. \<not> prefix pat (drop j s))"
  using assms
proof (induction s arbitrary: i)
  case Nil
  then show ?case by (auto split: if_splits)
next
  case (Cons c cs)
  show ?case
  proof (cases "prefix pat (c # cs)")
    case True
    with Cons.prems show ?thesis by simp
  next
    case False
    with Cons.prems have *: "Suc i \<le> k \<and> k - Suc i \<le> length cs \<and> prefix pat (drop (k - Suc i) cs)
        \<and> (\<forall>j < k - Suc i. \<not> prefix pat (drop j cs))"
      by (intro Cons.IH) simp
    moreover from * have "k - i = Suc (k - Suc i)"
      using Suc_diff_Suc Suc_le_eq by metis
    moreover have "\<not> prefix pat (drop j (c # cs))" if "j < k - i" for j
      using that * False by (cases j) auto
    ultimately show ?thesis by auto
  qed
qed

lemma find_last_aux_eq:
  "find_last_aux c s i r =
     (if c \<in> set s then Some (i + (length s - 1 - length (takeWhile (\<lambda>x. x \<noteq> c) (rev s)))) else r)"
proof (induction s arbitrary: i r)
  case Nil
  then show ?case by simp
next
  case (Cons x xs)
  show ?case
  proof (cases "c \<in> set xs")
    case True
    have len: "length (takeWhile (\<lambda>y. y \<noteq> c) (rev xs)) < length xs"
      using True by (metis (mono_tags, lifting) length_rev length_takeWhile_le
          le_neq_implies_less set_rev takeWhile_eq_all_conv take_all_iff takeWhile_eq_take)
    have "takeWhile (\<lambda>y. y \<noteq> c) (rev xs @ [x]) = takeWhile (\<lambda>y. y \<noteq> c) (rev xs)"
      using True by (simp add: takeWhile_append1)
    with True len show ?thesis by (auto simp: Cons.IH)
  next
    case False
    then have "takeWhile (\<lambda>y. y \<noteq> c) (rev xs @ [x]) = rev xs @ takeWhile (\<lambda>y. y \<noteq> c) [x]"
      by (subst takeWhile_append2) auto
    with False show ?thesis by (auto simp: Cons.IH)
  qed
qed

lemma find_last_of_None [cstr_simps]: "find_last_of s c = None \<longleftrightarrow> c \<notin> set s"
  by (simp add: find_last_of_def find_last_aux_eq)

text \<open>A successful search splits the string at the last occurrence.\<close>

lemma find_last_of_Some:
  assumes "find_last_of s c = Some k"
  shows "k < length s \<and> s ! k = c \<and> c \<notin> set (drop (Suc k) s)"
proof -
  from assms have c: "c \<in> set s"
    by (auto simp: find_last_of_def find_last_aux_eq split: if_splits)
  then obtain ys zs where s: "s = ys @ c # zs" and zs: "c \<notin> set zs"
    using split_list_last by metis
  then have "takeWhile (\<lambda>x. x \<noteq> c) (rev s) = rev zs"
    by (auto simp: takeWhile_append2 takeWhile_tail)
  with assms c s have "k = length ys"
    by (simp add: find_last_of_def find_last_aux_eq)
  with s zs show ?thesis by simp
qed

subsection \<open>Lemmas on numbers\<close>

lemma of_char_digit_char: "n < 10 \<Longrightarrow> of_char (digit_char n) = (48 + n :: nat)"
  unfolding digit_char_def by (auto simp: less_Suc_eq numeral_eq_Suc)

lemma isdigit_digit [simp]: "n < 10 \<Longrightarrow> isdigit_c (digit_char n)"
  by (simp add: isdigit_c_def of_char_digit_char)

lemma digit_val_digit [simp]: "n < 10 \<Longrightarrow> digit_val (digit_char n) = n"
  by (simp add: digit_val_def of_char_digit_char)

lemma nat_digits_digits: "c \<in> set (nat_digits n) \<Longrightarrow> isdigit_c c"
proof (induction n rule: nat_digits.induct)
  case (1 n)
  show ?case
  proof (cases "n < 10")
    case True
    with 1 show ?thesis by (simp add: nat_digits.simps [of n])
  next
    case False
    with 1 show ?thesis by (auto simp: nat_digits.simps [of n])
  qed
qed

lemma nat_digits_nonempty [simp]: "nat_digits n \<noteq> []"
  by (subst nat_digits.simps) simp

lemma read_digits_append:
  "(\<And>c. c \<in> set s \<Longrightarrow> isdigit_c c) \<Longrightarrow>
   read_digits acc (s @ t) = read_digits (read_digits acc s) t"
  by (induction s arbitrary: acc) auto

lemma read_digits_nat_digits: "read_digits 0 (nat_digits n) = n"
proof (induction n rule: nat_digits.induct)
  case (1 n)
  show ?case
  proof (cases "n < 10")
    case True
    then show ?thesis by (simp add: nat_digits.simps [of n])
  next
    case False
    with 1 have "read_digits 0 (nat_digits (n div 10)) = n div 10" by simp
    moreover have "read_digits 0 (nat_digits n)
        = read_digits (read_digits 0 (nat_digits (n div 10))) [digit_char (n mod 10)]"
      using False by (simp add: nat_digits.simps [of n] read_digits_append nat_digits_digits)
    ultimately show ?thesis by simp
  qed
qed

lemma isdigit_not_space: "isdigit_c c \<Longrightarrow> \<not> isspace_c c"
  by (auto simp: isdigit_c_def isspace_c_def)

lemma isdigit_not_sign: "isdigit_c c \<Longrightarrow> c \<notin> {CHR ''-'', CHR ''+''}"
  by (auto simp: isdigit_c_def)

lemma strto_sign_digits: "strto_sign (nat_digits n) = Some (False, n)"
proof -
  obtain c cs where eq: "nat_digits n = c # cs"
    by (cases "nat_digits n") auto
  then have "isdigit_c c" using nat_digits_digits [of c n] by simp
  then have "\<not> isspace_c c" "c \<noteq> CHR ''-''" "c \<noteq> CHR ''+''"
    using isdigit_not_space isdigit_not_sign by auto
  with eq \<open>isdigit_c c\<close> read_digits_nat_digits [of n] show ?thesis
    by (simp add: strto_sign_def Let_def)
qed

text \<open>Printing then reading an unsigned number gives it back.\<close>

lemma stoull_to_string: "n < 2 ^ 64 \<Longrightarrow> stoull (to_string_nat n) = Inr (of_nat n)"
  by (simp add: stoull_def to_string_nat_def strto_sign_digits)

lemma stoi_to_string: "n < 2 ^ 31 \<Longrightarrow> stoi (to_string_nat n) = Inr (int n)"
  by (simp add: stoi_def to_string_nat_def strto_sign_digits)

end
