(* ===== verification/Request.thy ===== *)
theory Request
  imports Web_Prelude
begin

text \<open>
  \<open>request.h\<close> and \<open>request.cc\<close>: the character-driven parser of HTTP requests. The class
  \<open>Request\<close> is the record \<open>request\<close>; \<open>Consume\<close> is one transition of its state machine,
  \<open>Parse\<close> the loop over one read of the socket. \<open>Parse\<close> works on the thread-local request
  and result, which survive from one call to the next and are passed explicitly. An
  undefined operation of the code (an index past the end) makes the whole result \<open>None\<close>.
\<close>

named_theorems request_defs \<open>unfolding rules of the request parser\<close>

subsection \<open>The request object\<close>

datatype Result = good | bad | indeterminate

datatype parser_state =
    S_method_start | S_method | S_uri
  | S_http_version_h | S_http_version_t_1 | S_http_version_t_2 | S_http_version_p
  | S_http_version_slash | S_http_version_major_start | S_http_version_major
  | S_http_version_minor_start | S_http_version_minor
  | S_expecting_newline_1 | S_header_line_start | S_header_lws | S_header_name
  | S_space_before_header_value | S_header_value
  | S_expecting_newline_2 | S_expecting_newline_3 | S_body

record request =
  rq_state :: parser_state
  rq_remaining :: "64 word"
  rq_raw :: string
  rq_method :: string
  rq_uri :: string
  rq_path :: string
  rq_version :: string
  rq_headers :: "(string \<times> string) list"
  rq_body :: string

text \<open>
  The default constructor; \<open>remaining\<close> is unset there, and its value is the parameter. The
  state machine reads it only after it has been assigned.
\<close>

definition new_request :: "64 word \<Rightarrow> request" where
  "new_request junk =
     \<lparr>rq_state = S_method_start, rq_remaining = junk, rq_raw = [], rq_method = [], rq_uri = [],
      rq_path = [], rq_version = [], rq_headers = [], rq_body = []\<rparr>"

definition Reset :: "request \<Rightarrow> request" where
  "Reset r =
     r\<lparr>rq_raw := [], rq_method := [], rq_uri := [], rq_path := [], rq_version := [],
       rq_headers := [], rq_body := [], rq_state := S_method_start\<rparr>"

subsection \<open>Accessors\<close>

fun header_lookup :: "(string \<times> string) list \<Rightarrow> string \<Rightarrow> string" where
  "header_lookup [] name = []"
| "header_lookup (h # hs) name = (if fst h = name then snd h else header_lookup hs name)"

definition GetHeaderValue :: "request \<Rightarrow> string \<Rightarrow> string" where
  "GetHeaderValue r name = header_lookup (rq_headers r) name"

text \<open>
  \<open>SetUri\<close> rewrites the raw request between its first two blanks; \<open>replace\<close> throws when the
  start lies past the end.
\<close>

definition SetUri :: "string \<Rightarrow> request \<Rightarrow> request option" where
  "SetUri uri r =
     (let uri_pos = pos_inc (str_find (rq_raw r) '' '' 0);
          uri_end = str_find (rq_raw r) '' '' uri_pos;
          uri_len = pos_diff uri_end uri_pos
      in case str_replace (rq_raw r) (Some uri_pos) uri_len uri of
           None \<Rightarrow> None
         | Some raw \<Rightarrow> Some (r\<lparr>rq_uri := uri, rq_raw := raw\<rparr>))"

subsection \<open>Character classes\<close>

definition is_char :: "int \<Rightarrow> bool" where
  "is_char c \<longleftrightarrow> c \<ge> 0 \<and> c \<le> 127"

definition is_ctl :: "int \<Rightarrow> bool" where
  "is_ctl c \<longleftrightarrow> (c \<ge> 0 \<and> c \<le> 31) \<or> c = 127"

definition is_tspecial :: "int \<Rightarrow> bool" where
  "is_tspecial c \<longleftrightarrow>
     c \<in> set (map schar ''()<>@,;:'') \<or> c = schar BACKSLASH \<or> c = schar DQUOTE
     \<or> c \<in> set (map schar ''/[]?={} '') \<or> c = schar TAB"

definition is_digit :: "int \<Rightarrow> bool" where
  "is_digit c \<longleftrightarrow> c \<ge> schar (CHR ''0'') \<and> c \<le> schar (CHR ''9'')"

text \<open>The test \<open>!is_char(input) || is_ctl(input) || is_tspecial(input)\<close>.\<close>

definition not_token :: "char \<Rightarrow> bool" where
  "not_token c \<longleftrightarrow> \<not> is_char (schar c) \<or> is_ctl (schar c) \<or> is_tspecial (schar c)"

subsection \<open>From the URI to the path\<close>

text \<open>
  The loop over \<open>uri_\<close> that undoes percent and plus encoding, with the path built so far as
  the accumulator; \<open>None\<close> is the early return on a malformed escape.
\<close>

fun decode_uri :: "string \<Rightarrow> string \<Rightarrow> string option" where
  "decode_uri acc [] = Some acc"
| "decode_uri acc (c # cs) =
     (if c = CHR ''%'' then
        (case cs of
           a # b # rest \<Rightarrow>
             (case istream_hex [a, b] of
                Some v \<Rightarrow> decode_uri (acc @ [cast_char v]) rest
              | None \<Rightarrow> None)
         | _ \<Rightarrow> None)
      else if c = CHR ''+'' then decode_uri (acc @ [CHR '' '']) cs
      else decode_uri (acc @ [c]) cs)"

text \<open>
  The end of the URI. The test of the last character indexes the path at \<open>size() - 1\<close>, which
  is undefined for an empty path.
\<close>

definition finish_uri :: "request \<Rightarrow> (Result \<times> request) option" where
  "finish_uri r0 =
     (let r = r0\<lparr>rq_state := S_http_version_h\<rparr> in
      case decode_uri (rq_path r) (rq_uri r) of
        None \<Rightarrow> Some (indeterminate, r\<lparr>rq_path := []\<rparr>)
      | Some p \<Rightarrow>
          if str_find p ''..'' 0 \<noteq> None then Some (indeterminate, r\<lparr>rq_path := []\<rparr>)
          else if p = [] then None
          else if last p = CHR ''/'' then
            Some (indeterminate, r\<lparr>rq_path := p @ ''index.html''\<rparr>)
          else Some (indeterminate, r\<lparr>rq_path := p\<rparr>))"

subsection \<open>The state machine\<close>

text \<open>\<open>headers_.back().first.push_back(c)\<close> and its \<open>second\<close>: undefined on an empty vector.\<close>

definition push_name :: "char \<Rightarrow> request \<Rightarrow> request option" where
  "push_name c r =
     (case rev (rq_headers r) of [] \<Rightarrow> None
      | (n, v) # hs \<Rightarrow> Some (r\<lparr>rq_headers := rev ((n @ [c], v) # hs)\<rparr>))"

definition push_value :: "char \<Rightarrow> request \<Rightarrow> request option" where
  "push_value c r =
     (case rev (rq_headers r) of [] \<Rightarrow> None
      | (n, v) # hs \<Rightarrow> Some (r\<lparr>rq_headers := rev ((n, v @ [c]) # hs)\<rparr>))"

definition cont :: "request \<Rightarrow> (Result \<times> request) option" where
  "cont r = Some (indeterminate, r)"

definition cont_opt :: "request option \<Rightarrow> (Result \<times> request) option" where
  "cont_opt x = map_option (\<lambda>r. (indeterminate, r)) x"

definition reject :: "request \<Rightarrow> (Result \<times> request) option" where
  "reject r = Some (bad, r)"

definition expect_version :: "char \<Rightarrow> char \<Rightarrow> parser_state \<Rightarrow> request \<Rightarrow> (Result \<times> request) option" where
  "expect_version input c s r =
     (if input = c then cont (r\<lparr>rq_state := s, rq_version := rq_version r @ [c]\<rparr>) else reject r)"

text \<open>The line feed that ends the header block: the length of the body decides.\<close>

definition finish_headers :: "request \<Rightarrow> (Result \<times> request) option" where
  "finish_headers r =
     (case stoull (GetHeaderValue r ''Content-Length'') of
        Inl e \<Rightarrow> Some (good, r)
      | Inr n \<Rightarrow>
          if n > 0 then cont (r\<lparr>rq_remaining := n, rq_state := S_body\<rparr>)
          else Some (good, r\<lparr>rq_remaining := n\<rparr>))"

definition Consume :: "char \<Rightarrow> request \<Rightarrow> (Result \<times> request) option" where
  "Consume input r0 =
     (let r = r0\<lparr>rq_raw := rq_raw r0 @ [input]\<rparr> in
      case rq_state r of
        S_method_start \<Rightarrow>
          if not_token input then reject r
          else cont (r\<lparr>rq_state := S_method, rq_method := rq_method r @ [input]\<rparr>)
      | S_method \<Rightarrow>
          if input = CHR '' '' then cont (r\<lparr>rq_state := S_uri\<rparr>)
          else if not_token input then reject r
          else cont (r\<lparr>rq_method := rq_method r @ [input]\<rparr>)
      | S_uri \<Rightarrow>
          if input = CHR '' '' then finish_uri r
          else if is_ctl (schar input) then reject r
          else cont (r\<lparr>rq_uri := rq_uri r @ [input]\<rparr>)
      | S_http_version_h \<Rightarrow> expect_version input (CHR ''H'') S_http_version_t_1 r
      | S_http_version_t_1 \<Rightarrow> expect_version input (CHR ''T'') S_http_version_t_2 r
      | S_http_version_t_2 \<Rightarrow> expect_version input (CHR ''T'') S_http_version_p r
      | S_http_version_p \<Rightarrow> expect_version input (CHR ''P'') S_http_version_slash r
      | S_http_version_slash \<Rightarrow> expect_version input (CHR ''/'') S_http_version_major_start r
      | S_http_version_major_start \<Rightarrow>
          if is_digit (schar input)
          then cont (r\<lparr>rq_state := S_http_version_major, rq_version := rq_version r @ [input]\<rparr>)
          else reject r
      | S_http_version_major \<Rightarrow>
          if input = CHR ''.''
          then cont (r\<lparr>rq_state := S_http_version_minor_start, rq_version := rq_version r @ ''.''\<rparr>)
          else if is_digit (schar input) then cont (r\<lparr>rq_version := rq_version r @ [input]\<rparr>)
          else reject r
      | S_http_version_minor_start \<Rightarrow>
          if is_digit (schar input)
          then cont (r\<lparr>rq_state := S_http_version_minor, rq_version := rq_version r @ [input]\<rparr>)
          else reject r
      | S_http_version_minor \<Rightarrow>
          if input = CR then cont (r\<lparr>rq_state := S_expecting_newline_1\<rparr>)
          else if is_digit (schar input) then cont (r\<lparr>rq_version := rq_version r @ [input]\<rparr>)
          else reject r
      | S_expecting_newline_1 \<Rightarrow>
          if input = LF then cont (r\<lparr>rq_state := S_header_line_start\<rparr>) else reject r
      | S_header_line_start \<Rightarrow>
          if input = CR then cont (r\<lparr>rq_state := S_expecting_newline_3\<rparr>)
          else if rq_headers r \<noteq> [] \<and> (input = CHR '' '' \<or> input = TAB)
          then cont (r\<lparr>rq_state := S_header_lws\<rparr>)
          else if not_token input then reject r
          else cont (r\<lparr>rq_headers := rq_headers r @ [([input], [])], rq_state := S_header_name\<rparr>)
      | S_header_lws \<Rightarrow>
          if input = CR then cont (r\<lparr>rq_state := S_expecting_newline_2\<rparr>)
          else if input = CHR '' '' \<or> input = TAB then cont r
          else if is_ctl (schar input) then reject r
          else cont_opt (push_value input (r\<lparr>rq_state := S_header_value\<rparr>))
      | S_header_name \<Rightarrow>
          if input = CHR '':'' then cont (r\<lparr>rq_state := S_space_before_header_value\<rparr>)
          else if not_token input then reject r
          else cont_opt (push_name input r)
      | S_space_before_header_value \<Rightarrow>
          if input = CHR '' '' then cont (r\<lparr>rq_state := S_header_value\<rparr>) else reject r
      | S_header_value \<Rightarrow>
          if input = CR then cont (r\<lparr>rq_state := S_expecting_newline_2\<rparr>)
          else if is_ctl (schar input) then reject r
          else cont_opt (push_value input r)
      | S_expecting_newline_2 \<Rightarrow>
          if input = LF then cont (r\<lparr>rq_state := S_header_line_start\<rparr>) else reject r
      | S_expecting_newline_3 \<Rightarrow>
          if input = LF then finish_headers r else reject r
      | S_body \<Rightarrow>
          let r' = r\<lparr>rq_body := rq_body r @ [input], rq_remaining := rq_remaining r - 1\<rparr>
          in if rq_remaining r' > 0 then cont r' else Some (good, r'))"

subsection \<open>Parsing one read\<close>

record parser_tls =
  tl_result :: Result
  tl_request :: request

fun parse_loop :: "string \<Rightarrow> parser_tls \<Rightarrow> (request option \<times> parser_tls) option" where
  "parse_loop [] t = Some (None, t)"
| "parse_loop (c # cs) t =
     (case Consume c (tl_request t) of
        None \<Rightarrow> None
      | Some (good, r) \<Rightarrow> Some (Some r, \<lparr>tl_result = good, tl_request = Reset r\<rparr>)
      | Some (bad, r) \<Rightarrow> Some (None, \<lparr>tl_result = bad, tl_request = Reset r\<rparr>)
      | Some (indeterminate, r) \<Rightarrow> parse_loop cs \<lparr>tl_result = indeterminate, tl_request = r\<rparr>)"

definition Parse :: "string \<Rightarrow> parser_tls \<Rightarrow> (request option \<times> parser_tls) option" where
  "Parse raw t = parse_loop raw (t\<lparr>tl_result := indeterminate\<rparr>)"

definition GetParseResult :: "parser_tls \<Rightarrow> Result" where
  "GetParseResult t = tl_result t"

text \<open>The thread-local state in which a thread starts.\<close>

definition init_tls :: parser_tls where
  "init_tls = \<lparr>tl_result = indeterminate, tl_request = new_request 0\<rparr>"

declare cont_def [request_defs] cont_opt_def [request_defs] reject_def [request_defs]
  expect_version_def [request_defs] push_name_def [request_defs] push_value_def [request_defs]
  finish_headers_def [request_defs] finish_uri_def [request_defs] Let_def [request_defs]

subsection \<open>Invariant of the state machine\<close>

definition path_safe :: "string \<Rightarrow> bool" where
  "path_safe p \<longleftrightarrow> \<not> sublist ''..'' p \<and> (p \<noteq> [] \<longrightarrow> last p \<noteq> CHR ''/'')"

text \<open>
  In a header state there is a header to extend; before the end of the URI the path is
  empty; a path once set is safe; in the body state some character is still missing.
\<close>

definition req_inv :: "request \<Rightarrow> bool" where
  "req_inv r \<longleftrightarrow>
     (rq_state r \<in> {S_header_lws, S_header_name, S_space_before_header_value, S_header_value,
        S_expecting_newline_2} \<longrightarrow> rq_headers r \<noteq> []) \<and>
     (rq_state r \<in> {S_method_start, S_method, S_uri} \<longrightarrow> rq_path r = []) \<and>
     (rq_state r = S_body \<longrightarrow> rq_remaining r > 0) \<and>
     path_safe (rq_path r)"

lemma path_safe_Nil [simp]: "path_safe []"
  by (simp add: path_safe_def)

lemma dotdot_in_append_index:
  assumes "p \<noteq> []" "last p = CHR ''/''" "\<not> sublist ''..'' p"
  shows "\<not> sublist ''..'' (p @ ''index.html'')"
proof
  assume "sublist ''..'' (p @ ''index.html'')"
  then consider "sublist ''..'' p" | "sublist ''..'' ''index.html''"
    | xs ys where "''..'' = xs @ ys" "suffix xs p" "xs \<noteq> []" "prefix ys ''index.html''" "ys \<noteq> []"
    unfolding sublist_append by (metis append_Nil append_Nil2 prefix_imp_sublist suffix_imp_sublist)
  then show False
  proof cases
    case 3
    then have "prefix [CHR ''.''] ''index.html''"
      by (cases xs; cases "tl xs") auto
    then show False by simp
  qed (use assms in \<open>auto simp: sublist_Cons_right\<close>)
qed

lemma finish_uri_inv:
  assumes "finish_uri r = Some (res, r')"
  shows "res = indeterminate" "rq_state r' = S_http_version_h" "path_safe (rq_path r')"
    "rq_raw r' = rq_raw r"
proof -
  show "res = indeterminate" "rq_state r' = S_http_version_h" "rq_raw r' = rq_raw r"
    using assms by (auto simp: finish_uri_def Let_def split: option.splits if_splits)
  show "path_safe (rq_path r')"
    using assms dotdot_in_append_index
    by (auto simp: finish_uri_def Let_def path_safe_def str_find_None_iff
        split: option.splits if_splits)
qed

lemma finish_uri_defined:
  assumes "rq_path r = []" "rq_uri r \<noteq> []"
  shows "finish_uri r \<noteq> None"
proof -
  have len: "decode_uri acc u = Some q \<Longrightarrow> acc = [] \<longrightarrow> u \<noteq> [] \<Longrightarrow> q \<noteq> []" for acc u q
    by (induction acc u rule: decode_uri.induct)
      (auto split: if_splits list.splits option.splits)
  from assms len [of "[]" "rq_uri r"] show ?thesis
    by (auto simp: finish_uri_def Let_def split: option.splits)
qed


lemma push_dest:
  "push_name c r = Some r' \<Longrightarrow> \<exists>hs. r' = r\<lparr>rq_headers := hs\<rparr> \<and> hs \<noteq> []"
  "push_value c r = Some r' \<Longrightarrow> \<exists>hs. r' = r\<lparr>rq_headers := hs\<rparr> \<and> hs \<noteq> []"
  by (auto simp: push_name_def push_value_def split: list.splits)

lemma push_defined: "rq_headers r \<noteq> [] \<Longrightarrow> push_name c r \<noteq> None \<and> push_value c r \<noteq> None"
  by (auto simp: push_name_def push_value_def split: list.splits)

lemmas Consume_unfold =
  Consume_def cont_def cont_opt_def reject_def expect_version_def finish_headers_def Let_def

text \<open>A character that the machine accepts without finishing keeps the invariant.\<close>

lemma Consume_inv:
  assumes "req_inv r" "Consume c r = Some (indeterminate, r')"
  shows "req_inv r'"
proof (cases "rq_state r = S_uri \<and> c = CHR '' ''")
  case True
  then show ?thesis using assms finish_uri_inv [of "r\<lparr>rq_raw := rq_raw r @ [c]\<rparr>" indeterminate r']
    by (auto simp: Consume_def req_inv_def)
next
  case False
  then show ?thesis using assms
    by (cases "rq_state r")
      (auto simp: Consume_unfold req_inv_def split: if_split_asm sum.splits dest!: push_dest)
qed

lemma Consume_path_safe:
  assumes "Consume c r = Some (res, r')" "res \<noteq> indeterminate"
  shows "rq_path r' = rq_path r"
  using assms
  by (cases "rq_state r")
    (auto simp: Consume_unfold split: if_split_asm sum.splits dest: finish_uri_inv)

lemma Consume_raw: "Consume c r = Some (res, r') \<Longrightarrow> rq_raw r' = rq_raw r @ [c]"
  by (cases "rq_state r")
    (auto simp: Consume_unfold split: if_split_asm sum.splits dest: finish_uri_inv dest!: push_dest)

text \<open>The only undefined transition is the blank after an empty URI.\<close>

lemma Consume_defined:
  assumes "req_inv r" "\<not> (rq_state r = S_uri \<and> rq_uri r = [] \<and> c = CHR '' '')"
  shows "Consume c r \<noteq> None"
proof (cases "rq_state r = S_uri \<and> c = CHR '' ''")
  case True
  then show ?thesis using assms finish_uri_defined [of "r\<lparr>rq_raw := rq_raw r @ [c]\<rparr>"]
    by (simp add: Consume_def req_inv_def)
next
  case False
  then show ?thesis using assms push_defined
    by (cases "rq_state r") (simp_all add: Consume_unfold req_inv_def split: sum.splits)
qed

lemma req_inv_Reset [simp]: "req_inv (Reset r)"
  by (simp add: req_inv_def Reset_def)

lemma req_inv_new [simp]: "req_inv (new_request j)"
  by (simp add: req_inv_def new_request_def)

lemma req_inv_init [simp]: "req_inv (tl_request init_tls)"
  by (simp add: init_tls_def)

subsection \<open>Properties of Parse\<close>

text \<open>The thread-local invariant, kept by every call of \<open>Parse\<close>.\<close>

lemma parse_loop_inv:
  assumes "req_inv (tl_request t)" "parse_loop s t = Some (q, t')"
  shows "req_inv (tl_request t') \<and> (\<forall>r. q = Some r \<longrightarrow> path_safe (rq_path r))"
  using assms
proof (induction s t rule: parse_loop.induct)
  case (2 c cs t)
  from "2.prems"(2) obtain res r where C: "Consume c (tl_request t) = Some (res, r)"
    by (auto split: option.splits)
  show ?case
  proof (cases res)
    case indeterminate
    have "req_inv r" using Consume_inv C "2.prems"(1) indeterminate by blast
    with 2 C indeterminate show ?thesis by simp
  next
    case good
    with C have "path_safe (rq_path r)"
      using Consume_path_safe [of c "tl_request t"] "2.prems"(1) by (auto simp: req_inv_def)
    with C good "2.prems" show ?thesis by auto
  qed (use C "2.prems" in auto)
qed simp

lemma Parse_inv:
  assumes "req_inv (tl_request t)" "Parse s t = Some (q, t')"
  shows "req_inv (tl_request t')"
  using parse_loop_inv [of "t\<lparr>tl_result := indeterminate\<rparr>" s q t'] assms
  by (simp add: Parse_def)

text \<open>
  C3: a path that a completed request carries never contains two dots in a row and never
  ends in a slash, whatever the bytes and however earlier calls of \<open>Parse\<close> left the
  thread-local request.
\<close>

theorem Parse_path_safe:
  assumes "req_inv (tl_request t)" and "Parse s t = Some (Some r, t')"
  shows "\<not> sublist ''..'' (rq_path r) \<and> (rq_path r \<noteq> [] \<longrightarrow> last (rq_path r) \<noteq> CHR ''/'')"
  using parse_loop_inv [of "t\<lparr>tl_result := indeterminate\<rparr>" s "Some r" t'] assms
  by (simp add: Parse_def path_safe_def)

theorem Parse_path_safe_witness:
  "\<exists>r t'. Parse (''GET /a/ HTTP/1.0'' @ CRLF @ CRLF) init_tls = Some (Some r, t') \<and>
     rq_path r = ''/a/index.html'' \<and> \<not> sublist ''..'' (rq_path r)"
proof -
  have "\<exists>r t'. Parse (''GET /a/ HTTP/1.0'' @ CRLF @ CRLF) init_tls = Some (Some r, t') \<and>
      rq_path r = ''/a/index.html''"
    by (simp add: Parse_def init_tls_def new_request_def Consume_unfold finish_uri_def not_token_def
        is_char_def is_ctl_def is_tspecial_def is_digit_def schar_def str_find_def GetHeaderValue_def
        stoull_def strto_sign_def)
  then show ?thesis using Parse_path_safe [OF req_inv_init] by blast
qed

text \<open>\<open>Parse\<close> on a string that is split between two reads.\<close>

lemma parse_loop_append:
  assumes "tl_result t = indeterminate"
  shows "parse_loop (xs @ ys) t =
    (case parse_loop xs t of None \<Rightarrow> None
     | Some (q, t') \<Rightarrow>
         if tl_result t' = indeterminate then parse_loop ys t' else Some (q, t'))"
  using assms
proof (induction xs t rule: parse_loop.induct)
  case (2 c cs t)
  show ?case
  proof (cases "Consume c (tl_request t)")
    case (Some p)
    obtain res r where p: "p = (res, r)" by (cases p)
    from 2(1) [of p res r] Some p show ?thesis by (cases res) simp_all
  qed simp
qed simp

text \<open>
  An incremental parser gives the same answer however its input is cut into pieces: the
  law its provider promises, and the consequence for a client that reads until the answer
  is no longer pending.
\<close>

fun feed :: "('c list \<Rightarrow> 't \<Rightarrow> ('q option \<times> 't) option) \<Rightarrow> ('t \<Rightarrow> bool) \<Rightarrow> 'c list list \<Rightarrow> 't
    \<Rightarrow> ('q option \<times> 't) option" where
  "feed parse pending [] t = Some (None, t)"
| "feed parse pending (x # xs) t =
     (case parse x t of None \<Rightarrow> None
      | Some (q, t') \<Rightarrow> if pending t' then feed parse pending xs t' else Some (q, t'))"

locale incremental_parser =
  fixes parse :: "'c list \<Rightarrow> 't \<Rightarrow> ('q option \<times> 't) option"
    and pending :: "'t \<Rightarrow> bool"
  assumes parse_Nil: "pending t \<Longrightarrow> parse [] t = Some (None, t)"
    and parse_append: "pending t \<Longrightarrow> parse (xs @ ys) t =
      (case parse xs t of None \<Rightarrow> None
       | Some (q, t') \<Rightarrow> if pending t' then parse ys t' else Some (q, t'))"
begin

lemma feed_concat: "pending t \<Longrightarrow> feed parse pending xss t = parse (concat xss) t"
proof (induction xss arbitrary: t)
  case Nil
  then show ?case by (simp add: parse_Nil)
next
  case (Cons xs xss)
  then show ?case by (auto simp: parse_append split: option.splits)
qed

lemma feed_regroup:
  "pending t \<Longrightarrow> concat xss = concat yss \<Longrightarrow>
   feed parse pending xss t = feed parse pending yss t"
  by (simp add: feed_concat)

end

abbreviation parse_pending :: "parser_tls \<Rightarrow> bool" where
  "parse_pending t \<equiv> GetParseResult t = indeterminate"

lemma Parse_pending: "parse_pending t \<Longrightarrow> Parse s t = parse_loop s t"
  by (cases t) (simp add: Parse_def GetParseResult_def)

interpretation req: incremental_parser Parse parse_pending
proof
  fix t xs ys
  assume t: "parse_pending t"
  show "Parse [] t = Some (None, t)" using t by (simp add: Parse_pending)
  show "Parse (xs @ ys) t =
      (case Parse xs t of None \<Rightarrow> None
       | Some (q, t') \<Rightarrow> if parse_pending t' then Parse ys t' else Some (q, t'))"
    using t parse_loop_append [of t xs ys]
    by (auto simp: Parse_pending GetParseResult_def split: option.splits)
qed

text \<open>
  C4: the requests a session sees do not depend on how TCP cuts the byte stream: two ways
  of splitting the same bytes into reads give the same request, the same result and the
  same thread-local state.
\<close>

theorem Parse_chunking:
  assumes "GetParseResult t = indeterminate" and "concat xss = concat yss"
  shows "feed Parse (\<lambda>t. GetParseResult t = indeterminate) xss t
       = feed Parse (\<lambda>t. GetParseResult t = indeterminate) yss t"
  using assms by (rule req.feed_regroup)

theorem Parse_chunking_witness:
  "feed Parse (\<lambda>t. GetParseResult t = indeterminate) [''GE'', ''T /'', ''x''] init_tls
   = feed Parse (\<lambda>t. GetParseResult t = indeterminate) [''GET /x''] init_tls"
  by (rule Parse_chunking) (simp_all add: init_tls_def GetParseResult_def)

subsection \<open>Where parsing is undefined\<close>

definition past_uri_start :: "request \<Rightarrow> bool" where
  "past_uri_start r \<longleftrightarrow>
     rq_state r \<notin> {S_method_start, S_method} \<and> (rq_state r = S_uri \<longrightarrow> rq_uri r \<noteq> [])"

lemma Consume_past_uri_start:
  assumes "past_uri_start r" "Consume c r = Some (indeterminate, r')"
  shows "past_uri_start r'"
  using assms
  by (cases "rq_state r")
    (auto simp: Consume_unfold past_uri_start_def split: if_split_asm sum.splits
        dest: finish_uri_inv dest!: push_dest)

lemma parse_loop_past_uri_start:
  assumes "req_inv (tl_request t)" "past_uri_start (tl_request t)"
  shows "parse_loop s t \<noteq> None"
  using assms
proof (induction s t rule: parse_loop.induct)
  case (2 c cs t)
  have "Consume c (tl_request t) \<noteq> None"
    using 2(2,3) Consume_defined by (auto simp: past_uri_start_def)
  then obtain res r where C: "Consume c (tl_request t) = Some (res, r)" by auto
  show ?case
  proof (cases res)
    case indeterminate
    with C 2(2,3) have "req_inv r" "past_uri_start r"
      using Consume_inv Consume_past_uri_start by blast+
    with 2(1) C indeterminate show ?thesis by simp
  qed (simp_all add: C)
qed simp

definition token :: "string \<Rightarrow> bool" where
  "token s \<longleftrightarrow> (\<forall>c \<in> set s. \<not> not_token c)"

lemma token_prefix_Cons:
  "(\<exists>m rest. c # cs = m @ t @ rest \<and> m \<noteq> [] \<and> token m)
   \<longleftrightarrow> \<not> not_token c \<and> (\<exists>m rest. cs = m @ t @ rest \<and> token m)"
  (is "?L \<longleftrightarrow> ?R")
proof
  assume ?L
  then obtain m rest where "c # cs = m @ t @ rest" "m \<noteq> []" "token m" by blast
  then show ?R by (cases m) (auto simp: token_def)
next
  assume ?R
  then obtain m rest where "cs = m @ t @ rest" "token m" "\<not> not_token c" by blast
  then have "c # cs = (c # m) @ t @ rest \<and> c # m \<noteq> [] \<and> token (c # m)"
    by (simp add: token_def)
  then show ?L by blast
qed

lemma not_token_blank [simp]: "not_token (CHR '' '')"
  by (simp add: not_token_def is_tspecial_def)

lemma Consume_method:
  assumes "rq_state r = S_method"
  shows "Consume c r =
    (let r' = r\<lparr>rq_raw := rq_raw r @ [c]\<rparr> in
     if c = CHR '' '' then Some (indeterminate, r'\<lparr>rq_state := S_uri\<rparr>)
     else if not_token c then Some (bad, r')
     else Some (indeterminate, r'\<lparr>rq_method := rq_method r @ [c]\<rparr>))"
  using assms by (simp add: Consume_unfold)

lemma parse_loop_uri_start:
  assumes "req_inv (tl_request t)" "rq_state (tl_request t) = S_uri" "rq_uri (tl_request t) = []"
  shows "parse_loop s t = None \<longleftrightarrow> (\<exists>rest. s = CHR '' '' # rest)"
proof (cases s)
  case (Cons c cs)
  show ?thesis
  proof (cases "c = CHR '' ''")
    case True
    with assms Cons show ?thesis
      by (simp add: Consume_unfold finish_uri_def req_inv_def str_find_def)
  next
    case False
    then obtain res r where C: "Consume c (tl_request t) = Some (res, r)"
      using assms Consume_defined [of "tl_request t" c] by auto
    then have inv: "res = indeterminate \<Longrightarrow> req_inv r"
      using assms(1) Consume_inv by blast
    have "res = indeterminate \<Longrightarrow> past_uri_start r"
      using C assms False by (auto simp: Consume_unfold past_uri_start_def split: if_splits)
    with inv C Cons False parse_loop_past_uri_start show ?thesis by (cases res) auto
  qed
qed simp

lemma parse_loop_method:
  assumes "req_inv (tl_request t)" "rq_state (tl_request t) = S_method" "rq_uri (tl_request t) = []"
  shows "parse_loop s t = None \<longleftrightarrow> (\<exists>m rest. s = m @ ''  '' @ rest \<and> token m)"
  using assms
proof (induction s t rule: parse_loop.induct)
  case (2 c cs t)
  let ?r = "tl_request t"
  show ?case
  proof (cases "not_token c")
    case True
    have tok: "(\<exists>m rest. c # cs = m @ ''  '' @ rest \<and> token m)
        \<longleftrightarrow> c = CHR '' '' \<and> (\<exists>rest. cs = CHR '' '' # rest)"
      using True by (auto simp: token_def Cons_eq_append_conv)
    show ?thesis
    proof (cases "c = CHR '' ''")
      case blank: True
      let ?r' = "?r\<lparr>rq_raw := rq_raw ?r @ [c], rq_state := S_uri\<rparr>"
      have "req_inv ?r'" using 2(2,3) by (simp add: req_inv_def)
      with parse_loop_uri_start [of "\<lparr>tl_result = indeterminate, tl_request = ?r'\<rparr>" cs]
      show ?thesis unfolding tok using blank 2(3,4) by (simp add: Consume_method Let_def)
    next
      case False
      with True tok 2(3) show ?thesis by (simp add: Consume_method Let_def)
    qed
  next
    case False
    then have "c \<noteq> CHR '' ''" by auto
    then have "c # cs = m @ ''  '' @ rest \<Longrightarrow> m \<noteq> []" for m rest
      by (cases m) auto
    then have tok: "(\<exists>m rest. c # cs = m @ ''  '' @ rest \<and> token m)
        \<longleftrightarrow> (\<exists>m rest. cs = m @ ''  '' @ rest \<and> token m)"
      using False token_prefix_Cons [of c cs "''  ''"] by blast
    have C: "Consume c ?r =
        Some (indeterminate, ?r\<lparr>rq_raw := rq_raw ?r @ [c], rq_method := rq_method ?r @ [c]\<rparr>)"
      using 2(3) False \<open>c \<noteq> CHR '' ''\<close> by (simp add: Consume_method Let_def)
    have "req_inv (?r\<lparr>rq_raw := rq_raw ?r @ [c], rq_method := rq_method ?r @ [c]\<rparr>)"
      using 2(2) C Consume_inv by blast
    then show ?thesis unfolding tok using 2(1) [OF C refl refl] 2(3,4) C by simp
  qed
qed simp

text \<open>
  C5: on a fresh connection the parser's only undefined behaviour is a request line whose
  method is followed by two blanks: the index \<open>path_[path_.size() - 1]\<close> of an empty path.
\<close>

theorem Parse_undefined_iff:
  "Parse s init_tls = None \<longleftrightarrow> (\<exists>m rest. s = m @ ''  '' @ rest \<and> m \<noteq> [] \<and> token m)"
proof (cases s)
  case Nil
  then show ?thesis by (simp add: Parse_def)
next
  case (Cons c cs)
  let ?r = "new_request 0"
  let ?r' = "?r\<lparr>rq_state := S_method, rq_raw := [c], rq_method := [c]\<rparr>"
  have C: "Consume c ?r = (if not_token c then Some (bad, ?r\<lparr>rq_raw := [c]\<rparr>)
      else Some (indeterminate, ?r'))"
    by (simp add: Consume_unfold new_request_def)
  have "(\<exists>m rest. s = m @ ''  '' @ rest \<and> m \<noteq> [] \<and> token m)
      \<longleftrightarrow> \<not> not_token c \<and> (\<exists>m rest. cs = m @ ''  '' @ rest \<and> token m)"
    unfolding Cons by (rule token_prefix_Cons)
  also have "\<dots> \<longleftrightarrow> \<not> not_token c \<and> parse_loop cs \<lparr>tl_result = indeterminate, tl_request = ?r'\<rparr> = None"
    using parse_loop_method [of "\<lparr>tl_result = indeterminate, tl_request = ?r'\<rparr>" cs]
    by (simp add: req_inv_def new_request_def)
  also have "\<dots> \<longleftrightarrow> Parse s init_tls = None"
    using Cons C by (simp add: Parse_def init_tls_def)
  finally show ?thesis ..
qed

end
