(* ===== verification/Response.thy ===== *)
theory Response
  imports Web_Prelude
begin

text \<open>
  \<open>response.h\<close> and \<open>response.cc\<close>: the HTTP response built by a request handler and
  serialised by the session. \<open>res_status\<close> is \<open>None\<close> while the member is indeterminate: the
  class has no constructor, so \<open>Response r;\<close> leaves it unset. The code point of a status
  may also be an integer with no enumerator, because the Lua binding casts an \<open>int\<close> into
  the enum; \<open>unnamed\<close> stands for those.
\<close>

named_theorems response_defs \<open>unfolding rules of the response operations\<close>

subsection \<open>Status codes\<close>

datatype ResponseCode =
    ok
  | created
  | accepted
  | no_content
  | moved_permanently
  | moved_temporarily
  | not_modified
  | bad_request
  | unauthorized
  | forbidden
  | not_found
  | internal_server_error
  | not_implemented
  | bad_gateway
  | service_unavailable
  | unnamed int

fun code_of :: "ResponseCode \<Rightarrow> int" where
  "code_of ok = 200"
| "code_of created = 201"
| "code_of accepted = 202"
| "code_of no_content = 204"
| "code_of moved_permanently = 301"
| "code_of moved_temporarily = 302"
| "code_of not_modified = 304"
| "code_of bad_request = 400"
| "code_of unauthorized = 401"
| "code_of forbidden = 403"
| "code_of not_found = 404"
| "code_of internal_server_error = 500"
| "code_of not_implemented = 501"
| "code_of bad_gateway = 502"
| "code_of service_unavailable = 503"
| "code_of (unnamed i) = i"

text \<open>\<open>(Response::ResponseCode) arg\<close>.\<close>

definition code_cast :: "int \<Rightarrow> ResponseCode" where
  "code_cast i =
     (if i = 200 then ok
      else if i = 201 then created
      else if i = 202 then accepted
      else if i = 204 then no_content
      else if i = 301 then moved_permanently
      else if i = 302 then moved_temporarily
      else if i = 304 then not_modified
      else if i = 400 then bad_request
      else if i = 401 then unauthorized
      else if i = 403 then forbidden
      else if i = 404 then not_found
      else if i = 500 then internal_server_error
      else if i = 501 then not_implemented
      else if i = 502 then bad_gateway
      else if i = 503 then service_unavailable
      else unnamed i)"

text \<open>\<open>StatusString::ToString\<close>: the status line; an unnamed code gets the line of 500.\<close>

fun StatusString :: "ResponseCode \<Rightarrow> string" where
  "StatusString ok = ''HTTP/1.0 200 OK'' @ CRLF"
| "StatusString created = ''HTTP/1.0 201 Created'' @ CRLF"
| "StatusString accepted = ''HTTP/1.0 202 Accepted'' @ CRLF"
| "StatusString no_content = ''HTTP/1.0 204 No Content'' @ CRLF"
| "StatusString moved_permanently = ''HTTP/1.0 301 Moved Permanently'' @ CRLF"
| "StatusString moved_temporarily = ''HTTP/1.0 302 Moved Temporarily'' @ CRLF"
| "StatusString not_modified = ''HTTP/1.0 304 Not Modified'' @ CRLF"
| "StatusString bad_request = ''HTTP/1.0 400 Bad Request'' @ CRLF"
| "StatusString unauthorized = ''HTTP/1.0 401 Unauthorized'' @ CRLF"
| "StatusString forbidden = ''HTTP/1.0 403 Forbidden'' @ CRLF"
| "StatusString not_found = ''HTTP/1.0 404 Not Found'' @ CRLF"
| "StatusString internal_server_error = ''HTTP/1.0 500 Internal Server Error'' @ CRLF"
| "StatusString not_implemented = ''HTTP/1.0 501 Not Implemented'' @ CRLF"
| "StatusString bad_gateway = ''HTTP/1.0 502 Bad Gateway'' @ CRLF"
| "StatusString service_unavailable = ''HTTP/1.0 503 Service Unavailable'' @ CRLF"
| "StatusString (unnamed i) = ''HTTP/1.0 500 Internal Server Error'' @ CRLF"

text \<open>\<open>DefaultResponse::ToHtml\<close>: the default body of a status.\<close>

definition html_page :: "string \<Rightarrow> string \<Rightarrow> string" where
  "html_page title h1 =
     ''<html><head><title>'' @ title @ ''</title></head><body><h1>'' @ h1 @ ''</h1></body></html>''"

fun ToHtml :: "ResponseCode \<Rightarrow> string" where
  "ToHtml ok = []"
| "ToHtml created = html_page ''Created'' ''201 Created''"
| "ToHtml accepted = html_page ''Accepted'' ''202 Accepted''"
| "ToHtml no_content = html_page ''No Content'' ''204 Content''"
| "ToHtml moved_permanently = html_page ''Moved Permanently'' ''301 Moved Permanently''"
| "ToHtml moved_temporarily = html_page ''Moved Temporarily'' ''302 Moved Temporarily''"
| "ToHtml not_modified = html_page ''Not Modified'' ''304 Not Modified''"
| "ToHtml bad_request = html_page ''Bad Request'' ''400 Bad Request''"
| "ToHtml unauthorized = html_page ''Unauthorized'' ''401 Unauthorized''"
| "ToHtml forbidden = html_page ''Forbidden'' ''403 Forbidden''"
| "ToHtml not_found = html_page ''Not Found'' ''404 Not Found''"
| "ToHtml internal_server_error = html_page ''Internal Server Error'' ''500 Internal Server Error''"
| "ToHtml not_implemented = html_page ''Not Implemented'' ''501 Not Implemented''"
| "ToHtml bad_gateway = html_page ''Bad Gateway'' ''502 Bad Gateway''"
| "ToHtml service_unavailable = html_page ''Service Unavailable'' ''503 Service Unavailable''"
| "ToHtml (unnamed i) = html_page ''Internal Server Error'' ''500 Internal Server Error''"

subsection \<open>The response object\<close>

type_synonym headers = "(string \<times> string) list"

record response =
  res_status :: "ResponseCode option"
  res_headers :: headers
  res_content :: string
  res_full :: string

text \<open>\<open>Response r;\<close>\<close>

definition fresh_response :: response where
  "fresh_response = \<lparr>res_status = None, res_headers = [], res_content = [], res_full = []\<rparr>"

definition DefaultResponse :: "ResponseCode \<Rightarrow> response" where
  "DefaultResponse st =
     (let c = ToHtml st in
      fresh_response\<lparr>res_status := Some st, res_content := c,
        res_headers := [(''Content-Length'', to_string_nat (length c)),
                        (''Content-Type'', ''text/html'')]\<rparr>)"

definition PlainTextResponse :: "string \<Rightarrow> response" where
  "PlainTextResponse text =
     fresh_response\<lparr>res_status := Some ok, res_content := text,
        res_headers := [(''Content-Length'', to_string_nat (length text)),
                        (''Content-Type'', ''text/plain'')]\<rparr>"

definition HtmlResponse :: "string \<Rightarrow> response" where
  "HtmlResponse html =
     fresh_response\<lparr>res_status := Some ok, res_content := html,
        res_headers := [(''Content-Length'', to_string_nat (length html)),
                        (''Content-Type'', ''text/html'')]\<rparr>"

definition GetHeaders :: "response \<Rightarrow> headers" where
  "GetHeaders r = res_headers r"

definition AddHeader :: "string \<Rightarrow> string \<Rightarrow> response \<Rightarrow> response" where
  "AddHeader name val r = r\<lparr>res_headers := res_headers r @ [(name, val)]\<rparr>"

definition GetBody :: "response \<Rightarrow> string" where
  "GetBody r = res_content r"

definition SetBody :: "string \<Rightarrow> response \<Rightarrow> response" where
  "SetBody b r = r\<lparr>res_content := b\<rparr>"

definition GetStatus :: "response \<Rightarrow> ResponseCode option" where
  "GetStatus r = res_status r"

definition SetStatus :: "ResponseCode \<Rightarrow> response \<Rightarrow> response" where
  "SetStatus c r = r\<lparr>res_status := Some c\<rparr>"

definition SetFullResponse :: "string \<Rightarrow> response \<Rightarrow> response" where
  "SetFullResponse s r = r\<lparr>res_full := s\<rparr>"

declare DefaultResponse_def [response_defs] PlainTextResponse_def [response_defs]
  HtmlResponse_def [response_defs] GetHeaders_def [response_defs] AddHeader_def [response_defs]
  GetBody_def [response_defs] SetBody_def [response_defs] GetStatus_def [response_defs]
  SetStatus_def [response_defs] SetFullResponse_def [response_defs]
  fresh_response_def [response_defs] Let_def [response_defs]

subsection \<open>Serialisation\<close>

text \<open>
  The separators between the header lines are appended with an explicit size, but the one
  after the last header line is appended as a C string, and \<open>crlf\<close> is an array of two
  characters with no terminating NUL. The append runs on over the bytes that follow the
  array in memory up to the next NUL; they are the parameter \<open>mem\<close>. The result is \<open>None\<close>
  when the status is indeterminate.
\<close>

fun header_lines :: "headers \<Rightarrow> string" where
  "header_lines [] = []"
| "header_lines ((n, v) # hs) = n @ '': '' @ v @ CRLF @ header_lines hs"

definition ToString :: "string \<Rightarrow> response \<Rightarrow> string option" where
  "ToString mem r =
     (if res_full r \<noteq> [] then Some (res_full r)
      else case res_status r of None \<Rightarrow> None
      | Some st \<Rightarrow>
          Some (StatusString st @ header_lines (res_headers r) @ (CRLF @ c_str mem) @ res_content r))"

subsection \<open>Reading a response back\<close>

text \<open>
  What an HTTP client does with the bytes: the status line up to the first CRLF, header
  lines up to an empty line, each split at its first colon and blank, and the rest as the
  body. It is the specification against which the serialisation is proved.
\<close>

definition split_at :: "string \<Rightarrow> string \<Rightarrow> (string \<times> string) option" where
  "split_at pat s =
     (case str_find s pat 0 of None \<Rightarrow> None
      | Some i \<Rightarrow> Some (take i s, drop (i + length pat) s))"

lemma split_at_length: "split_at pat s = Some (a, b) \<Longrightarrow> pat \<noteq> [] \<Longrightarrow> length b < length s"
proof -
  assume a: "split_at pat s = Some (a, b)" and p: "pat \<noteq> []"
  then obtain i where i: "find_from pat s 0 = Some i" and b: "b = drop (i + length pat) s"
    by (auto simp: split_at_def str_find_def split: option.splits)
  from find_from_Some [OF i] have "prefix pat (drop i s)" by simp
  then have "length pat \<le> length s - i" using prefix_length_le by fastforce
  moreover from p have "0 < length pat" by simp
  ultimately have "length s - (i + length pat) < length s" by linarith
  with b show ?thesis by simp
qed

function read_headers :: "string \<Rightarrow> (headers \<times> string) option" where
  "read_headers s =
     (case split_at CRLF s of None \<Rightarrow> None
      | Some (line, rest) \<Rightarrow>
          if line = [] then Some ([], rest)
          else case split_at '': '' line of None \<Rightarrow> None
          | Some h \<Rightarrow> (case read_headers rest of None \<Rightarrow> None
             | Some (hs, b) \<Rightarrow> Some (h # hs, b)))"
  by pat_completeness auto
termination
  by (relation "measure length") (auto dest: split_at_length)

declare read_headers.simps [simp del]

definition read_response :: "string \<Rightarrow> (string \<times> headers \<times> string) option" where
  "read_response s =
     (case split_at CRLF s of None \<Rightarrow> None
      | Some (line, rest) \<Rightarrow>
          (case read_headers rest of None \<Rightarrow> None | Some (hs, b) \<Rightarrow> Some (line, hs, b)))"

text \<open>A header that can be sent: no carriage return, and no colon in its name.\<close>

definition header_ok :: "string \<times> string \<Rightarrow> bool" where
  "header_ok h \<longleftrightarrow> CR \<notin> set (fst h) \<and> CR \<notin> set (snd h) \<and> CHR '':'' \<notin> set (fst h)"

lemma find_from_notin:
  assumes "c \<notin> set a"
  shows "find_from (c # p) (a @ s) i = find_from (c # p) s (i + length a)"
  using assms by (induction a arbitrary: i) auto

lemma split_at_skip:
  assumes "c \<notin> set a"
  shows "split_at (c # p) (a @ c # p @ b) = Some (a, b)"
proof -
  have "find_from (c # p) (c # p @ b) (length a) = Some (length a)" by simp
  with assms show ?thesis
    by (simp add: split_at_def str_find_def find_from_notin)
qed

lemma read_headers_lines:
  assumes "\<forall>h \<in> set hs. header_ok h"
  shows "read_headers (header_lines hs @ CRLF @ b) = Some (hs, b)"
  using assms
proof (induction hs)
  case Nil
  have "split_at CRLF (CRLF @ b) = Some ([], b)"
    using split_at_skip [of CR "[]" "[LF]" b] by simp
  then show ?case by (simp add: read_headers.simps [of "CR # LF # b"])
next
  case (Cons h hs)
  obtain n v where h: "h = (n, v)" by (cases h)
  from Cons.prems h have n: "CR \<notin> set n" "CHR '':'' \<notin> set n" and v: "CR \<notin> set v"
    by (auto simp: header_ok_def)
  let ?line = "n @ '': '' @ v" and ?rest = "header_lines hs @ CRLF @ b"
  have 1: "split_at CRLF (?line @ CRLF @ ?rest) = Some (?line, ?rest)"
    using split_at_skip [of CR ?line "[LF]" ?rest] n v by simp
  have 2: "split_at '': '' ?line = Some (n, v)"
    using split_at_skip [of "CHR '':''" n "'' ''" v] n by simp
  from Cons have "read_headers ?rest = Some (hs, b)" by simp
  with 1 2 h show ?case
    by (subst read_headers.simps) simp
qed

lemma StatusString_line:
  "StatusString st = butlast (butlast (StatusString st)) @ CRLF"
  "CR \<notin> set (butlast (butlast (StatusString st)))"
  by (cases st; simp)+

text \<open>
  C2: whenever the status is set and the headers can be sent, the serialised response is
  defined and a client reads back the status line, the headers in order, and a body that
  is the content with the stray bytes after \<open>crlf\<close> in front of it.
\<close>

theorem ToString_read_response:
  assumes "res_full r = []" and "res_status r = Some st" and "\<forall>h \<in> set (res_headers r). header_ok h"
  shows "\<exists>s. ToString mem r = Some s \<and>
    read_response s =
      Some (butlast (butlast (StatusString st)), res_headers r, c_str mem @ res_content r)"
proof -
  let ?l = "butlast (butlast (StatusString st))" and ?b = "c_str mem @ res_content r"
  let ?rest = "header_lines (res_headers r) @ CRLF @ ?b"
  have "ToString mem r = Some (StatusString st @ ?rest)"
    using assms by (simp add: ToString_def)
  also have "StatusString st @ ?rest = ?l @ CRLF @ ?rest"
    using StatusString_line(1) [of st] by (metis append_assoc)
  finally have s: "ToString mem r = Some (?l @ CRLF @ ?rest)" .
  have "split_at CRLF (?l @ CRLF @ ?rest) = Some (?l, ?rest)"
    using split_at_skip [of CR ?l "[LF]" ?rest] StatusString_line(2) by simp
  then have "read_response (?l @ CRLF @ ?rest) = Some (?l, res_headers r, ?b)"
    using assms(3) read_headers_lines by (simp add: read_response_def)
  with s show ?thesis by blast
qed

theorem ToString_read_response_witness:
  "\<exists>s. ToString [] (DefaultResponse not_found) = Some s \<and>
    read_response s =
      Some (''HTTP/1.0 404 Not Found'',
        [(''Content-Length'', ''85''), (''Content-Type'', ''text/html'')], ToHtml not_found)"
  using ToString_read_response [of "DefaultResponse not_found" not_found "[]"]
  by (simp add: response_defs html_page_def to_string_nat_def nat_digits.simps digit_char_def header_ok_def
      c_str_def)

end
