(* ===== verification/Config_Parser.thy ===== *)
theory Config_Parser
  imports Web_Prelude
begin

text \<open>
  \<open>config_parser.h\<close> and \<open>config_parser.cc\<close>: the tokenizer and the parser of nginx-style
  configuration files, and the printer. The input stream is the list of characters not yet
  read. The parser's stack of pointers into the tree under construction is a list of frames,
  innermost first: a frame holds the statements of one block, and the child block of the last
  statement of each outer frame is the frame above it. \<open>close_stack\<close> is the tree that the
  out-parameter denotes at any moment, so a parse that fails also leaves its partial result.
\<close>

subsection \<open>Statements and the printer\<close>

datatype NginxConfigStatement =
  Statement (tokens: "string list") (child_block: "NginxConfigStatement list option")

type_synonym NginxConfig = "NginxConfigStatement list"

definition indent :: "nat \<Rightarrow> string" where
  "indent depth = concat (replicate depth ''  '')"

fun join_tokens :: "string list \<Rightarrow> string" where
  "join_tokens [] = []"
| "join_tokens [t] = t"
| "join_tokens (t # ts) = t @ '' '' @ join_tokens ts"

fun ToString_statement :: "nat \<Rightarrow> NginxConfigStatement \<Rightarrow> string" where
  "ToString_statement depth (Statement ts cb) =
     indent depth @ join_tokens ts @
     (case cb of
        Some ss \<Rightarrow> '' {'' @ [LF] @ concat (map (ToString_statement (Suc depth)) ss)
                   @ indent depth @ ''}''
      | None \<Rightarrow> '';'') @ [LF]"

definition ToString_config :: "nat \<Rightarrow> NginxConfig \<Rightarrow> string" where
  "ToString_config depth ss = concat (map (ToString_statement depth) ss)"

subsection \<open>Tokens\<close>

datatype TokenType =
    TOKEN_TYPE_START | TOKEN_TYPE_NORMAL | TOKEN_TYPE_START_BLOCK | TOKEN_TYPE_END_BLOCK
  | TOKEN_TYPE_COMMENT | TOKEN_TYPE_STATEMENT_END | TOKEN_TYPE_EOF | TOKEN_TYPE_ERROR

fun TokenTypeAsString :: "TokenType \<Rightarrow> string" where
  "TokenTypeAsString TOKEN_TYPE_START = ''TOKEN_TYPE_START''"
| "TokenTypeAsString TOKEN_TYPE_NORMAL = ''TOKEN_TYPE_NORMAL''"
| "TokenTypeAsString TOKEN_TYPE_START_BLOCK = ''TOKEN_TYPE_START_BLOCK''"
| "TokenTypeAsString TOKEN_TYPE_END_BLOCK = ''TOKEN_TYPE_END_BLOCK''"
| "TokenTypeAsString TOKEN_TYPE_COMMENT = ''TOKEN_TYPE_COMMENT''"
| "TokenTypeAsString TOKEN_TYPE_STATEMENT_END = ''TOKEN_TYPE_STATEMENT_END''"
| "TokenTypeAsString TOKEN_TYPE_EOF = ''TOKEN_TYPE_EOF''"
| "TokenTypeAsString TOKEN_TYPE_ERROR = ''TOKEN_TYPE_ERROR''"

datatype TokenParserState =
    TOKEN_STATE_INITIAL_WHITESPACE | TOKEN_STATE_SINGLE_QUOTE | TOKEN_STATE_DOUBLE_QUOTE
  | TOKEN_STATE_TOKEN_TYPE_COMMENT | TOKEN_STATE_TOKEN_TYPE_NORMAL

text \<open>
  The loop of \<open>ParseToken\<close>: its state, the value built so far and the input. The result is
  the type, the value and the rest of the input; \<open>unget\<close> leaves the last character there.
\<close>

fun parse_token_loop ::
    "TokenParserState \<Rightarrow> string \<Rightarrow> string \<Rightarrow> TokenType \<times> string \<times> string" where
  "parse_token_loop st v [] =
     (if st = TOKEN_STATE_SINGLE_QUOTE \<or> st = TOKEN_STATE_DOUBLE_QUOTE
      then (TOKEN_TYPE_ERROR, v, []) else (TOKEN_TYPE_EOF, v, []))"
| "parse_token_loop st v (c # cs) =
     (case st of
        TOKEN_STATE_INITIAL_WHITESPACE \<Rightarrow>
          if c = CHR ''{'' then (TOKEN_TYPE_START_BLOCK, [c], cs)
          else if c = CHR ''}'' then (TOKEN_TYPE_END_BLOCK, [c], cs)
          else if c = CHR ''#'' then parse_token_loop TOKEN_STATE_TOKEN_TYPE_COMMENT [c] cs
          else if c = DQUOTE then parse_token_loop TOKEN_STATE_DOUBLE_QUOTE [c] cs
          else if c = SQUOTE then parse_token_loop TOKEN_STATE_SINGLE_QUOTE [c] cs
          else if c = CHR '';'' then (TOKEN_TYPE_STATEMENT_END, [c], cs)
          else if c \<in> {CHR '' '', TAB, LF, CR} then parse_token_loop st v cs
          else parse_token_loop TOKEN_STATE_TOKEN_TYPE_NORMAL (v @ [c]) cs
      | TOKEN_STATE_SINGLE_QUOTE \<Rightarrow>
          if c = SQUOTE then (TOKEN_TYPE_NORMAL, v @ [c], cs)
          else parse_token_loop st (v @ [c]) cs
      | TOKEN_STATE_DOUBLE_QUOTE \<Rightarrow>
          if c = DQUOTE then (TOKEN_TYPE_NORMAL, v @ [c], cs)
          else parse_token_loop st (v @ [c]) cs
      | TOKEN_STATE_TOKEN_TYPE_COMMENT \<Rightarrow>
          if c = LF \<or> c = CR then (TOKEN_TYPE_COMMENT, v, cs)
          else parse_token_loop st (v @ [c]) cs
      | TOKEN_STATE_TOKEN_TYPE_NORMAL \<Rightarrow>
          if c \<in> {CHR '' '', TAB, LF, CHR '';'', CHR ''{'', CHR ''}''}
          then (TOKEN_TYPE_NORMAL, v, c # cs)
          else parse_token_loop st (v @ [c]) cs)"

definition ParseToken :: "string \<Rightarrow> TokenType \<times> string \<times> string" where
  "ParseToken input = parse_token_loop TOKEN_STATE_INITIAL_WHITESPACE [] input"

subsection \<open>The parser\<close>

datatype config_error =
  Bad_transition TokenType TokenType | Too_many_right_braces | Too_many_left_braces | Open_failed

type_synonym frame = "NginxConfigStatement list"

text \<open>\<open>statements.back()\<close> is undefined on an empty vector, \<open>top()\<close> on an empty stack.\<close>

definition update_back ::
    "(NginxConfigStatement \<Rightarrow> NginxConfigStatement) \<Rightarrow> frame \<Rightarrow> frame option" where
  "update_back f fr = (if fr = [] then None else Some (butlast fr @ [f (last fr)]))"

definition push_token :: "string \<Rightarrow> NginxConfigStatement \<Rightarrow> NginxConfigStatement" where
  "push_token t s = Statement (tokens s @ [t]) (child_block s)"

definition set_child :: "NginxConfig \<Rightarrow> NginxConfigStatement \<Rightarrow> NginxConfigStatement" where
  "set_child c s = Statement (tokens s) (Some c)"

definition attach :: "frame \<Rightarrow> frame \<Rightarrow> frame" where
  "attach inner outer = (if outer = [] then [] else butlast outer @ [set_child inner (last outer)])"

fun close_stack :: "frame list \<Rightarrow> NginxConfig" where
  "close_stack [] = []"
| "close_stack [fr] = fr"
| "close_stack (fr # fr' # frs) = close_stack (attach fr fr' # frs)"

text \<open>
  One round of the loop of \<open>Parse\<close> after the token was read: go on with a new stack and last
  token type, or stop with a verdict.
\<close>

datatype verdict = Accept | Fail config_error

definition parse_step :: "TokenType \<Rightarrow> TokenType \<Rightarrow> string \<Rightarrow> frame list
    \<Rightarrow> (verdict + TokenType \<times> frame list) option" where
  "parse_step lst tt token stack =
     (let break_out = Some (Inl (Fail (Bad_transition lst tt))) in
      case stack of [] \<Rightarrow> None
      | cur # rest \<Rightarrow>
        (case tt of
           TOKEN_TYPE_ERROR \<Rightarrow> break_out
         | TOKEN_TYPE_COMMENT \<Rightarrow> Some (Inr (lst, stack))
         | TOKEN_TYPE_START \<Rightarrow> break_out
         | TOKEN_TYPE_NORMAL \<Rightarrow>
             if lst \<in> {TOKEN_TYPE_START, TOKEN_TYPE_STATEMENT_END, TOKEN_TYPE_START_BLOCK,
                       TOKEN_TYPE_END_BLOCK, TOKEN_TYPE_NORMAL}
             then (let cur' = (if lst \<noteq> TOKEN_TYPE_NORMAL then cur @ [Statement [] None] else cur)
                   in case update_back (push_token token) cur' of
                        None \<Rightarrow> None | Some cur'' \<Rightarrow> Some (Inr (tt, cur'' # rest)))
             else break_out
         | TOKEN_TYPE_STATEMENT_END \<Rightarrow>
             if lst \<noteq> TOKEN_TYPE_NORMAL then break_out else Some (Inr (tt, stack))
         | TOKEN_TYPE_START_BLOCK \<Rightarrow>
             if lst \<noteq> TOKEN_TYPE_NORMAL then break_out
             else if cur = [] then None
             else Some (Inr (tt, [] # stack))
         | TOKEN_TYPE_END_BLOCK \<Rightarrow>
             if lst \<noteq> TOKEN_TYPE_STATEMENT_END \<and> lst \<noteq> TOKEN_TYPE_END_BLOCK
                \<and> lst \<noteq> TOKEN_TYPE_START_BLOCK then break_out
             else if length stack \<le> 1 then Some (Inl (Fail Too_many_right_braces))
             else (case rest of [] \<Rightarrow> None
                   | outer # rest' \<Rightarrow> Some (Inr (tt, attach cur outer # rest')))
         | TOKEN_TYPE_EOF \<Rightarrow>
             if lst \<noteq> TOKEN_TYPE_STATEMENT_END \<and> lst \<noteq> TOKEN_TYPE_END_BLOCK then break_out
             else if length stack \<noteq> 1 then Some (Inl (Fail Too_many_left_braces))
             else Some (Inl Accept)))"

lemma parse_token_loop_length: "length (snd (snd (parse_token_loop st v s))) \<le> length s"
proof (induction s arbitrary: st v)
  case (Cons c cs)
  show ?case by (cases st) (simp_all add: Cons.IH le_SucI)
qed simp

lemma ParseToken_length:
  "ParseToken s = (tt, v, rest) \<Longrightarrow> tt \<notin> {TOKEN_TYPE_EOF, TOKEN_TYPE_ERROR} \<Longrightarrow>
   length rest < length s"
proof (cases s)
  case (Cons c cs)
  assume *: "ParseToken s = (tt, v, rest)"
  have "length (snd (snd (ParseToken s))) \<le> length cs"
    unfolding Cons ParseToken_def by (simp add: parse_token_loop_length)
  with * Cons show ?thesis by simp
qed (auto simp: ParseToken_def)

lemma parse_step_stops:
  "parse_step lst tt tok stack = Some (Inr x) \<Longrightarrow> tt \<notin> {TOKEN_TYPE_EOF, TOKEN_TYPE_ERROR}"
  by (auto simp: parse_step_def Let_def split: list.splits if_splits)

lemma parse_progress:
  "(tt, tok, rest) = ParseToken input \<Longrightarrow> parse_step lst tt tok stack = Some (Inr x) \<Longrightarrow>
   length rest < length input"
  using ParseToken_length [of input tt tok rest] parse_step_stops [of lst tt tok stack x] by simp

function parse_config_loop ::
    "TokenType \<Rightarrow> frame list \<Rightarrow> string \<Rightarrow> (verdict \<times> NginxConfig) option" where
  "parse_config_loop lst stack input =
     (case ParseToken input of (tt, token, rest) \<Rightarrow>
        (case parse_step lst tt token stack of
           None \<Rightarrow> None
         | Some (Inl v) \<Rightarrow> Some (v, close_stack stack)
         | Some (Inr (lst', stack')) \<Rightarrow> parse_config_loop lst' stack' rest))"
  by pat_completeness auto
termination
  by (relation "measure (\<lambda>(l, s, i). length i)") (auto dest: parse_progress)

declare parse_config_loop.simps [simp del]

text \<open>\<open>Parse(std::istream*, NginxConfig*)\<close>: the verdict and the out-parameter.\<close>

definition Parse_stream :: "string \<Rightarrow> (verdict \<times> NginxConfig) option" where
  "Parse_stream input = parse_config_loop TOKEN_TYPE_START [[]] input"

text \<open>
  \<open>Parse(const char*, NginxConfig*)\<close>. The file system is a parameter: the contents of the
  named file, or \<open>None\<close> where it cannot be opened.
\<close>

definition Parse_file :: "(string \<Rightarrow> string option) \<Rightarrow> string \<Rightarrow> (verdict \<times> NginxConfig) option" where
  "Parse_file fs name =
     (case fs name of None \<Rightarrow> Some (Fail Open_failed, []) | Some input \<Rightarrow> Parse_stream input)"

subsection \<open>Every parse returns, and leaves statements with a token\<close>

fun wf_statement :: "NginxConfigStatement \<Rightarrow> bool" where
  "wf_statement (Statement ts cb) \<longleftrightarrow>
     ts \<noteq> [] \<and> (case cb of None \<Rightarrow> True | Some ss \<Rightarrow> (\<forall>s \<in> set ss. wf_statement s))"

definition wf_config :: "NginxConfig \<Rightarrow> bool" where
  "wf_config ss \<longleftrightarrow> (\<forall>s \<in> set ss. wf_statement s)"

lemma wf_statement_iff:
  "wf_statement s \<longleftrightarrow> tokens s \<noteq> [] \<and> (\<forall>c. child_block s = Some c \<longrightarrow> wf_config c)"
  by (cases s) (auto simp: wf_config_def split: option.splits)

text \<open>
  The loop invariant: there is a frame; every frame is well formed; every outer frame, and the
  innermost one after a normal token, has a last statement to extend.
\<close>

definition stack_ok :: "TokenType \<Rightarrow> frame list \<Rightarrow> bool" where
  "stack_ok lst stack \<longleftrightarrow>
     stack \<noteq> [] \<and> (\<forall>fr \<in> set stack. wf_config fr) \<and> (\<forall>fr \<in> set (tl stack). fr \<noteq> []) \<and>
     (lst = TOKEN_TYPE_NORMAL \<longrightarrow> hd stack \<noteq> [])"

lemma wf_config_snoc [simp]: "wf_config (fr @ [s]) \<longleftrightarrow> wf_config fr \<and> wf_statement s"
  by (auto simp: wf_config_def)

lemma wf_config_butlast: "wf_config fr \<Longrightarrow> wf_config (butlast fr)"
  by (auto simp: wf_config_def dest: in_set_butlastD)

lemma wf_config_last: "wf_config fr \<Longrightarrow> fr \<noteq> [] \<Longrightarrow> wf_statement (last fr)"
  by (auto simp: wf_config_def)

lemma wf_push_token: "wf_statement s \<or> s = Statement [] None \<Longrightarrow> wf_statement (push_token t s)"
  by (auto simp: push_token_def wf_statement_iff)

lemma wf_attach: "wf_config fr \<Longrightarrow> wf_config fr' \<Longrightarrow> fr' \<noteq> [] \<Longrightarrow> wf_config (attach fr fr')"
  using wf_config_butlast [of fr'] wf_config_last [of fr']
  by (simp add: attach_def set_child_def wf_statement_iff)

lemma attach_nonempty [simp]: "attach fr fr' \<noteq> [] \<longleftrightarrow> fr' \<noteq> []"
  by (simp add: attach_def)

lemma wf_close_stack:
  assumes "stack \<noteq> []" "\<forall>fr \<in> set stack. wf_config fr" "\<forall>fr \<in> set (tl stack). fr \<noteq> []"
  shows "wf_config (close_stack stack)"
  using assms by (induction stack rule: close_stack.induct) (auto simp: wf_attach)

lemma update_back_ok:
  assumes "wf_config (butlast fr)" "fr \<noteq> []" "wf_statement (last fr) \<or> last fr = Statement [] None"
  shows "\<exists>fr'. update_back (push_token t) fr = Some fr' \<and> wf_config fr' \<and> fr' \<noteq> []"
  using assms wf_push_token by (auto simp: update_back_def)

lemma parse_step_ok:
  assumes ok: "stack_ok lst stack"
  shows "parse_step lst tt token stack \<noteq> None"
    and "parse_step lst tt token stack = Some (Inr (lst', stack')) \<Longrightarrow> stack_ok lst' stack'"
proof -
  from ok obtain fr frs where st: "stack = fr # frs" by (cases stack) (auto simp: stack_ok_def)
  let ?fr = "if lst \<noteq> TOKEN_TYPE_NORMAL then fr @ [Statement [] None] else fr"
  have "wf_config (butlast ?fr)" "?fr \<noteq> []" "wf_statement (last ?fr) \<or> last ?fr = Statement [] None"
    using ok st wf_config_butlast [of fr] wf_config_last [of fr] by (auto simp: stack_ok_def)
  then obtain fr' where up: "update_back (push_token token) ?fr = Some fr'" "wf_config fr'" "fr' \<noteq> []"
    using update_back_ok by blast
  show "parse_step lst tt token stack \<noteq> None"
    using ok st up by (cases tt) (auto simp: parse_step_def stack_ok_def split: list.splits)
  show "stack_ok lst' stack'" if "parse_step lst tt token stack = Some (Inr (lst', stack'))"
  proof (cases tt)
    case TOKEN_TYPE_NORMAL
    with that st up ok show ?thesis
      by (auto simp: parse_step_def stack_ok_def Let_def split: if_split_asm)
  next
    case TOKEN_TYPE_END_BLOCK
    with that st ok wf_attach show ?thesis
      by (auto simp: parse_step_def stack_ok_def split: if_split_asm list.splits)
  qed (use that st ok in \<open>auto simp: parse_step_def stack_ok_def wf_config_def split: if_split_asm\<close>)
qed

lemma parse_config_loop_total:
  assumes "stack_ok lst stack"
  shows "\<exists>v c. parse_config_loop lst stack input = Some (v, c) \<and> wf_config c"
  using assms
proof (induction lst stack input rule: parse_config_loop.induct)
  case (1 lst stack input)
  obtain tt token rest where T: "ParseToken input = (tt, token, rest)"
    by (cases "ParseToken input")
  from parse_step_ok(1) [OF "1.prems"] obtain y where S: "parse_step lst tt token stack = Some y"
    by blast
  show ?case
  proof (cases y)
    case (Inl v)
    with T S "1.prems" wf_close_stack show ?thesis
      by (subst parse_config_loop.simps) (simp add: stack_ok_def)
  next
    case (Inr p)
    obtain lst' stack' where p: "p = (lst', stack')" by (cases p)
    have "stack_ok lst' stack'" using parse_step_ok(2) [OF "1.prems"] S Inr p by blast
    then have "\<exists>v c. parse_config_loop lst' stack' rest = Some (v, c) \<and> wf_config c"
      using "1.IH" [OF T [symmetric] refl S Inr p [symmetric]] by simp
    with T S Inr p show ?thesis by (subst parse_config_loop.simps) simp
  qed
qed

text \<open>
  C6: for every file the parser returns a verdict and never reads the last statement of an
  empty block or the top of an empty stack; and whatever the verdict, every statement of the
  configuration it leaves, at every depth, has at least one token.
\<close>

theorem Parse_stream_total:
  "\<exists>v c. Parse_stream input = Some (v, c) \<and> wf_config c"
proof -
  have "stack_ok TOKEN_TYPE_START [[]]" by (simp add: stack_ok_def wf_config_def)
  then show ?thesis
    unfolding Parse_stream_def by (rule parse_config_loop_total)
qed

subsection \<open>Printing and parsing\<close>

definition blank_char :: "char \<Rightarrow> bool" where
  "blank_char c \<longleftrightarrow> c \<in> {CHR '' '', TAB, LF, CR}"

definition delim_char :: "char \<Rightarrow> bool" where
  "delim_char c \<longleftrightarrow> c \<in> {CHR '' '', TAB, LF, CHR '';'', CHR ''{'', CHR ''}''}"

text \<open>A token the tokenizer reads as one word: no delimiter, and no quote, hash or CR in front.\<close>

definition clean_token :: "string \<Rightarrow> bool" where
  "clean_token t \<longleftrightarrow>
     t \<noteq> [] \<and> hd t \<notin> {CHR ''#'', DQUOTE, SQUOTE, CR} \<and> (\<forall>c \<in> set t. \<not> delim_char c)"

fun clean_statement :: "NginxConfigStatement \<Rightarrow> bool" where
  "clean_statement (Statement ts cb) \<longleftrightarrow>
     ts \<noteq> [] \<and> (\<forall>t \<in> set ts. clean_token t) \<and>
     (case cb of None \<Rightarrow> True | Some ss \<Rightarrow> (\<forall>s \<in> set ss. clean_statement s))"

lemma ParseToken_blank: "blank_char c \<Longrightarrow> ParseToken (c # s) = ParseToken s"
  by (auto simp: ParseToken_def blank_char_def)

lemma parse_config_loop_blank:
  "blank_char c \<Longrightarrow> parse_config_loop lst stack (c # s) = parse_config_loop lst stack s"
  by (subst (1 2) parse_config_loop.simps) (simp add: ParseToken_blank)

lemma parse_config_loop_blanks:
  "(\<And>c. c \<in> set w \<Longrightarrow> blank_char c) \<Longrightarrow>
   parse_config_loop lst stack (w @ s) = parse_config_loop lst stack s"
  by (induction w) (auto simp: parse_config_loop_blank)

lemma indent_blank: "c \<in> set (indent d) \<Longrightarrow> blank_char c"
  by (induction d) (auto simp: indent_def blank_char_def)

lemma parse_normal_word:
  "(\<And>c. c \<in> set t \<Longrightarrow> \<not> delim_char c) \<Longrightarrow> delim_char d \<Longrightarrow>
   parse_token_loop TOKEN_STATE_TOKEN_TYPE_NORMAL v (t @ d # s) = (TOKEN_TYPE_NORMAL, v @ t, d # s)"
  by (induction t arbitrary: v) (auto simp: delim_char_def)

lemma ParseToken_word:
  assumes "clean_token t" "delim_char d"
  shows "ParseToken (t @ d # s) = (TOKEN_TYPE_NORMAL, t, d # s)"
proof -
  obtain c cs where t: "t = c # cs" using assms by (cases t) (auto simp: clean_token_def)
  with assms have "parse_token_loop TOKEN_STATE_INITIAL_WHITESPACE [] (t @ d # s)
      = parse_token_loop TOKEN_STATE_TOKEN_TYPE_NORMAL [c] (cs @ d # s)"
    by (auto simp: clean_token_def delim_char_def)
  with t assms parse_normal_word [of cs d "[c]" s] show ?thesis
    by (auto simp: ParseToken_def clean_token_def)
qed

lemma parse_config_loop_step:
  assumes "ParseToken input = (tt, token, rest)" "parse_step lst tt token stack = Some (Inr (lst', stack'))"
  shows "parse_config_loop lst stack input = parse_config_loop lst' stack' rest"
  using assms by (subst parse_config_loop.simps) simp

lemma parse_more_tokens:
  assumes "\<forall>t \<in> set ts. clean_token t" "delim_char d"
  shows "parse_config_loop TOKEN_TYPE_NORMAL ((fr @ [Statement us None]) # frs)
      (concat (map (\<lambda>t. CHR '' '' # t) ts) @ d # s)
    = parse_config_loop TOKEN_TYPE_NORMAL ((fr @ [Statement (us @ ts) None]) # frs) (d # s)"
  using assms
proof (induction ts arbitrary: us)
  case (Cons t ts)
  let ?more = "concat (map (\<lambda>t. CHR '' '' # t) ts) @ d # s"
  obtain d' s' where more: "?more = d' # s'" and d': "delim_char d'"
    using Cons.prems(2) by (cases ts) (auto simp: delim_char_def)
  have "parse_config_loop TOKEN_TYPE_NORMAL ((fr @ [Statement us None]) # frs) (t @ ?more)
      = parse_config_loop TOKEN_TYPE_NORMAL ((fr @ [Statement (us @ [t]) None]) # frs) ?more"
    unfolding more using Cons.prems d'
    by (intro parse_config_loop_step [OF ParseToken_word])
      (auto simp: parse_step_def update_back_def push_token_def)
  moreover have "blank_char (CHR '' '')" by (simp add: blank_char_def)
  ultimately show ?case using Cons by (simp add: parse_config_loop_blank)
qed simp

lemma join_tokens_Cons: "join_tokens (t # ts) = t @ concat (map (\<lambda>t. CHR '' '' # t) ts)"
  by (induction ts arbitrary: t) auto

text \<open>The tokens of a statement, read where a new statement may start.\<close>

abbreviation statement_start :: "TokenType \<Rightarrow> bool" where
  "statement_start lst \<equiv> lst \<in> {TOKEN_TYPE_START, TOKEN_TYPE_STATEMENT_END,
     TOKEN_TYPE_START_BLOCK, TOKEN_TYPE_END_BLOCK}"

lemma parse_statement_tokens:
  assumes "statement_start lst" "ts \<noteq> []" "\<forall>t \<in> set ts. clean_token t" "delim_char d"
  shows "parse_config_loop lst (fr # frs) (indent n @ join_tokens ts @ d # s)
    = parse_config_loop TOKEN_TYPE_NORMAL ((fr @ [Statement ts None]) # frs) (d # s)"
proof -
  obtain t us where ts: "ts = t # us" using assms by (cases ts) auto
  let ?more = "concat (map (\<lambda>t. CHR '' '' # t) us) @ d # s"
  obtain d' s' where more: "?more = d' # s'" and d': "delim_char d'"
    using assms(4) by (cases us) (auto simp: delim_char_def)
  have "parse_config_loop lst (fr # frs) (t @ ?more)
      = parse_config_loop TOKEN_TYPE_NORMAL ((fr @ [Statement [t] None]) # frs) ?more"
    unfolding more using assms(1,3) d' ts
    by (intro parse_config_loop_step [OF ParseToken_word])
      (auto simp: parse_step_def update_back_def push_token_def)
  with assms ts parse_more_tokens [of us d fr "[t]" frs s] show ?thesis
    by (simp add: join_tokens_Cons parse_config_loop_blanks indent_blank)
qed

lemma parse_block_tokens:
  "ParseToken (CHR ''{'' # s) = (TOKEN_TYPE_START_BLOCK, ''{'', s)"
  "ParseToken (CHR ''}'' # s) = (TOKEN_TYPE_END_BLOCK, ''}'', s)"
  "ParseToken (CHR '';'' # s) = (TOKEN_TYPE_STATEMENT_END, '';'', s)"
  by (simp_all add: ParseToken_def)

lemma parse_printed_block:
  assumes "\<And>st lst fr frs s. st \<in> set ss \<Longrightarrow> statement_start lst \<Longrightarrow>
      \<exists>lst'. lst' \<in> {TOKEN_TYPE_STATEMENT_END, TOKEN_TYPE_END_BLOCK} \<and>
      parse_config_loop lst (fr # frs) (ToString_statement n st @ s)
      = parse_config_loop lst' ((fr @ [st]) # frs) s"
    and "statement_start lst"
  shows "\<exists>lst'. (if ss = [] then lst' = lst else lst' \<in> {TOKEN_TYPE_STATEMENT_END, TOKEN_TYPE_END_BLOCK}) \<and>
    parse_config_loop lst (fr # frs) (concat (map (ToString_statement n) ss) @ s)
    = parse_config_loop lst' ((fr @ ss) # frs) s"
  using assms
proof (induction ss arbitrary: lst fr)
  case (Cons st ss)
  obtain lst1 where l1: "lst1 \<in> {TOKEN_TYPE_STATEMENT_END, TOKEN_TYPE_END_BLOCK}"
    "parse_config_loop lst (fr # frs) (ToString_statement n st @ concat (map (ToString_statement n) ss) @ s)
     = parse_config_loop lst1 ((fr @ [st]) # frs) (concat (map (ToString_statement n) ss) @ s)"
    using Cons.prems(1) [of st lst fr frs "concat (map (ToString_statement n) ss) @ s"] Cons.prems(2)
    by auto
  have "\<exists>lst'. (if ss = [] then lst' = lst1 else lst' \<in> {TOKEN_TYPE_STATEMENT_END, TOKEN_TYPE_END_BLOCK}) \<and>
    parse_config_loop lst1 ((fr @ [st]) # frs) (concat (map (ToString_statement n) ss) @ s)
    = parse_config_loop lst' (((fr @ [st]) @ ss) # frs) s"
    using Cons.prems l1(1) by (intro Cons.IH) auto
  with l1 show ?case by (auto split: if_splits)
qed simp

lemma parse_printed_statement:
  assumes "clean_statement st" "statement_start lst"
  shows "\<exists>lst'. lst' \<in> {TOKEN_TYPE_STATEMENT_END, TOKEN_TYPE_END_BLOCK} \<and>
    parse_config_loop lst (fr # frs) (ToString_statement n st @ s)
    = parse_config_loop lst' ((fr @ [st]) # frs) s"
  using assms
proof (induction st arbitrary: n lst fr frs s)
  case (Statement ts cb)
  have LF: "blank_char LF" and SP: "blank_char (CHR '' '')" and dl: "delim_char (CHR '' '')" "delim_char (CHR '';'')"
    by (simp_all add: blank_char_def delim_char_def)
  show ?case
  proof (cases cb)
    case None
    have "parse_config_loop lst (fr # frs) (ToString_statement n (Statement ts cb) @ s)
        = parse_config_loop TOKEN_TYPE_NORMAL ((fr @ [Statement ts None]) # frs) (CHR '';'' # LF # s)"
      using parse_statement_tokens [of lst ts "CHR '';''" fr frs n "LF # s"] Statement.prems None dl by simp
    also have "\<dots> = parse_config_loop TOKEN_TYPE_STATEMENT_END ((fr @ [Statement ts None]) # frs) (LF # s)"
      by (rule parse_config_loop_step [OF parse_block_tokens(3)]) (simp add: parse_step_def)
    finally show ?thesis using None LF parse_config_loop_blank by fastforce
  next
    case (Some ss)
    let ?body = "concat (map (ToString_statement (Suc n)) ss)"
    let ?after = "indent n @ CHR ''}'' # LF # s"
    let ?outer = "(fr @ [Statement ts None]) # frs"
    have "parse_config_loop lst (fr # frs) (ToString_statement n (Statement ts cb) @ s)
        = parse_config_loop TOKEN_TYPE_NORMAL ?outer (CHR '' '' # CHR ''{'' # LF # ?body @ ?after)"
      using parse_statement_tokens [of lst ts "CHR '' ''" fr frs n "CHR ''{'' # LF # ?body @ ?after"]
        Statement.prems Some dl by simp
    also have "\<dots> = parse_config_loop TOKEN_TYPE_NORMAL ?outer (CHR ''{'' # LF # ?body @ ?after)"
      using SP by (rule parse_config_loop_blank)
    also have "\<dots> = parse_config_loop TOKEN_TYPE_START_BLOCK ([] # ?outer) (LF # ?body @ ?after)"
      by (rule parse_config_loop_step [OF parse_block_tokens(1)]) (simp add: parse_step_def)
    also have "\<dots> = parse_config_loop TOKEN_TYPE_START_BLOCK ([] # ?outer) (?body @ ?after)"
      using LF by (rule parse_config_loop_blank)
    finally have 1: "parse_config_loop lst (fr # frs) (ToString_statement n (Statement ts cb) @ s)
        = parse_config_loop TOKEN_TYPE_START_BLOCK ([] # ?outer) (?body @ ?after)" .
    have "\<exists>lst'. (if ss = [] then lst' = TOKEN_TYPE_START_BLOCK
          else lst' \<in> {TOKEN_TYPE_STATEMENT_END, TOKEN_TYPE_END_BLOCK}) \<and>
        parse_config_loop TOKEN_TYPE_START_BLOCK ([] # ?outer) (?body @ ?after)
        = parse_config_loop lst' (([] @ ss) # ?outer) ?after"
      using Statement.prems Some
      by (intro parse_printed_block Statement.IH) auto
    then obtain lst' where c: "if ss = [] then lst' = TOKEN_TYPE_START_BLOCK
          else lst' \<in> {TOKEN_TYPE_STATEMENT_END, TOKEN_TYPE_END_BLOCK}"
      and 2: "parse_config_loop TOKEN_TYPE_START_BLOCK ([] # ?outer) (?body @ ?after)
        = parse_config_loop lst' (ss # ?outer) ?after" unfolding append_Nil by blast
    from c have l: "lst' \<in> {TOKEN_TYPE_START_BLOCK, TOKEN_TYPE_STATEMENT_END, TOKEN_TYPE_END_BLOCK}"
      by (auto split: if_splits)
    have "parse_config_loop lst' (ss # ?outer) ?after
        = parse_config_loop lst' (ss # ?outer) (CHR ''}'' # LF # s)"
      by (rule parse_config_loop_blanks) (rule indent_blank)
    also have "\<dots> = parse_config_loop TOKEN_TYPE_END_BLOCK ((fr @ [Statement ts (Some ss)]) # frs) (LF # s)"
      using l by (intro parse_config_loop_step [OF parse_block_tokens(2)])
        (auto simp: parse_step_def attach_def set_child_def)
    also have "\<dots> = parse_config_loop TOKEN_TYPE_END_BLOCK ((fr @ [Statement ts (Some ss)]) # frs) s"
      using LF by (rule parse_config_loop_blank)
    finally show ?thesis using 1 2 Some by auto
  qed
qed

text \<open>
  C7: printing a configuration with at least one statement, whose tokens are plain words, and
  parsing the text accepts it and gives back the same tree.
\<close>

theorem Parse_ToString_config:
  assumes "ss \<noteq> []" and "\<forall>s \<in> set ss. clean_statement s"
  shows "Parse_stream (ToString_config depth ss) = Some (Accept, ss)"
proof -
  have "\<exists>lst'. (if ss = [] then lst' = TOKEN_TYPE_START
        else lst' \<in> {TOKEN_TYPE_STATEMENT_END, TOKEN_TYPE_END_BLOCK}) \<and>
      parse_config_loop TOKEN_TYPE_START ([] # []) (concat (map (ToString_statement depth) ss) @ [])
      = parse_config_loop lst' (([] @ ss) # []) []"
    using assms by (intro parse_printed_block parse_printed_statement) auto
  then obtain lst' where l: "lst' \<in> {TOKEN_TYPE_STATEMENT_END, TOKEN_TYPE_END_BLOCK}"
    and "Parse_stream (ToString_config depth ss) = parse_config_loop lst' [ss] []"
    using assms(1) by (auto simp: Parse_stream_def ToString_config_def)
  moreover have "parse_config_loop lst' [ss] [] = Some (Accept, ss)"
    using l by (subst parse_config_loop.simps) (auto simp: ParseToken_def parse_step_def)
  ultimately show ?thesis by simp
qed

theorem Parse_ToString_config_witness:
  "Parse_stream (ToString_config 0
      [Statement [''port'', ''2020''] None,
       Statement [''path'', ''/static'', ''StaticFileHandler'']
         (Some [Statement [''root'', ''./''] None])])
   = Some (Accept,
      [Statement [''port'', ''2020''] None,
       Statement [''path'', ''/static'', ''StaticFileHandler'']
         (Some [Statement [''root'', ''./''] None])])"
  by (rule Parse_ToString_config) (simp_all add: clean_token_def delim_char_def)

subsection \<open>A word at the end of the file\<close>

definition plain_word :: "string \<Rightarrow> bool" where
  "plain_word w \<longleftrightarrow>
     (\<forall>c \<in> set w. \<not> delim_char c \<and> c \<noteq> CHR ''#'' \<and> c \<noteq> DQUOTE \<and> c \<noteq> SQUOTE \<and> c \<noteq> CR)"

lemma parse_token_loop_append:
  assumes "fst (parse_token_loop st v s) \<notin> {TOKEN_TYPE_EOF, TOKEN_TYPE_ERROR}"
  shows "parse_token_loop st v (s @ w) =
    (case parse_token_loop st v s of (tt, v', rest) \<Rightarrow> (tt, v', rest @ w))"
  using assms
proof (induction s arbitrary: st v)
  case (Cons c s)
  then show ?case by (cases st) (auto split: if_splits)
qed (simp split: if_splits)

lemma parse_token_loop_word:
  assumes "plain_word w" "st \<in> {TOKEN_STATE_INITIAL_WHITESPACE, TOKEN_STATE_TOKEN_TYPE_COMMENT,
    TOKEN_STATE_TOKEN_TYPE_NORMAL}"
  shows "fst (parse_token_loop st v w) = TOKEN_TYPE_EOF"
  using assms
proof (induction w arbitrary: st v)
  case (Cons c w)
  then show ?case by (elim insertE) (auto simp: plain_word_def delim_char_def)
qed auto

lemma parse_token_loop_eof:
  assumes "fst (parse_token_loop st v s) = TOKEN_TYPE_EOF" "plain_word w"
  shows "fst (parse_token_loop st v (s @ w)) = TOKEN_TYPE_EOF"
  using assms
proof (induction s arbitrary: st v)
  case Nil
  then show ?case by (cases st) (simp_all add: parse_token_loop_word)
next
  case (Cons c s)
  then show ?case by (cases st) (auto split: if_splits)
qed

lemma parse_config_loop_word:
  assumes "parse_config_loop lst stack input = Some (Accept, c)" "plain_word w"
  shows "parse_config_loop lst stack (input @ w) = Some (Accept, c)"
  using assms
proof (induction lst stack input rule: parse_config_loop.induct)
  case (1 lst stack input)
  obtain tt token rest where T: "ParseToken input = (tt, token, rest)"
    by (cases "ParseToken input")
  with "1.prems"(1) obtain y where S: "parse_step lst tt token stack = Some y"
    by (subst (asm) parse_config_loop.simps) (auto split: option.splits)
  show ?case
  proof (cases y)
    case (Inl v)
    with "1.prems"(1) T S have v: "v = Accept" "c = close_stack stack"
      by (subst (asm) parse_config_loop.simps, simp)+
    with S Inl have tt: "tt = TOKEN_TYPE_EOF"
      by (cases tt) (auto simp: parse_step_def Let_def split: list.splits if_splits option.splits)
    with T "1.prems"(2) have "fst (ParseToken (input @ w)) = TOKEN_TYPE_EOF"
      unfolding ParseToken_def by (intro parse_token_loop_eof) simp_all
    moreover have "parse_step lst TOKEN_TYPE_EOF k stack = parse_step lst tt token stack" for k
      unfolding tt by (cases stack) (simp_all add: parse_step_def Let_def)
    ultimately show ?thesis using S Inl v
      by (subst parse_config_loop.simps) (simp add: case_prod_beta)
  next
    case (Inr p)
    obtain lst' stack' where p: "p = (lst', stack')" by (cases p)
    have "tt \<notin> {TOKEN_TYPE_EOF, TOKEN_TYPE_ERROR}" using S Inr parse_step_stops by blast
    with T have T': "ParseToken (input @ w) = (tt, token, rest @ w)"
      unfolding ParseToken_def by (subst parse_token_loop_append) simp_all
    have "parse_config_loop lst' stack' rest = Some (Accept, c)"
      using "1.prems"(1) parse_config_loop_step [OF T] S Inr p by simp
    then have "parse_config_loop lst' stack' (rest @ w) = Some (Accept, c)"
      using "1.IH" [OF T [symmetric] refl S Inr p [symmetric]] "1.prems"(2) by simp
    with parse_config_loop_step [OF T'] S Inr p show ?thesis by simp
  qed
qed

text \<open>
  C8: an unfinished statement of one word at the end of a file is dropped without an error: if
  a text is accepted, the same text followed by a plain word is accepted with the same tree.
\<close>

theorem Parse_stream_drops_last_word:
  assumes "Parse_stream input = Some (Accept, c)" and "plain_word w"
  shows "Parse_stream (input @ w) = Some (Accept, c)"
  using assms unfolding Parse_stream_def by (rule parse_config_loop_word)

theorem Parse_stream_drops_last_word_witness:
  "Parse_stream (''port 80;'' @ ''root'') = Some (Accept, [Statement [''port'', ''80''] None])"
  by (rule Parse_stream_drops_last_word)
    (simp_all add: Parse_stream_def parse_config_loop.simps ParseToken_def parse_step_def
      update_back_def push_token_def plain_word_def delim_char_def)

end
