(* ===== verification/Handlers.thy ===== *)
theory Handlers
  imports Request Response Config_Parser "HOL-Library.List_Lexorder" "HOL-Library.Char_ord"
begin

text \<open>
  \<open>request_handler.h\<close>, \<open>request_handler.cc\<close> and the three handlers without settings:
  \<open>echo_handler.cc\<close>, \<open>not_found_handler.cc\<close>, \<open>status_handler.cc\<close>. A handler object is a
  value of \<open>handler\<close>, the sum of the registered classes with their members. The registry
  that the static \<open>RequestHandlerRegisterer\<close> objects fill is \<open>request_handler_builders\<close>.
  \<open>std::map\<close> with its iteration order is an association list kept sorted by key.
\<close>

named_theorems handler_defs \<open>unfolding rules of the request handlers\<close>

subsection \<open>Ordered maps\<close>

type_synonym 'v smap = "(string \<times> 'v) list"

fun smap_find :: "'v smap \<Rightarrow> string \<Rightarrow> 'v option" where
  "smap_find [] k = None"
| "smap_find ((x, v) # m) k = (if x = k then Some v else smap_find m k)"

text \<open>\<open>m[k] = v\<close>\<close>

fun smap_assign :: "string \<Rightarrow> 'v \<Rightarrow> 'v smap \<Rightarrow> 'v smap" where
  "smap_assign k v [] = [(k, v)]"
| "smap_assign k v ((x, w) # m) =
     (if k = x then (k, v) # m else if k < x then (k, v) # (x, w) # m
      else (x, w) # smap_assign k v m)"

text \<open>\<open>m.insert({k, v})\<close>, which leaves an existing entry alone\<close>

definition smap_insert :: "string \<Rightarrow> 'v \<Rightarrow> 'v smap \<Rightarrow> 'v smap" where
  "smap_insert k v m = (case smap_find m k of None \<Rightarrow> smap_assign k v m | Some _ \<Rightarrow> m)"

definition smap_sorted :: "'v smap \<Rightarrow> bool" where
  "smap_sorted m \<longleftrightarrow> sorted_wrt (\<lambda>a b. fst a < fst b) m"

subsection \<open>Handler objects and their registry\<close>

datatype Status = OK | Error

record static_file_handler =
  sf_path_prefix :: string
  sf_root :: string

record reverse_proxy_handler =
  rp_original_uri_prefix :: string
  rp_remote_host :: string
  rp_remote_port :: string

datatype handler =
    EchoHandler
  | NotFoundHandler
  | StatusHandler
  | StaticFileHandler static_file_handler
  | ReverseProxyHandler reverse_proxy_handler

definition request_handler_builders :: "handler smap" where
  "request_handler_builders =
     fold (\<lambda>(k, h). smap_assign k h)
       [(''EchoHandler'', EchoHandler), (''NotFoundHandler'', NotFoundHandler),
        (''StatusHandler'', StatusHandler),
        (''StaticFileHandler'', StaticFileHandler \<lparr>sf_path_prefix = [], sf_root = []\<rparr>),
        (''ReverseProxyHandler'', ReverseProxyHandler
          \<lparr>rp_original_uri_prefix = [], rp_remote_host = [], rp_remote_port = []\<rparr>)] []"

text \<open>\<open>CreateByName\<close> is called with \<open>c_str()\<close>, so a name ends at its first NUL.\<close>

definition CreateByName :: "string \<Rightarrow> handler option" where
  "CreateByName type = smap_find request_handler_builders (c_str type)"

subsection \<open>Echo, not found, status\<close>

definition Echo_Init :: "string \<Rightarrow> NginxConfig \<Rightarrow> Status" where
  "Echo_Init uri_prefix config = OK"

definition Echo_HandleRequest :: "request \<Rightarrow> response \<Rightarrow> Status \<times> response" where
  "Echo_HandleRequest req res = (OK, PlainTextResponse (rq_raw req))"

definition NotFound_Init :: "string \<Rightarrow> NginxConfig \<Rightarrow> Status" where
  "NotFound_Init uri_prefix config = OK"

definition NotFound_HandleRequest :: "request \<Rightarrow> response \<Rightarrow> Status \<times> response" where
  "NotFound_HandleRequest req res = (OK, DefaultResponse not_found)"

definition Status_Init :: "string \<Rightarrow> NginxConfig \<Rightarrow> Status" where
  "Status_Init uri_prefix config = OK"

text \<open>
  The members of the server singleton that the status page shows: the map from URL prefixes
  to handler names and the history of requests.
\<close>

record server_info =
  si_handlerInfo :: "string smap"
  si_requests :: "(string \<times> int) list"

fun handler_rows :: "string smap \<Rightarrow> string" where
  "handler_rows [] = []"
| "handler_rows ((url, name) # m) =
     ''<tr><td>'' @ url @ ''</td><td style='' @ [DQUOTE] @ ''width:100px'' @ [DQUOTE] @ ''>''
     @ name @ ''</td></tr>'' @ handler_rows m"

fun request_rows :: "(string \<times> int) list \<Rightarrow> string" where
  "request_rows [] = []"
| "request_rows ((uri, code) # rs) =
     ''<tr><td>'' @ uri @ ''</td><td style='' @ [DQUOTE] @ ''width:100px'' @ [DQUOTE] @ ''>''
     @ to_string_int code @ ''</td></tr>'' @ request_rows rs"

definition table_head :: "string \<Rightarrow> string \<Rightarrow> string" where
  "table_head a b =
     CRLF @ ''<br><br><table style='' @ [DQUOTE] @ ''width:640px'' @ [DQUOTE] @ ''><tr>''
     @ ''<th align='' @ [DQUOTE] @ ''left'' @ [DQUOTE] @ ''>'' @ a @ ''</th>''
     @ ''<th align='' @ [DQUOTE] @ ''left'' @ [DQUOTE] @ '' style='' @ [DQUOTE] @ ''width:100px''
     @ [DQUOTE] @ ''>'' @ b @ ''</th>'' @ ''</tr>''"

definition status_html :: "server_info \<Rightarrow> string" where
  "status_html s =
     ''<html><head><title>Webserver Status</title></head>'' @ ''<body>'' @ CRLF
     @ ''Total number of request handlers: '' @ to_string_nat (length (si_handlerInfo s))
     @ table_head ''URL Prefix'' ''Handler Type''
     @ handler_rows (si_handlerInfo s)
     @ ''</table><br><br><br>'' @ CRLF @ ''Total number of requests received so far: ''
     @ to_string_nat (length (si_requests s))
     @ table_head ''Request URI'' ''Response Code''
     @ request_rows (si_requests s)
     @ ''</table></body></html>''"

definition Status_HandleRequest :: "server_info \<Rightarrow> request \<Rightarrow> response \<Rightarrow> Status \<times> response" where
  "Status_HandleRequest s req res = (OK, HtmlResponse (status_html s))"

declare Echo_Init_def [handler_defs] Echo_HandleRequest_def [handler_defs]
  NotFound_Init_def [handler_defs] NotFound_HandleRequest_def [handler_defs]
  Status_Init_def [handler_defs] Status_HandleRequest_def [handler_defs]

subsection \<open>Laws of the ordered map\<close>

text \<open>
  What the sources rely on of \<open>std::map\<close>: lookup after assignment, and after an insertion
  that does not overwrite. Clients that only insert keep the first value, clients that assign
  the last one.
\<close>

locale std_map =
  fixes find :: "'m \<Rightarrow> 'k \<Rightarrow> 'v option"
    and assign :: "'k \<Rightarrow> 'v \<Rightarrow> 'm \<Rightarrow> 'm"
    and insert_new :: "'k \<Rightarrow> 'v \<Rightarrow> 'm \<Rightarrow> 'm"
    and invar :: "'m \<Rightarrow> bool"
  assumes find_assign: "invar m \<Longrightarrow> find (assign k v m) j = (if j = k then Some v else find m j)"
    and find_insert_new: "invar m \<Longrightarrow> find (insert_new k v m) j =
      (if j = k \<and> find m k = None then Some v else find m j)"
    and invar_assign: "invar m \<Longrightarrow> invar (assign k v m)"
    and invar_insert_new: "invar m \<Longrightarrow> invar (insert_new k v m)"
begin

lemma invar_fold_assign: "invar m \<Longrightarrow> invar (fold (\<lambda>(k, v). assign k v) kvs m)"
  by (induction kvs arbitrary: m) (auto simp: invar_assign)

lemma find_fold_assign:
  "invar m \<Longrightarrow> find (fold (\<lambda>(k, v). assign k v) kvs m) j =
     (case map_of (rev kvs) j of Some v \<Rightarrow> Some v | None \<Rightarrow> find m j)"
proof (induction kvs arbitrary: m)
  case (Cons kv kvs)
  then show ?case
    by (cases kv) (auto simp: invar_assign find_assign map_add_def split: option.splits)
qed simp

lemma invar_fold_insert: "invar m \<Longrightarrow> invar (fold (\<lambda>(k, v). insert_new k v) kvs m)"
  by (induction kvs arbitrary: m) (auto simp: invar_insert_new)

lemma find_fold_insert:
  "invar m \<Longrightarrow> find (fold (\<lambda>(k, v). insert_new k v) kvs m) j =
     (case find m j of Some v \<Rightarrow> Some v | None \<Rightarrow> map_of kvs j)"
proof (induction kvs arbitrary: m)
  case (Cons kv kvs)
  then show ?case
    by (cases kv) (auto simp: invar_insert_new find_insert_new split: option.splits)
qed (simp split: option.splits)

end

lemma smap_find_assign: "smap_find (smap_assign k v m) j = (if j = k then Some v else smap_find m j)"
  by (induction k v m rule: smap_assign.induct) auto

lemma fst_set_smap_assign: "fst ` set (smap_assign k v m) = insert k (fst ` set m)"
  by (induction k v m rule: smap_assign.induct) auto

lemma smap_sorted_assign: "smap_sorted m \<Longrightarrow> smap_sorted (smap_assign k v m)"
proof (induction k v m rule: smap_assign.induct)
  case (2 k v x w m)
  then have m: "smap_sorted m" and xm: "\<And>p. p \<in> set m \<Longrightarrow> x < fst p"
    by (auto simp: smap_sorted_def)
  consider "k = x" | "k < x" | "x < k" by fastforce
  then show ?case
  proof cases
    case 1
    with "2.prems" show ?thesis by (simp add: smap_sorted_def)
  next
    case 2
    then have "k < fst p" if "p \<in> set m" for p using xm [OF that] by (rule less_trans)
    with 2 xm m have "sorted_wrt (\<lambda>a b. fst a < fst b) ((k, v) # (x, w) # m)"
      unfolding smap_sorted_def sorted_wrt.simps by auto
    with 2 show ?thesis by (simp add: smap_sorted_def less_imp_neq)
  next
    case 3
    have "x < fst p" if "p \<in> set (smap_assign k v m)" for p
    proof -
      have "fst p \<in> fst ` set (smap_assign k v m)" using that by (rule imageI)
      then have "fst p \<in> insert k (fst ` set m)" by (simp only: fst_set_smap_assign)
      with 3 xm show ?thesis by auto
    qed
    moreover from 3 have "\<not> k < x" "k \<noteq> x" by auto
    ultimately show ?thesis using "2.IH" m by (simp add: smap_sorted_def)
  qed
qed (simp add: smap_sorted_def)

interpretation smap: std_map smap_find smap_assign smap_insert smap_sorted
proof
  fix m :: "'v smap" and k v j
  assume m: "smap_sorted m"
  show "smap_find (smap_assign k v m) j = (if j = k then Some v else smap_find m j)"
    by (rule smap_find_assign)
  show "smap_find (smap_insert k v m) j =
      (if j = k \<and> smap_find m k = None then Some v else smap_find m j)"
    by (auto simp: smap_insert_def smap_find_assign split: option.splits)
  show "smap_sorted (smap_assign k v m)" using m by (rule smap_sorted_assign)
  show "smap_sorted (smap_insert k v m)"
    using m by (simp add: smap_insert_def smap_sorted_assign split: option.splits)
qed

lemma smap_sorted_Nil [simp]: "smap_sorted []"
  by (simp add: smap_sorted_def)

text \<open>
  The registry knows exactly the five classes, each under the name of its class.
\<close>

lemma CreateByName_eq:
  "CreateByName type = map_of
     [(''EchoHandler'', EchoHandler), (''NotFoundHandler'', NotFoundHandler),
      (''StatusHandler'', StatusHandler),
      (''StaticFileHandler'', StaticFileHandler \<lparr>sf_path_prefix = [], sf_root = []\<rparr>),
      (''ReverseProxyHandler'', ReverseProxyHandler
        \<lparr>rp_original_uri_prefix = [], rp_remote_host = [], rp_remote_port = []\<rparr>)] (c_str type)"
  unfolding CreateByName_def request_handler_builders_def
  by (subst smap.find_fold_assign) auto

end
