(* ===== verification/Lua_Template.thy ===== *)
theory Lua_Template
  imports Web_Prelude
begin

text \<open>
  The first half of \<open>do_lua\<close> in \<open>static_file_handler.cc\<close>: the character-driven translation of
  an HTML file with Lua tags into one Lua script. \<open>template_step\<close> is the \<open>switch\<close> over the
  state; its third result is the flag \<open>next\<close>: when it is false the same character is looked
  at again in the new state. \<open>lua_script\<close> is the whole translation.
\<close>

subsection \<open>The state machine\<close>

datatype tstate =
    T_start_ignore_immediate_newline | T_start
  | T_expecting_question_mark | T_expecting_l | T_expecting_u | T_expecting_a
  | T_expecting_space_1 | T_expecting_space_1_2 | T_expecting_space_2 | T_expecting_space_2_2
  | T_chunk | T_chunk_2 | T_chunk_whitespace | T_chunk_whitespace_2
  | T_chunk_single_quote | T_chunk_single_quote_2
  | T_chunk_single_quote_escape | T_chunk_single_quote_escape_2
  | T_chunk_double_quote | T_chunk_double_quote_2
  | T_chunk_double_quote_escape | T_chunk_double_quote_escape_2
  | T_chunk_question_mark | T_chunk_question_mark_2
  | T_expression | T_expression_2 | T_expression_whitespace | T_expression_whitespace_2
  | T_expression_single_quote | T_expression_single_quote_2
  | T_expression_single_quote_escape | T_expression_single_quote_escape_2
  | T_expression_double_quote | T_expression_double_quote_2
  | T_expression_double_quote_escape | T_expression_double_quote_escape_2
  | T_expression_question_mark | T_expression_question_mark_2

type_synonym tstep = "tstate \<times> string \<times> bool"

definition start_case :: "char \<Rightarrow> string \<Rightarrow> tstep" where
  "start_case c lua =
     (if c = CHR ''<'' then (T_expecting_question_mark, lua, True)
      else if c = CHR ''['' \<or> c = CHR '']'' then (T_start, lua @ [BACKSLASH] @ [c], True)
      else (T_start, lua @ [c], True))"

text \<open>One more character of an opening tag, or back to plain text with what was seen so far.\<close>

definition tag_char :: "char \<Rightarrow> char \<Rightarrow> tstate \<Rightarrow> string \<Rightarrow> string \<Rightarrow> tstep" where
  "tag_char c want s seen lua =
     (if c = want then (s, lua, True) else (T_start, lua @ seen, False))"

definition is_blank :: "char \<Rightarrow> bool" where
  "is_blank c \<longleftrightarrow> c = CHR '' '' \<or> c = LF"

definition open_chunk :: "char \<Rightarrow> tstate \<Rightarrow> tstate \<Rightarrow> string \<Rightarrow> string \<Rightarrow> tstep" where
  "open_chunk c chunk eq seen lua =
     (if is_blank c then (chunk, lua @ '']])'' @ [c], True)
      else if c = CHR ''='' then (eq, lua, True)
      else (T_start, lua @ seen, False))"

definition open_expression :: "char \<Rightarrow> tstate \<Rightarrow> string \<Rightarrow> string \<Rightarrow> tstep" where
  "open_expression c expr seen lua =
     (if is_blank c then (expr, lua @ '']])'' @ [c] @ ''put('', True)
      else (T_start, lua @ seen, False))"

definition code_char :: "char \<Rightarrow> tstate \<Rightarrow> tstate \<Rightarrow> tstate \<Rightarrow> tstate \<Rightarrow> string \<Rightarrow> tstep" where
  "code_char c plain sq dq ws lua =
     ((if c = SQUOTE then sq else if c = DQUOTE then dq else if is_blank c then ws else plain),
      lua @ [c], True)"

definition whitespace_char :: "char \<Rightarrow> char \<Rightarrow> tstate \<Rightarrow> tstate \<Rightarrow> tstate \<Rightarrow> string \<Rightarrow> tstep" where
  "whitespace_char c close qm ws plain lua =
     (if c = close then (qm, lua, True)
      else if is_blank c then (ws, lua @ [c], True)
      else (plain, lua, False))"

definition quoted_char :: "char \<Rightarrow> char \<Rightarrow> tstate \<Rightarrow> tstate \<Rightarrow> tstate \<Rightarrow> string \<Rightarrow> tstep" where
  "quoted_char c q plain esc self lua =
     ((if c = q then plain else if c = BACKSLASH then esc else self), lua @ [c], True)"

definition close_chunk :: "char \<Rightarrow> char \<Rightarrow> tstate \<Rightarrow> string \<Rightarrow> tstep" where
  "close_chunk c close plain lua =
     (if c = CHR ''>'' then (T_start_ignore_immediate_newline, lua @ ''put([['', True)
      else (plain, lua @ [close], False))"

text \<open>\<open>lua.insert(lua.end() - 1, ')')\<close>\<close>

definition insert_before_last :: "char \<Rightarrow> string \<Rightarrow> string" where
  "insert_before_last c s = take (length s - 1) s @ [c] @ drop (length s - 1) s"

definition close_expression :: "char \<Rightarrow> char \<Rightarrow> tstate \<Rightarrow> string \<Rightarrow> tstep" where
  "close_expression c close plain lua =
     (if c = CHR ''>''
      then (T_start_ignore_immediate_newline, insert_before_last (CHR '')'') lua @ ''put([['', True)
      else (plain, lua @ [close], False))"

definition template_step :: "tstate \<Rightarrow> char \<Rightarrow> string \<Rightarrow> tstep" where
  "template_step s c lua =
     (case s of
        T_start_ignore_immediate_newline \<Rightarrow>
          if c = LF then (T_start, lua @ [c], True) else start_case c lua
      | T_start \<Rightarrow> start_case c lua
      | T_expecting_question_mark \<Rightarrow>
          if c = CHR ''?'' then (T_expecting_l, lua, True)
          else if c = CHR ''%'' then (T_expecting_space_1_2, lua, True)
          else (T_start, lua @ ''<'', False)
      | T_expecting_l \<Rightarrow> tag_char c (CHR ''l'') T_expecting_u ''<?'' lua
      | T_expecting_u \<Rightarrow> tag_char c (CHR ''u'') T_expecting_a ''<?l'' lua
      | T_expecting_a \<Rightarrow> tag_char c (CHR ''a'') T_expecting_space_1 ''<?lu'' lua
      | T_expecting_space_1 \<Rightarrow> open_chunk c T_chunk T_expecting_space_2 ''<?lua'' lua
      | T_expecting_space_1_2 \<Rightarrow> open_chunk c T_chunk_2 T_expecting_space_2_2 ''<%'' lua
      | T_expecting_space_2 \<Rightarrow> open_expression c T_expression ''<lua='' lua
      | T_expecting_space_2_2 \<Rightarrow> open_expression c T_expression_2 ''<%='' lua
      | T_chunk \<Rightarrow>
          code_char c T_chunk T_chunk_single_quote T_chunk_double_quote T_chunk_whitespace lua
      | T_chunk_2 \<Rightarrow>
          code_char c T_chunk_2 T_chunk_single_quote_2 T_chunk_double_quote_2 T_chunk_whitespace_2 lua
      | T_chunk_whitespace \<Rightarrow>
          whitespace_char c (CHR ''?'') T_chunk_question_mark T_chunk_whitespace T_chunk lua
      | T_chunk_whitespace_2 \<Rightarrow>
          whitespace_char c (CHR ''%'') T_chunk_question_mark_2 T_chunk_whitespace_2 T_chunk_2 lua
      | T_chunk_single_quote \<Rightarrow>
          quoted_char c SQUOTE T_chunk T_chunk_single_quote_escape T_chunk_single_quote lua
      | T_chunk_single_quote_2 \<Rightarrow>
          quoted_char c SQUOTE T_chunk_2 T_chunk_single_quote_escape_2 T_chunk_single_quote_2 lua
      | T_chunk_single_quote_escape \<Rightarrow> (T_chunk_single_quote, lua @ [c], True)
      | T_chunk_single_quote_escape_2 \<Rightarrow> (T_chunk_single_quote_2, lua @ [c], True)
      | T_chunk_double_quote \<Rightarrow>
          quoted_char c DQUOTE T_chunk T_chunk_double_quote_escape T_chunk_double_quote lua
      | T_chunk_double_quote_2 \<Rightarrow>
          quoted_char c DQUOTE T_chunk_2 T_chunk_double_quote_escape_2 T_chunk_double_quote_2 lua
      | T_chunk_double_quote_escape \<Rightarrow> (T_chunk_double_quote, lua @ [c], True)
      | T_chunk_double_quote_escape_2 \<Rightarrow> (T_chunk_double_quote_2, lua @ [c], True)
      | T_chunk_question_mark \<Rightarrow> close_chunk c (CHR ''?'') T_chunk lua
      | T_chunk_question_mark_2 \<Rightarrow> close_chunk c (CHR ''%'') T_chunk_2 lua
      | T_expression \<Rightarrow>
          code_char c T_expression T_expression_single_quote T_expression_double_quote
            T_expression_whitespace lua
      | T_expression_2 \<Rightarrow>
          code_char c T_expression_2 T_expression_single_quote_2 T_expression_double_quote_2
            T_expression_whitespace_2 lua
      | T_expression_whitespace \<Rightarrow>
          whitespace_char c (CHR ''?'') T_expression_question_mark T_expression_whitespace
            T_expression lua
      | T_expression_whitespace_2 \<Rightarrow>
          whitespace_char c (CHR ''%'') T_expression_question_mark_2 T_expression_whitespace_2
            T_expression_2 lua
      | T_expression_single_quote \<Rightarrow>
          quoted_char c SQUOTE T_expression T_expression_single_quote_escape
            T_expression_single_quote lua
      | T_expression_single_quote_2 \<Rightarrow>
          quoted_char c SQUOTE T_expression_2 T_expression_single_quote_escape_2
            T_expression_single_quote_2 lua
      | T_expression_single_quote_escape \<Rightarrow> (T_expression_single_quote, lua @ [c], True)
      | T_expression_single_quote_escape_2 \<Rightarrow> (T_expression_single_quote_2, lua @ [c], True)
      | T_expression_double_quote \<Rightarrow>
          quoted_char c DQUOTE T_expression T_expression_double_quote_escape
            T_expression_double_quote lua
      | T_expression_double_quote_2 \<Rightarrow>
          quoted_char c DQUOTE T_expression_2 T_expression_double_quote_escape_2
            T_expression_double_quote_2 lua
      | T_expression_double_quote_escape \<Rightarrow> (T_expression_double_quote, lua @ [c], True)
      | T_expression_double_quote_escape_2 \<Rightarrow> (T_expression_double_quote_2, lua @ [c], True)
      | T_expression_question_mark \<Rightarrow> close_expression c (CHR ''?'') T_expression lua
      | T_expression_question_mark_2 \<Rightarrow> close_expression c (CHR ''%'') T_expression_2 lua)"

lemmas template_unfold =
  template_step_def start_case_def tag_char_def open_chunk_def open_expression_def code_char_def
  whitespace_char_def quoted_char_def close_chunk_def close_expression_def

text \<open>The states that always consume their character; a character is put back only into these.\<close>

definition consuming :: "tstate \<Rightarrow> bool" where
  "consuming s \<longleftrightarrow> s \<in> {T_start, T_chunk, T_chunk_2, T_expression, T_expression_2}"

lemma template_step_retry:
  assumes "template_step s c lua = (s', lua', False)"
  shows "\<not> consuming s \<and> consuming s'"
  using assms by (cases s) (simp_all add: template_unfold consuming_def split: if_splits)

function template_loop :: "tstate \<Rightarrow> string \<Rightarrow> string \<Rightarrow> string" where
  "template_loop s lua [] = lua"
| "template_loop s lua (c # cs) =
     (case template_step s c lua of
        (s', lua', nxt) \<Rightarrow> template_loop s' lua' (if nxt then cs else c # cs))"
  by pat_completeness auto
termination
  by (relation "measure (\<lambda>(s, lua, i). 2 * length i + (if consuming s then 0 else 1))")
    (auto dest: template_step_retry [OF sym] split: if_splits)

text \<open>The script for a file: one call of \<open>put\<close> per stretch of text, the code in between.\<close>

definition lua_script :: "string \<Rightarrow> string" where
  "lua_script file = template_loop T_start ''put([['' file @ '']])''"

subsection \<open>Templates and their meaning\<close>

text \<open>
  A template is a list of segments: text, and Lua code in a chunk tag or an expression tag, in
  either of the two spellings that the README documents.
\<close>

datatype tagform = Question | Percent

datatype segment = Text string | Chunk tagform string | Expr tagform string

fun close_char :: "tagform \<Rightarrow> char" where
  "close_char Question = CHR ''?''"
| "close_char Percent = CHR ''%''"

fun open_tag :: "tagform \<Rightarrow> string" where
  "open_tag Question = ''<?lua''"
| "open_tag Percent = ''<%''"

fun render_segment :: "segment \<Rightarrow> string" where
  "render_segment (Text t) = t"
| "render_segment (Chunk f code) = open_tag f @ '' '' @ code @ '' '' @ [close_char f] @ ''>''"
| "render_segment (Expr f code) = open_tag f @ ''= '' @ code @ '' '' @ [close_char f] @ ''>''"

fun escape_text :: "string \<Rightarrow> string" where
  "escape_text [] = []"
| "escape_text (c # cs) =
     (if c = CHR ''['' \<or> c = CHR '']'' then BACKSLASH # c # escape_text cs else c # escape_text cs)"

text \<open>
  What a text contributes: brackets are escaped, and the beginning \<open><?lua=\<close> of an expression tag loses its
  question mark when no blank follows (\<open>_expecting_space_2\<close> puts back \<open><lua=\<close>).
\<close>

fun text_script :: "string \<Rightarrow> string" where
  "text_script [] = []"
| "text_script (c # cs) =
     (if prefix ''<?lua='' (c # cs) then CHR ''<'' # text_script (tl cs) else escape_text [c] @ text_script cs)"

text \<open>What a segment contributes between the opening and the closing of the text literal.\<close>

fun segment_script :: "segment \<Rightarrow> string" where
  "segment_script (Text t) = text_script t"
| "segment_script (Chunk f code) = '']]) '' @ code @ '' put([[''"
| "segment_script (Expr f code) = '']]) put('' @ code @ '') put([[''"

text \<open>
  Code the translation copies: quoted strings are closed, and outside of them the closing
  character of the tag does not occur.
\<close>

datatype code_mode = Plain | SQ | SQ_esc | DQ | DQ_esc

fun next_mode :: "code_mode \<Rightarrow> char \<Rightarrow> code_mode" where
  "next_mode Plain c = (if c = SQUOTE then SQ else if c = DQUOTE then DQ else Plain)"
| "next_mode SQ c = (if c = SQUOTE then Plain else if c = BACKSLASH then SQ_esc else SQ)"
| "next_mode SQ_esc c = SQ"
| "next_mode DQ c = (if c = DQUOTE then Plain else if c = BACKSLASH then DQ_esc else DQ)"
| "next_mode DQ_esc c = DQ"

fun code_scan :: "char \<Rightarrow> code_mode \<Rightarrow> string \<Rightarrow> code_mode option" where
  "code_scan cl m [] = Some m"
| "code_scan cl m (c # cs) =
     (if m = Plain \<and> c = cl then None else code_scan cl (next_mode m c) cs)"

definition code_ok :: "tagform \<Rightarrow> string \<Rightarrow> bool" where
  "code_ok f code \<longleftrightarrow> code_scan (close_char f) Plain code = Some Plain"

text \<open>
  A page is a list of segments. A text may contain any character; it must not contain a complete opening tag,
  nor, at the end of the page, the beginning of one, and two texts next to each other are one text.
\<close>

definition opening_tags :: "string list" where
  "opening_tags = [''<?lua '', ''<?lua'' @ [LF], ''<?lua= '', ''<?lua='' @ [LF], ''<% '', ''<%'' @ [LF], ''<%= '', ''<%='' @ [LF]]"

definition begun_tags :: "string list" where
  "begun_tags = [''<'', ''<?'', ''<?l'', ''<?lu'', ''<?lua'', ''<?lua='', ''<%'', ''<%='']"

definition no_tag :: "string \<Rightarrow> bool" where
  "no_tag t \<longleftrightarrow> (\<forall>g \<in> set opening_tags. \<not> sublist g t)"

definition no_tag_begun :: "string \<Rightarrow> bool" where
  "no_tag_begun t \<longleftrightarrow> (\<forall>g \<in> set begun_tags. \<not> suffix g t)"

fun is_text :: "segment \<Rightarrow> bool" where
  "is_text (Text t) = True"
| "is_text _ = False"

fun page_ok :: "segment list \<Rightarrow> bool" where
  "page_ok [] = True"
| "page_ok (Text t # gs) \<longleftrightarrow>
     no_tag t \<and> (case gs of [] \<Rightarrow> no_tag_begun t | g # _ \<Rightarrow> \<not> is_text g) \<and> page_ok gs"
| "page_ok (Chunk f code # gs) \<longleftrightarrow> code_ok f code \<and> page_ok gs"
| "page_ok (Expr f code # gs) \<longleftrightarrow> code_ok f code \<and> page_ok gs"

subsection \<open>Running the machine over a template\<close>

text \<open>
  The state that \<open>_start_ignore_immediate_newline\<close> is meant to differ in is the same as
  \<open>_start\<close>: both copy the newline. It is Lua's own rule for long strings that drops it.
\<close>

lemma start_states_equal:
  "template_step T_start_ignore_immediate_newline c lua = template_step T_start c lua"
  by (simp add: template_unfold)

lemma template_loop_start:
  "template_loop T_start_ignore_immediate_newline lua s = template_loop T_start lua s"
  by (cases s) (simp_all add: start_states_equal)

text \<open>The states inside an opening tag, with what was seen of it.\<close>

fun tag_seen :: "tstate \<Rightarrow> string" where
  "tag_seen T_expecting_question_mark = ''<''"
| "tag_seen T_expecting_l = ''<?''"
| "tag_seen T_expecting_u = ''<?l''"
| "tag_seen T_expecting_a = ''<?lu''"
| "tag_seen T_expecting_space_1 = ''<?lua''"
| "tag_seen T_expecting_space_2 = ''<?lua=''"
| "tag_seen T_expecting_space_1_2 = ''<%''"
| "tag_seen T_expecting_space_2_2 = ''<%=''"
| "tag_seen _ = []"

definition tag_state :: "tstate \<Rightarrow> bool" where
  "tag_state s \<longleftrightarrow> s = T_start \<or> tag_seen s \<noteq> []"

lemma tag_state_cases:
  assumes "tag_state s"
  obtains "s = T_start" | "s = T_expecting_question_mark" | "s = T_expecting_l" | "s = T_expecting_u"
    | "s = T_expecting_a" | "s = T_expecting_space_1" | "s = T_expecting_space_2"
    | "s = T_expecting_space_1_2" | "s = T_expecting_space_2_2"
  using assms by (cases s) (auto simp: tag_state_def)

text \<open>One character of text, possibly looked at twice: the machine has copied what can no longer be a tag.\<close>

definition text_char :: "tstate \<Rightarrow> char \<Rightarrow> string \<times> tstate" where
  "text_char s c =
     (case template_step s c [] of
        (s', out, True) \<Rightarrow> (out, s')
      | (s', out, False) \<Rightarrow> (case template_step s' c [] of (s'', out', _) \<Rightarrow> (out @ out', s'')))"

definition tag_opens :: "tstate \<Rightarrow> char \<Rightarrow> bool" where
  "tag_opens s c \<longleftrightarrow> is_blank c \<and> s \<in> {T_expecting_space_1, T_expecting_space_2, T_expecting_space_1_2, T_expecting_space_2_2}"

lemma text_char_states:
  assumes "tag_state s" "\<not> tag_opens s c"
  shows "tag_state (snd (text_char s c))"
  using assms(1)
  by (cases rule: tag_state_cases)
    (use assms(2) in \<open>simp_all add: text_char_def template_unfold tag_state_def tag_opens_def\<close>)

lemma text_char_seen:
  assumes "tag_state s" "\<not> tag_opens s c"
  shows "suffix (tag_seen (snd (text_char s c))) (tag_seen s @ [c])"
  using assms(1)
  by (cases rule: tag_state_cases)
    (use assms(2) in \<open>simp_all add: text_char_def template_unfold tag_opens_def suffix_def\<close>)

lemma template_loop_text_char:
  assumes "tag_state s" "\<not> tag_opens s c"
  shows "template_loop s lua (c # cs) = template_loop (snd (text_char s c)) (lua @ fst (text_char s c)) cs"
  using assms(1)
  by (cases rule: tag_state_cases)
    (use assms(2) in \<open>simp_all add: text_char_def template_unfold tag_opens_def\<close>)

lemma text_script_text_char:
  assumes "tag_state s" "\<not> tag_opens s c"
  shows "text_script (tag_seen s @ c # t) = fst (text_char s c) @ text_script (tag_seen (snd (text_char s c)) @ t)"
  using assms(1)
  by (cases rule: tag_state_cases)
    (use assms(2) in \<open>simp_all add: text_char_def template_unfold tag_opens_def\<close>)

lemma no_tag_opens:
  assumes "tag_state s" "no_tag (tag_seen s @ c # t)"
  shows "\<not> tag_opens s c"
proof
  assume "tag_opens s c"
  then have "tag_seen s @ [c] \<in> set opening_tags"
    unfolding tag_opens_def is_blank_def by (elim conjE disjE insertE emptyE) (simp_all add: opening_tags_def)
  moreover have "sublist (tag_seen s @ [c]) (tag_seen s @ c # t)"
    by (intro prefix_imp_sublist prefixI [where zs = t]) simp
  ultimately show False using assms(2) by (auto simp: no_tag_def)
qed

lemma no_tag_suffix: "no_tag t \<Longrightarrow> suffix u t \<Longrightarrow> no_tag u"
  unfolding no_tag_def by (meson sublist_order.order_trans suffix_imp_sublist)

lemma template_loop_plain_text:
  assumes "tag_state s" "no_tag (tag_seen s @ t)"
  shows "\<exists>s' out. tag_state s' \<and> suffix (tag_seen s') (tag_seen s @ t) \<and>
    template_loop s lua (t @ rest) = template_loop s' (lua @ out) rest \<and>
    (\<forall>u. text_script (tag_seen s @ t @ u) = out @ text_script (tag_seen s' @ u))"
  using assms
proof (induction t arbitrary: s lua)
  case Nil
  then show ?case by (intro exI [of _ s] exI [of _ "[]"]) simp
next
  case (Cons c t)
  let ?s = "snd (text_char s c)" and ?o = "fst (text_char s c)"
  note op = no_tag_opens [OF Cons.prems]
  have suf: "suffix (tag_seen ?s @ t) (tag_seen s @ c # t)"
    using text_char_seen [OF Cons.prems(1) op] by (auto simp: suffix_def)
  obtain s' out where IH: "tag_state s'" "suffix (tag_seen s') (tag_seen ?s @ t)"
    "template_loop ?s (lua @ ?o) (t @ rest) = template_loop s' ((lua @ ?o) @ out) rest"
    "\<forall>u. text_script (tag_seen ?s @ t @ u) = out @ text_script (tag_seen s' @ u)"
    using Cons.IH [OF text_char_states [OF Cons.prems(1) op] no_tag_suffix [OF Cons.prems(2) suf], of "lua @ ?o"] by blast
  have "template_loop s lua ((c # t) @ rest) = template_loop s' (lua @ ?o @ out) rest"
    using template_loop_text_char [OF Cons.prems(1) op] IH(3) by simp
  moreover have "text_script (tag_seen s @ (c # t) @ u) = (?o @ out) @ text_script (tag_seen s' @ u)" for u
    using text_script_text_char [OF Cons.prems(1) op, of "t @ u"] IH(4) by simp
  ultimately show ?case
    using IH(1) suffix_order.trans [OF IH(2) suf] by blast
qed

text \<open>A tag begun in a text is text if another tag begins, and is lost at the end of the page.\<close>

lemma template_loop_begun:
  assumes "tag_state s"
  shows "template_loop s lua (CHR ''<'' # rest) = template_loop T_start (lua @ text_script (tag_seen s)) (CHR ''<'' # rest)"
  using assms by (cases rule: tag_state_cases) (simp_all add: template_unfold is_blank_def)

lemma template_loop_text:
  assumes "no_tag t" "rest = [] \<and> no_tag_begun t \<or> (\<exists>r. rest = CHR ''<'' # r)"
  shows "template_loop T_start lua (t @ rest) = template_loop T_start (lua @ text_script t) rest"
proof -
  obtain s out where s: "tag_state s" "suffix (tag_seen s) t"
    "template_loop T_start lua (t @ rest) = template_loop s (lua @ out) rest"
    "\<forall>u. text_script (t @ u) = out @ text_script (tag_seen s @ u)"
    using template_loop_plain_text [of T_start t lua rest] assms(1) by (auto simp: tag_state_def)
  from spec [OF s(4), of "[]"] have out: "text_script t = out @ text_script (tag_seen s)" by simp
  show ?thesis
  proof (cases "rest = []")
    case True
    with assms(2) have "no_tag_begun t" by simp
    then have "tag_seen s \<notin> set begun_tags" using s(2) unfolding no_tag_begun_def by blast
    with s(1) have "s = T_start" by (cases rule: tag_state_cases) (simp_all add: begun_tags_def)
    with s(3) out show ?thesis by simp
  next
    case False
    with assms(2) obtain r where r: "rest = CHR ''<'' # r" by blast
    show ?thesis using s(3) template_loop_begun [OF s(1), of "lua @ out" r] out unfolding r by simp
  qed
qed

text \<open>A text that the translation only escapes.\<close>

definition tagless :: "string \<Rightarrow> bool" where
  "tagless t \<longleftrightarrow> no_tag t \<and> no_tag_begun t \<and> \<not> sublist ''<?lua='' t"

lemma text_script_escape: "\<not> sublist ''<?lua='' t \<Longrightarrow> text_script t = escape_text t"
  by (induction t) (auto simp: sublist_Cons_right)

text \<open>The states of the code machine, for chunks and expressions and for each tag form.\<close>

fun mode_state :: "bool \<Rightarrow> tagform \<Rightarrow> code_mode \<Rightarrow> tstate" where
  "mode_state False Question Plain = T_chunk"
| "mode_state False Question SQ = T_chunk_single_quote"
| "mode_state False Question SQ_esc = T_chunk_single_quote_escape"
| "mode_state False Question DQ = T_chunk_double_quote"
| "mode_state False Question DQ_esc = T_chunk_double_quote_escape"
| "mode_state False Percent Plain = T_chunk_2"
| "mode_state False Percent SQ = T_chunk_single_quote_2"
| "mode_state False Percent SQ_esc = T_chunk_single_quote_escape_2"
| "mode_state False Percent DQ = T_chunk_double_quote_2"
| "mode_state False Percent DQ_esc = T_chunk_double_quote_escape_2"
| "mode_state True Question Plain = T_expression"
| "mode_state True Question SQ = T_expression_single_quote"
| "mode_state True Question SQ_esc = T_expression_single_quote_escape"
| "mode_state True Question DQ = T_expression_double_quote"
| "mode_state True Question DQ_esc = T_expression_double_quote_escape"
| "mode_state True Percent Plain = T_expression_2"
| "mode_state True Percent SQ = T_expression_single_quote_2"
| "mode_state True Percent SQ_esc = T_expression_single_quote_escape_2"
| "mode_state True Percent DQ = T_expression_double_quote_2"
| "mode_state True Percent DQ_esc = T_expression_double_quote_escape_2"

fun ws_state :: "bool \<Rightarrow> tagform \<Rightarrow> tstate" where
  "ws_state False Question = T_chunk_whitespace"
| "ws_state False Percent = T_chunk_whitespace_2"
| "ws_state True Question = T_expression_whitespace"
| "ws_state True Percent = T_expression_whitespace_2"

definition in_mode :: "bool \<Rightarrow> tagform \<Rightarrow> code_mode \<Rightarrow> tstate \<Rightarrow> bool" where
  "in_mode e f m s \<longleftrightarrow> s = mode_state e f m \<or> m = Plain \<and> s = ws_state e f"

text \<open>One character of code: copied, possibly after being looked at twice.\<close>

lemma template_loop_code_char:
  assumes "in_mode e f m s" "m = Plain \<Longrightarrow> c \<noteq> close_char f"
  shows "\<exists>s'. in_mode e f (next_mode m c) s' \<and>
    template_loop s lua (c # cs) = template_loop s' (lua @ [c]) cs"
proof (cases "s = mode_state e f m")
  case True
  then show ?thesis
    by (cases m; cases f; cases e) (auto simp: in_mode_def template_unfold)
next
  case False
  with assms have s: "m = Plain" "s = ws_state e f" "c \<noteq> close_char f"
    by (auto simp: in_mode_def)
  then show ?thesis
    by (cases f; cases e) (auto simp: in_mode_def template_unfold is_blank_def)
qed

lemma template_loop_code:
  assumes "in_mode e f m s" "code_scan (close_char f) m code = Some m'"
  shows "\<exists>s'. in_mode e f m' s' \<and>
    template_loop s lua (code @ rest) = template_loop s' (lua @ code) rest"
  using assms
proof (induction code arbitrary: m s lua)
  case (Cons c code)
  then have c: "m = Plain \<Longrightarrow> c \<noteq> close_char f"
    and scan: "code_scan (close_char f) (next_mode m c) code = Some m'"
    by (auto split: if_splits)
  obtain s1 where s1: "in_mode e f (next_mode m c) s1"
    "template_loop s lua (c # code @ rest) = template_loop s1 (lua @ [c]) (code @ rest)"
    using template_loop_code_char [OF Cons.prems(1) c] by blast
  with Cons.IH [OF s1(1) scan, of "lua @ [c]"] show ?case by auto
qed auto

lemma template_loop_close:
  assumes "in_mode e f Plain s"
  shows "template_loop s lua ('' '' @ [close_char f] @ ''>'' @ rest) =
    template_loop T_start (lua @ (if e then '')'' else []) @ '' put([['') rest"
  using assms
  by (cases e; cases f)
    (auto simp: in_mode_def template_unfold is_blank_def insert_before_last_def template_loop_start)

lemma template_loop_open:
  "template_loop T_start lua (open_tag f @ '' '' @ rest)
    = template_loop (mode_state False f Plain) (lua @ '']]) '') rest"
  "template_loop T_start lua (open_tag f @ ''= '' @ rest)
    = template_loop (mode_state True f Plain) (lua @ '']]) put('') rest"
  by (cases f; simp add: template_unfold is_blank_def)+

lemma template_loop_tag:
  assumes "code_ok f code"
  shows "template_loop (mode_state e f Plain) lua (code @ '' '' @ [close_char f] @ ''>'' @ rest)
    = template_loop T_start (lua @ code @ (if e then '')'' else []) @ '' put([['') rest"
proof -
  have "in_mode e f Plain (mode_state e f Plain)" by (simp add: in_mode_def)
  then obtain s' where s': "in_mode e f Plain s'"
    "template_loop (mode_state e f Plain) lua (code @ '' '' @ [close_char f] @ ''>'' @ rest)
     = template_loop s' (lua @ code) ('' '' @ [close_char f] @ ''>'' @ rest)"
    using template_loop_code assms unfolding code_ok_def by meson
  then show ?thesis by (simp only: template_loop_close) simp
qed

lemma open_tag_lt: "\<exists>r. open_tag f = CHR ''<'' # r"
  by (cases f) simp_all

lemma template_loop_segment:
  assumes "page_ok (g # gs)" "rest = concat (map render_segment gs)"
  shows "template_loop T_start lua (render_segment g @ rest) = template_loop T_start (lua @ segment_script g) rest"
proof (cases g)
  case (Text t)
  have "rest = [] \<and> no_tag_begun t \<or> (\<exists>r. rest = CHR ''<'' # r)"
  proof (cases gs)
    case Nil
    with assms Text show ?thesis by simp
  next
    case (Cons g' gs')
    with assms Text have "\<not> is_text g'" by simp
    then have "\<exists>r. render_segment g' = CHR ''<'' # r" using open_tag_lt by (cases g') (simp_all, (metis append_Cons)+)
    with assms(2) Cons show ?thesis by auto
  qed
  with assms(1) Text show ?thesis by (simp add: template_loop_text)
next
  case (Chunk f code)
  with assms template_loop_tag [of f code False] template_loop_open(1) [of lua f]
  show ?thesis by simp
next
  case (Expr f code)
  with assms template_loop_tag [of f code True] template_loop_open(2) [of lua f]
  show ?thesis by simp
qed

text \<open>Why a text at the end of the page must not end in the beginning of a tag: what was seen of it is lost.\<close>

lemma begun_tag_lost: "lua_script ''a<?lua'' = ''put([[a]])''"
  by code_simp

lemma page_ok_tl: "page_ok (g # gs) \<Longrightarrow> page_ok gs"
  by (cases g) simp_all



end
