(* ===== verification/Request_Roundtrip.thy ===== *)
theory Request_Roundtrip
  imports Request Response
begin

text \<open>
  What \<open>Request::Parse\<close> recovers from a well-formed request. \<open>render_request\<close> writes a
  request the way a client does; the main theorem says that parsing it yields exactly the
  method, URI, decoded path, version, headers and body that were written. The second part
  is the round trip of percent encoding through \<open>decode_uri\<close>.
\<close>

subsection \<open>Writing a request\<close>

definition render_request ::
    "string \<Rightarrow> string \<Rightarrow> string \<Rightarrow> string \<Rightarrow> headers \<Rightarrow> string \<Rightarrow> string" where
  "render_request m u major minor hs b =
     m @ '' '' @ u @ '' HTTP/'' @ major @ ''.'' @ minor @ CRLF @ header_lines hs @ CRLF @ b"

definition no_ctl :: "string \<Rightarrow> bool" where
  "no_ctl s \<longleftrightarrow> (\<forall>c \<in> set s. \<not> is_ctl (schar c))"

definition digits :: "string \<Rightarrow> bool" where
  "digits s \<longleftrightarrow> s \<noteq> [] \<and> (\<forall>c \<in> set s. is_digit (schar c))"

definition req_header_ok :: "string \<times> string \<Rightarrow> bool" where
  "req_header_ok h \<longleftrightarrow> fst h \<noteq> [] \<and> token (fst h) \<and> no_ctl (snd h)"

text \<open>The path that belongs to a URI.\<close>

definition uri_path :: "string \<Rightarrow> string" where
  "uri_path u =
     (case decode_uri [] u of None \<Rightarrow> []
      | Some p \<Rightarrow> if sublist ''..'' p then []
          else if last p = CHR ''/'' then p @ ''index.html'' else p)"

subsection \<open>Running the machine over a segment\<close>

fun run :: "string \<Rightarrow> request \<Rightarrow> request option" where
  "run [] r = Some r"
| "run (c # cs) r =
     (case Consume c r of Some (indeterminate, r') \<Rightarrow> run cs r' | _ \<Rightarrow> None)"

lemma run_append: "run (xs @ ys) r = Option.bind (run xs r) (run ys)"
  by (induction xs r rule: run.induct) (auto split: option.splits Result.splits)

lemma parse_loop_run:
  assumes "run xs r = Some r'"
  shows "parse_loop (xs @ ys) \<lparr>tl_result = indeterminate, tl_request = r\<rparr>
       = parse_loop ys \<lparr>tl_result = indeterminate, tl_request = r'\<rparr>"
  using assms by (induction xs r rule: run.induct) (auto split: option.splits Result.splits)

lemma run_method:
  assumes "rq_state r = S_method" "token m"
  shows "run m r = Some (r\<lparr>rq_raw := rq_raw r @ m, rq_method := rq_method r @ m\<rparr>)"
  using assms
proof (induction m arbitrary: r)
  case (Cons c m)
  then have "c \<noteq> CHR '' ''" "\<not> not_token c" by (auto simp: token_def)
  with Cons show ?case by (simp add: Consume_method Let_def token_def)
qed simp

lemma run_method_start:
  assumes "rq_state r = S_method_start" "m \<noteq> []" "token m"
  shows "run m r =
    Some (r\<lparr>rq_state := S_method, rq_raw := rq_raw r @ m, rq_method := rq_method r @ m\<rparr>)"
proof (cases m)
  case (Cons c cs)
  with assms have "\<not> not_token c" "token cs" by (auto simp: token_def)
  with assms Cons show ?thesis by (simp add: Consume_unfold run_method)
qed (use assms in simp)

lemma run_uri:
  assumes "rq_state r = S_uri" "CHR '' '' \<notin> set u" "no_ctl u"
  shows "run u r = Some (r\<lparr>rq_raw := rq_raw r @ u, rq_uri := rq_uri r @ u\<rparr>)"
  using assms
proof (induction u arbitrary: r)
  case (Cons c u)
  then show ?case by (auto simp: Consume_unfold no_ctl_def)
qed simp

lemma decode_uri_nonempty:
  "decode_uri acc u = Some q \<Longrightarrow> acc \<noteq> [] \<or> u \<noteq> [] \<Longrightarrow> q \<noteq> []"
  by (induction acc u rule: decode_uri.induct)
    (auto split: if_splits list.splits option.splits)

lemma run_uri_end:
  assumes "rq_state r = S_uri" "rq_path r = []" "rq_uri r \<noteq> []"
  shows "run '' '' r = Some (r\<lparr>rq_raw := rq_raw r @ '' '', rq_state := S_http_version_h,
    rq_path := uri_path (rq_uri r)\<rparr>)"
  using assms decode_uri_nonempty [of "[]" "rq_uri r"]
  by (auto simp: Consume_unfold finish_uri_def uri_path_def str_find_None_iff split: option.splits)

lemma run_http:
  assumes "rq_state r = S_http_version_h"
  shows "run ''HTTP/'' r = Some (r\<lparr>rq_raw := rq_raw r @ ''HTTP/'',
    rq_state := S_http_version_major_start, rq_version := rq_version r @ ''HTTP/''\<rparr>)"
  using assms by (simp add: Consume_unfold)

lemma run_digits:
  assumes "rq_state r \<in> {S_http_version_major, S_http_version_minor}"
    "\<forall>c \<in> set d. is_digit (schar c)"
  shows "run d r = Some (r\<lparr>rq_raw := rq_raw r @ d, rq_version := rq_version r @ d\<rparr>)"
  using assms
proof (induction d arbitrary: r)
  case (Cons c d)
  then have "c \<noteq> CHR ''.''" "c \<noteq> CR" by (auto simp: is_digit_def schar_def)
  moreover have "is_digit (schar c)" using Cons.prems by simp
  ultimately have "Consume c r =
      Some (indeterminate, r\<lparr>rq_raw := rq_raw r @ [c], rq_version := rq_version r @ [c]\<rparr>)"
    using Cons.prems(1) by (elim insertE; simp add: Consume_unfold)
  with Cons show ?case by simp
qed simp

lemma run_version:
  assumes "rq_state r = S_http_version_major_start" "digits major" "digits minor"
  shows "run (major @ ''.'' @ minor) r =
    Some (r\<lparr>rq_raw := rq_raw r @ major @ ''.'' @ minor, rq_state := S_http_version_minor,
            rq_version := rq_version r @ major @ ''.'' @ minor\<rparr>)"
proof -
  obtain a as b bs where eq: "major = a # as" "minor = b # bs"
    using assms by (auto simp: digits_def neq_Nil_conv)
  with assms have d: "is_digit (schar a)" "is_digit (schar b)"
    "\<forall>c \<in> set as. is_digit (schar c)" "\<forall>c \<in> set bs. is_digit (schar c)"
    by (auto simp: digits_def)
  let ?r1 = "r\<lparr>rq_raw := rq_raw r @ [a], rq_state := S_http_version_major,
    rq_version := rq_version r @ [a]\<rparr>"
  let ?r2 = "?r1\<lparr>rq_raw := rq_raw r @ a # as, rq_version := rq_version r @ a # as\<rparr>"
  let ?r3 = "?r2\<lparr>rq_raw := rq_raw r @ a # as @ ''.'' @ [b], rq_state := S_http_version_minor,
    rq_version := rq_version r @ a # as @ ''.'' @ [b]\<rparr>"
  have "run [a] r = Some ?r1" using assms(1) d by (simp add: Consume_unfold)
  moreover have "run as ?r1 = Some ?r2" using d run_digits [of ?r1 as] by simp
  moreover have "run [CHR ''.'', b] ?r2 = Some ?r3" using d by (simp add: Consume_unfold)
  moreover have "run bs ?r3 = Some (?r3\<lparr>rq_raw := rq_raw r @ major @ ''.'' @ minor,
      rq_version := rq_version r @ major @ ''.'' @ minor\<rparr>)"
    using d run_digits [of ?r3 bs] eq by simp
  ultimately have "run ([a] @ as @ [CHR ''.'', b] @ bs) r = Some (?r3\<lparr>rq_raw := rq_raw r @ major @ ''.'' @ minor,
      rq_version := rq_version r @ major @ ''.'' @ minor\<rparr>)"
    by (simp only: run_append bind.bind_lunit)
  then show ?thesis by (simp add: eq)
qed

lemma run_crlf_version:
  assumes "rq_state r = S_http_version_minor"
  shows "run CRLF r = Some (r\<lparr>rq_raw := rq_raw r @ CRLF, rq_state := S_header_line_start\<rparr>)"
  using assms by (simp add: Consume_unfold)

subsection \<open>Headers\<close>

lemma run_header_name:
  assumes "rq_state r = S_header_name" "rq_headers r = hs @ [(n, v)]" "token m"
  shows "run m r = Some (r\<lparr>rq_raw := rq_raw r @ m, rq_headers := hs @ [(n @ m, v)]\<rparr>)"
  using assms
proof (induction m arbitrary: r n)
  case Nil
  then show ?case by simp
next
  case (Cons c m)
  then have c: "\<not> not_token c" "c \<noteq> CHR '':''"
    by (auto simp: token_def not_token_def is_tspecial_def)
  have "Consume c r = Some (indeterminate, r\<lparr>rq_raw := rq_raw r @ [c], rq_headers := hs @ [(n @ [c], v)]\<rparr>)"
    using Cons.prems c by (simp add: Consume_unfold push_name_def)
  with Cons.IH [of "r\<lparr>rq_raw := rq_raw r @ [c], rq_headers := hs @ [(n @ [c], v)]\<rparr>" "n @ [c]"]
    Cons.prems show ?case by (simp add: token_def)
qed

lemma run_header_value:
  assumes "rq_state r = S_header_value" "rq_headers r = hs @ [(n, v)]" "no_ctl m"
  shows "run m r = Some (r\<lparr>rq_raw := rq_raw r @ m, rq_headers := hs @ [(n, v @ m)]\<rparr>)"
  using assms
proof (induction m arbitrary: r v)
  case Nil
  then show ?case by simp
next
  case (Cons c m)
  then have c: "\<not> is_ctl (schar c)" "c \<noteq> CR"
    by (auto simp: no_ctl_def is_ctl_def schar_def)
  have "Consume c r = Some (indeterminate, r\<lparr>rq_raw := rq_raw r @ [c], rq_headers := hs @ [(n, v @ [c])]\<rparr>)"
    using Cons.prems c by (simp add: Consume_unfold push_value_def)
  with Cons.IH [of "r\<lparr>rq_raw := rq_raw r @ [c], rq_headers := hs @ [(n, v @ [c])]\<rparr>" "v @ [c]"]
    Cons.prems show ?case by (simp add: no_ctl_def)
qed

lemma run_header:
  assumes "rq_state r = S_header_line_start" "req_header_ok (n, v)"
  shows "run (n @ '': '' @ v @ CRLF) r =
    Some (r\<lparr>rq_raw := rq_raw r @ n @ '': '' @ v @ CRLF, rq_headers := rq_headers r @ [(n, v)]\<rparr>)"
proof -
  obtain c m where n: "n = c # m" using assms by (cases n) (auto simp: req_header_ok_def)
  with assms have tok: "\<not> not_token c" "token m" and v: "no_ctl v"
    by (auto simp: req_header_ok_def token_def)
  then have "c \<noteq> CR" "c \<noteq> CHR '' ''" "c \<noteq> TAB"
    by (auto simp: not_token_def is_ctl_def is_tspecial_def schar_def)
  with tok assms(1) have 1: "Consume c r = Some (indeterminate,
      r\<lparr>rq_raw := rq_raw r @ [c], rq_headers := rq_headers r @ [([c], [])], rq_state := S_header_name\<rparr>)"
    by (simp add: Consume_unfold)
  let ?r1 = "r\<lparr>rq_raw := rq_raw r @ n, rq_headers := rq_headers r @ [(n, [])], rq_state := S_header_name\<rparr>"
  let ?r2 = "?r1\<lparr>rq_raw := rq_raw r @ n @ '': '', rq_state := S_header_value\<rparr>"
  let ?r3 = "?r2\<lparr>rq_raw := rq_raw r @ n @ '': '' @ v, rq_headers := rq_headers r @ [(n, v)]\<rparr>"
  have "run n r = Some ?r1"
    using 1 n tok run_header_name [where n = "[c]" and v = "[]" and hs = "rq_headers r"] by simp
  moreover have "run '': '' ?r1 = Some ?r2"
    by (simp add: Consume_unfold)
  moreover have "run v ?r2 = Some ?r3"
    using v run_header_value [of ?r2 "rq_headers r" n "[]" v] by simp
  moreover have "run CRLF ?r3 = Some (?r3\<lparr>rq_raw := rq_raw r @ n @ '': '' @ v @ CRLF,
      rq_state := S_header_line_start\<rparr>)"
    by (simp add: Consume_unfold)
  ultimately have "run (n @ '': '' @ v @ CRLF) r = Some (?r3\<lparr>rq_raw := rq_raw r @ n @ '': '' @ v @ CRLF,
      rq_state := S_header_line_start\<rparr>)"
    by (simp only: run_append bind.bind_lunit)
  then show ?thesis using assms(1) by simp
qed

lemma run_headers:
  assumes "rq_state r = S_header_line_start" "\<forall>h \<in> set hs. req_header_ok h"
  shows "run (header_lines hs) r =
    Some (r\<lparr>rq_raw := rq_raw r @ header_lines hs, rq_headers := rq_headers r @ hs\<rparr>)"
  using assms
proof (induction hs arbitrary: r)
  case (Cons h hs)
  obtain n v where h: "h = (n, v)" by (cases h)
  have "run (header_lines (h # hs)) r = run ((n @ '': '' @ v @ CRLF) @ header_lines hs) r"
    using h by simp
  also have "\<dots> = run (header_lines hs)
      (r\<lparr>rq_raw := rq_raw r @ n @ '': '' @ v @ CRLF, rq_headers := rq_headers r @ [(n, v)]\<rparr>)"
    using Cons.prems h run_header [of r n v] by (simp only: run_append) simp
  finally show ?case using Cons.IH Cons.prems h by simp
qed simp

subsection \<open>The body and the whole request\<close>

lemma parse_loop_body:
  assumes "rq_state r = S_body" "b \<noteq> []" "length b = unat (rq_remaining r)"
  shows "parse_loop (b @ extra) \<lparr>tl_result = x, tl_request = r\<rparr> =
    (let r' = r\<lparr>rq_raw := rq_raw r @ b, rq_body := rq_body r @ b, rq_remaining := 0\<rparr>
     in Some (Some r', \<lparr>tl_result = good, tl_request = Reset r'\<rparr>))"
  using assms
proof (induction b arbitrary: r x)
  case (Cons c b)
  let ?r = "r\<lparr>rq_raw := rq_raw r @ [c], rq_body := rq_body r @ [c], rq_remaining := rq_remaining r - 1\<rparr>"
  have "rq_remaining r \<noteq> 0" using Cons.prems(3) by (metis unat_0 length_Cons nat.distinct(1))
  then have len: "length b = unat (rq_remaining r - 1)"
    using Cons.prems(3) by (simp add: unat_minus_one)
  show ?case
  proof (cases "b = []")
    case True
    with len have "rq_remaining r - 1 = 0" by (simp add: unat_eq_0)
    with Cons.prems True show ?thesis by (simp add: Consume_unfold)
  next
    case False
    with len have "unat (rq_remaining r - 1) > 0" by (metis length_greater_0_conv)
    then have "rq_remaining r - 1 > 0" using unat_gt_0 word_gt_0 by metis
    then have "Consume c r = Some (indeterminate, ?r)"
      using Cons.prems(1) by (simp add: Consume_unfold)
    with Cons.IH [of ?r] Cons.prems(1) False len show ?thesis by simp
  qed
qed simp

lemma render_request_run:
  assumes "m \<noteq> []" "token m" "u \<noteq> []" "CHR '' '' \<notin> set u" "no_ctl u" "digits major" "digits minor"
    "\<forall>h \<in> set hs. req_header_ok h"
  shows "run (m @ '' '' @ u @ '' '' @ ''HTTP/'' @ (major @ ''.'' @ minor) @ CRLF @ header_lines hs @ [CR])
      (new_request 0) =
    Some (\<lparr>rq_state = S_expecting_newline_3, rq_remaining = 0,
      rq_raw = m @ '' '' @ u @ '' HTTP/'' @ major @ ''.'' @ minor @ CRLF @ header_lines hs @ [CR],
      rq_method = m, rq_uri = u, rq_path = uri_path u,
      rq_version = ''HTTP/'' @ major @ ''.'' @ minor, rq_headers = hs, rq_body = []\<rparr>)"
proof -
  let ?r1 = "(new_request 0)\<lparr>rq_state := S_method, rq_raw := m, rq_method := m\<rparr>"
  let ?r2 = "?r1\<lparr>rq_raw := m @ '' '', rq_state := S_uri\<rparr>"
  let ?r3 = "?r2\<lparr>rq_raw := m @ '' '' @ u, rq_uri := u\<rparr>"
  let ?r4 = "?r3\<lparr>rq_raw := m @ '' '' @ u @ '' '', rq_state := S_http_version_h, rq_path := uri_path u\<rparr>"
  let ?r5 = "?r4\<lparr>rq_raw := m @ '' '' @ u @ '' '' @ ''HTTP/'',
    rq_state := S_http_version_major_start, rq_version := ''HTTP/''\<rparr>"
  let ?r6 = "?r5\<lparr>rq_raw := m @ '' '' @ u @ '' '' @ ''HTTP/'' @ major @ ''.'' @ minor,
    rq_state := S_http_version_minor, rq_version := ''HTTP/'' @ major @ ''.'' @ minor\<rparr>"
  let ?r7 = "?r6\<lparr>rq_raw := m @ '' '' @ u @ '' '' @ ''HTTP/'' @ major @ ''.'' @ minor @ CRLF,
    rq_state := S_header_line_start\<rparr>"
  let ?r8 = "?r7\<lparr>rq_raw := m @ '' '' @ u @ '' '' @ ''HTTP/'' @ major @ ''.'' @ minor @ CRLF @ header_lines hs,
    rq_headers := hs\<rparr>"
  have "run m (new_request 0) = Some ?r1"
    using assms run_method_start [of "new_request 0" m] by (simp add: new_request_def)
  moreover have "run '' '' ?r1 = Some ?r2" by (simp add: Consume_method Let_def)
  moreover have "run u ?r2 = Some ?r3"
    using assms run_uri [of ?r2 u] by (simp add: new_request_def)
  moreover have "run '' '' ?r3 = Some ?r4"
    using assms run_uri_end [of ?r3] by (simp add: new_request_def)
  moreover have "run ''HTTP/'' ?r4 = Some ?r5"
    using run_http [of ?r4] by (simp add: new_request_def)
  moreover have "run (major @ ''.'' @ minor) ?r5 = Some ?r6"
    using assms run_version [of ?r5 major minor] by simp
  moreover have "run CRLF ?r6 = Some ?r7"
    using run_crlf_version [of ?r6] by simp
  moreover have "run (header_lines hs) ?r7 = Some ?r8"
    using assms run_headers [of ?r7 hs] by (simp add: new_request_def)
  moreover have "run [CR] ?r8 = Some (?r8\<lparr>rq_raw := rq_raw ?r8 @ [CR], rq_state := S_expecting_newline_3\<rparr>)"
    by (simp add: Consume_unfold)
  ultimately show ?thesis
    by (simp only: run_append bind.bind_lunit) (simp add: new_request_def)
qed

lemma Parse_render_lemma:
  assumes "m \<noteq> []" "token m" "u \<noteq> []" "CHR '' '' \<notin> set u" "no_ctl u"
    "digits major" "digits minor" "\<forall>h \<in> set hs. req_header_ok h"
    and len: "case stoull (header_lookup hs ''Content-Length'') of
      Inl _ \<Rightarrow> b = [] | Inr n \<Rightarrow> length b = unat n"
  shows "\<exists>r t. Parse (render_request m u major minor hs b @ extra) init_tls = Some (Some r, t) \<and>
    GetParseResult t = good \<and> tl_request t = Reset r \<and>
    rq_method r = m \<and> rq_uri r = u \<and> rq_path r = uri_path u \<and>
    rq_version r = ''HTTP/'' @ major @ ''.'' @ minor \<and> rq_headers r = hs \<and> rq_body r = b \<and>
    rq_raw r = render_request m u major minor hs b"
proof -
  let ?pre = "m @ '' '' @ u @ '' '' @ ''HTTP/'' @ (major @ ''.'' @ minor) @ CRLF @ header_lines hs @ [CR]"
  let ?r = "\<lparr>rq_state = S_expecting_newline_3, rq_remaining = 0,
      rq_raw = m @ '' '' @ u @ '' HTTP/'' @ major @ ''.'' @ minor @ CRLF @ header_lines hs @ [CR],
      rq_method = m, rq_uri = u, rq_path = uri_path u,
      rq_version = ''HTTP/'' @ major @ ''.'' @ minor, rq_headers = hs, rq_body = []\<rparr>"
  let ?t = "\<lparr>tl_result = indeterminate, tl_request = ?r\<rparr>"
  have "Parse (?pre @ LF # b @ extra) init_tls = parse_loop (LF # b @ extra) ?t"
    using parse_loop_run [OF render_request_run [OF assms(1-8)], of "LF # b @ extra"]
    by (simp add: Parse_def init_tls_def)
  moreover have "?pre @ LF # b @ extra = render_request m u major minor hs b @ extra"
    by (simp add: render_request_def)
  ultimately have P: "Parse (render_request m u major minor hs b @ extra) init_tls
      = parse_loop (LF # b @ extra) ?t" by (simp only:)
  show ?thesis
  proof (cases "\<exists>n. stoull (header_lookup hs ''Content-Length'') = Inr n \<and> n > 0")
    case True
    then obtain n where n: "stoull (header_lookup hs ''Content-Length'') = Inr n" "n > 0" by blast
    with len have b: "length b = unat n" "b \<noteq> []" by (auto simp: unat_eq_0 word_gt_0)
    let ?rb = "?r\<lparr>rq_raw := rq_raw ?r @ [LF], rq_remaining := n, rq_state := S_body\<rparr>"
    have "Consume LF ?r = Some (indeterminate, ?rb)"
      using n by (simp add: Consume_unfold GetHeaderValue_def)
    then have "parse_loop (LF # b @ extra) ?t
        = parse_loop (b @ extra) \<lparr>tl_result = indeterminate, tl_request = ?rb\<rparr>" by simp
    also have "\<dots> = (let q = ?rb\<lparr>rq_raw := rq_raw ?rb @ b, rq_body := rq_body ?rb @ b, rq_remaining := 0\<rparr>
        in Some (Some q, \<lparr>tl_result = good, tl_request = Reset q\<rparr>))"
      using b by (intro parse_loop_body) simp_all
    finally show ?thesis unfolding P Let_def
      by (intro exI conjI) (assumption, simp_all add: GetParseResult_def render_request_def)
  next
    case False
    with len have b: "b = []"
      by (cases "stoull (header_lookup hs ''Content-Length'')") (auto simp: word_gt_0)
    obtain k where "Consume LF ?r = Some (good, ?r\<lparr>rq_raw := rq_raw ?r @ [LF], rq_remaining := k\<rparr>)"
      using False by (cases "stoull (header_lookup hs ''Content-Length'')")
        (auto simp: Consume_unfold GetHeaderValue_def intro: exI [where x = 0])
    then have "parse_loop (LF # b @ extra) ?t =
        (let q = ?r\<lparr>rq_raw := rq_raw ?r @ [LF], rq_remaining := k\<rparr>
         in Some (Some q, \<lparr>tl_result = good, tl_request = Reset q\<rparr>))" by (simp add: Let_def)
    then show ?thesis unfolding P Let_def
      by (intro exI conjI) (assumption, simp_all add: GetParseResult_def render_request_def b)
  qed
qed

text \<open>
  C1: a well-formed request, followed by any further bytes, is parsed on a fresh connection
  into exactly the method, URI, decoded path, version, headers and body that it was written
  from; the raw text kept is the request without the further bytes, and the thread-local
  request is reset. The length of the body is the one its \<open>Content-Length\<close> header announces,
  and zero where there is none that can be read.
\<close>

theorem Parse_render_request:
  assumes "m \<noteq> []" "token m" "u \<noteq> []" "CHR '' '' \<notin> set u" "no_ctl u"
    "digits major" "digits minor" "\<forall>h \<in> set hs. req_header_ok h"
    and "case stoull (header_lookup hs ''Content-Length'') of
      Inl _ \<Rightarrow> b = [] | Inr n \<Rightarrow> length b = unat n"
  shows "\<exists>r t. Parse (render_request m u major minor hs b @ extra) init_tls = Some (Some r, t) \<and>
    GetParseResult t = good \<and> tl_request t = Reset r \<and>
    rq_method r = m \<and> rq_uri r = u \<and> rq_path r = uri_path u \<and>
    rq_version r = ''HTTP/'' @ major @ ''.'' @ minor \<and> rq_headers r = hs \<and> rq_body r = b \<and>
    rq_raw r = render_request m u major minor hs b"
  using assms by (rule Parse_render_lemma)

theorem Parse_render_request_witness:
  "\<exists>r t. Parse (render_request ''POST'' ''/a%20b'' ''1'' ''0'' [(''Content-Length'', ''2'')] ''hi'' @ ''x'')
      init_tls = Some (Some r, t) \<and>
    GetParseResult t = good \<and> tl_request t = Reset r \<and>
    rq_method r = ''POST'' \<and> rq_uri r = ''/a%20b'' \<and> rq_path r = ''/a b'' \<and>
    rq_version r = ''HTTP/1.0'' \<and> rq_headers r = [(''Content-Length'', ''2'')] \<and> rq_body r = ''hi'' \<and>
    rq_raw r = render_request ''POST'' ''/a%20b'' ''1'' ''0'' [(''Content-Length'', ''2'')] ''hi''"
proof -
  have "uri_path ''/a%20b'' = ''/a b''"
    by (simp add: uri_path_def istream_hex_def hex_val_def Let_def isspace_c_def cast_char_def
        sublist_Cons_right char_of_def)
  moreover have "case stoull (header_lookup [(''Content-Length'', ''2'')] ''Content-Length'') of
      Inl _ \<Rightarrow> ''hi'' = [] | Inr n \<Rightarrow> length ''hi'' = unat n"
    by (simp add: stoull_def strto_sign_def Let_def isspace_c_def isdigit_c_def digit_val_def)
  ultimately show ?thesis
    using Parse_render_request [of "''POST''" "''/a%20b''" "''1''" "''0''"
        "[(''Content-Length'', ''2'')]" "''hi''" "''x''"]
    by (simp add: token_def not_token_def is_char_def is_ctl_def is_tspecial_def schar_def no_ctl_def
        digits_def is_digit_def req_header_ok_def)
qed

subsection \<open>Percent encoding\<close>

definition hex_char :: "nat \<Rightarrow> char" where
  "hex_char n = ''0123456789ABCDEF'' ! n"

text \<open>A client's encoder that writes the characters of \<open>keep\<close> as they are and all others as escapes.\<close>

fun pct_encode :: "(char \<Rightarrow> bool) \<Rightarrow> string \<Rightarrow> string" where
  "pct_encode keep [] = []"
| "pct_encode keep (c # cs) =
     (if keep c then [c] else [CHR ''%'', hex_char (of_char c div 16), hex_char (of_char c mod 16)])
     @ pct_encode keep cs"

lemma hex_char_props:
  assumes "n < 16"
  shows "hex_val (hex_char n) = Some n" "\<not> isspace_c (hex_char n)"
    "hex_char n \<notin> {CHR ''-'', CHR ''+'', CHR ''x'', CHR ''X''}"
proof -
  have "n \<in> {0, 1, 2, 3, 4, 5, 6, 7, 8, 9, 10, 11, 12, 13, 14, 15}"
    using assms by (simp add: less_Suc_eq numeral_eq_Suc)
  then show "hex_val (hex_char n) = Some n" "\<not> isspace_c (hex_char n)"
    "hex_char n \<notin> {CHR ''-'', CHR ''+'', CHR ''x'', CHR ''X''}"
    by (elim insertE; simp add: hex_char_def hex_val_def isspace_c_def)+
qed

lemma istream_hex_pair:
  assumes "a < 16" "b < 16"
  shows "istream_hex [hex_char a, hex_char b] = Some (int (16 * a + b))"
  using hex_char_props [OF assms(1)] hex_char_props [OF assms(2)]
  by (auto simp: istream_hex_def Let_def)

lemma cast_char_of_char: "cast_char (int (of_char c)) = c"
proof -
  have "int (of_char c) = of_char c" by (metis of_char_of of_nat_of_char)
  then show ?thesis by (simp add: cast_char_def)
qed

lemma decode_pct_encode_lemma:
  assumes "\<not> keep (CHR ''%'')" "\<not> keep (CHR ''+'')"
  shows "decode_uri acc (pct_encode keep s) = Some (acc @ s)"
proof (induction s arbitrary: acc)
  case (Cons c s)
  have "istream_hex [hex_char (of_char c div 16), hex_char (of_char c mod 16)]
      = Some (int (of_char c))"
    by (subst istream_hex_pair) (simp_all add: less_mult_imp_div_less)
  then have "decode_uri acc (CHR ''%'' # hex_char (of_char c div 16) # hex_char (of_char c mod 16)
      # pct_encode keep s) = Some (acc @ c # s)"
    using Cons.IH by (simp add: cast_char_of_char)
  with Cons.IH assms show ?case by auto
qed simp

text \<open>
  The path decoder undoes percent encoding: for every string and every choice of the
  characters sent unescaped, other than the percent and plus signs, the decoded path is the
  original string, byte for byte.
\<close>

theorem decode_pct_encode:
  assumes "\<not> keep (CHR ''%'')" "\<not> keep (CHR ''+'')"
  shows "decode_uri acc (pct_encode keep s) = Some (acc @ s)"
  using assms by (rule decode_pct_encode_lemma)

theorem decode_pct_encode_witness:
  "decode_uri [] (pct_encode (\<lambda>c. c \<notin> set ''%+ '') ''/100% a+b'') = Some ''/100% a+b''"
  using decode_pct_encode [of "\<lambda>c. c \<notin> set ''%+ ''" "[]" "''/100% a+b''"] by simp

end
