(* ===== verification/Static_File.thy ===== *)
theory Static_File
  imports Handlers Lua_Template Request_Roundtrip
begin

text \<open>
  \<open>static_file_handler.cc\<close>: the content types, the functions registered with the Lua virtual
  machine, and the handler. Three things are parameters. The file system \<open>fs\<close> gives for a path
  the bytes of the file and whether reading it failed half-way, or \<open>None\<close> when it cannot be
  opened. The virtual machine \<open>vm\<close> gives for a script and a request the calls of \<open>put\<close>,
  \<open>addheader\<close> and \<open>setstatus\<close> that the run makes, in order, and whether it ended without an
  error; the effect of the calls is modelled here. \<open>md\<close> is the Markdown converter. The
  argument conversions of the Lua API (\<open>luaL_checkstring\<close>, \<open>luaL_checkint\<close>) are
  parameters of the functions that use them.
\<close>

subsection \<open>Content types\<close>

definition mappings :: "(string \<times> string) list" where
  "mappings =
     [(''gif'', ''image/gif''), (''htm'', ''text/html''), (''html'', ''text/html''),
      (''jpg'', ''image/jpeg''), (''png'', ''image/png''), (''md'', ''text/html'')]"

definition extension_to_type :: "string \<Rightarrow> string" where
  "extension_to_type extension =
     (case map_of mappings extension of Some t \<Rightarrow> t | None \<Rightarrow> ''text/plain'')"

subsection \<open>Lua functions that read the request\<close>

text \<open>\<open>lua_pushstring\<close> is called with \<open>c_str()\<close>: a value ends at its first NUL.\<close>

definition lua_rawrequest :: "request \<Rightarrow> string" where
  "lua_rawrequest req = c_str (rq_raw req)"

definition lua_method :: "request \<Rightarrow> string" where
  "lua_method req = c_str (rq_method req)"

definition lua_uri :: "request \<Rightarrow> string" where
  "lua_uri req = c_str (rq_uri req)"

definition lua_path :: "request \<Rightarrow> string" where
  "lua_path req = c_str (rq_path req)"

definition lua_version :: "request \<Rightarrow> string" where
  "lua_version req = c_str (rq_version req)"

definition lua_body :: "request \<Rightarrow> string" where
  "lua_body req = c_str (rq_body req)"

text \<open>A Lua table with string keys and values; \<open>lua_rawset\<close> overwrites.\<close>

type_synonym lua_table = "string \<rightharpoonup> string"

definition rawset :: "string \<Rightarrow> string \<Rightarrow> lua_table \<Rightarrow> lua_table" where
  "rawset k v t = t(c_str k \<mapsto> c_str v)"

fun lua_headers_loop :: "(string \<times> string) list \<Rightarrow> lua_table \<Rightarrow> lua_table" where
  "lua_headers_loop [] t = t"
| "lua_headers_loop ((n, v) # hs) t = lua_headers_loop hs (rawset n v t)"

definition lua_headers :: "request \<Rightarrow> lua_table" where
  "lua_headers req = lua_headers_loop (rq_headers req) Map.empty"

text \<open>The same decoding loop as in the request parser, with the empty string for a bad escape.\<close>

definition hex2ascii :: "string \<Rightarrow> string" where
  "hex2ascii s = (case decode_uri [] s of None \<Rightarrow> [] | Some out \<Rightarrow> out)"

fun form_loop :: "bool \<Rightarrow> string \<Rightarrow> string \<Rightarrow> lua_table \<Rightarrow> string \<Rightarrow> lua_table" where
  "form_loop readingkey key val t [] = rawset (hex2ascii key) (hex2ascii val) t"
| "form_loop readingkey key val t (c # cs) =
     (if readingkey then
        (if c = CHR ''='' then form_loop False key val t cs
         else form_loop True (key @ [c]) val t cs)
      else
        (if c = CHR ''&'' then form_loop True [] [] (rawset (hex2ascii key) (hex2ascii val) t) cs
         else form_loop False key (val @ [c]) t cs))"

definition form2table :: "string \<Rightarrow> lua_table" where
  "form2table data = form_loop True [] [] Map.empty data"

definition lua_get :: "request \<Rightarrow> lua_table" where
  "lua_get req =
     (case find_last_of (rq_uri req) (CHR ''?'') of
        Some i \<Rightarrow> form2table (drop (i + 1) (rq_uri req))
      | None \<Rightarrow> Map.empty)"

definition lua_post :: "request \<Rightarrow> lua_table" where
  "lua_post req = form2table (rq_body req)"

subsection \<open>Lua functions that write the response\<close>

datatype lua_error = Bad_argument nat

definition check_arg :: "('v \<Rightarrow> 'a option) \<Rightarrow> 'v list \<Rightarrow> nat \<Rightarrow> lua_error + 'a" where
  "check_arg conv args i =
     (if 1 \<le> i \<and> i \<le> length args
      then (case conv (args ! (i - 1)) of Some x \<Rightarrow> Inr x | None \<Rightarrow> Inl (Bad_argument i))
      else Inl (Bad_argument i))"

definition lua_addheader ::
    "('v \<Rightarrow> string option) \<Rightarrow> 'v list \<Rightarrow> response \<Rightarrow> lua_error + response" where
  "lua_addheader checkstring args res =
     (case check_arg checkstring args 1 of Inl e \<Rightarrow> Inl e
      | Inr name \<Rightarrow> (case check_arg checkstring args 2 of Inl e \<Rightarrow> Inl e
         | Inr val \<Rightarrow> Inr (AddHeader (c_str name) (c_str val) res)))"

definition lua_setstatus ::
    "('v \<Rightarrow> int option) \<Rightarrow> 'v list \<Rightarrow> response \<Rightarrow> lua_error + response" where
  "lua_setstatus checkint args res =
     (case check_arg checkint args 1 of Inl e \<Rightarrow> Inl e
      | Inr arg \<Rightarrow>
          if (arg \<ge> 200 \<and> arg \<le> 204) \<or> arg = 301 \<or> arg = 302 \<or> arg = 304 \<or>
             arg = 400 \<or> arg = 401 \<or> arg = 403 \<or> arg = 404 \<or> (arg \<ge> 500 \<and> arg \<le> 503)
          then Inr (SetStatus (code_cast arg) res) else Inl (Bad_argument 1))"

definition lua_put :: "('v \<Rightarrow> string option) \<Rightarrow> 'v list \<Rightarrow> string \<Rightarrow> lua_error + string" where
  "lua_put checkstring args body =
     (case check_arg checkstring args 1 of Inl e \<Rightarrow> Inl e | Inr s \<Rightarrow> Inr (body @ c_str s))"

text \<open>
  The calls of a run, with their arguments. A call that raises an error leaves the response and
  the body as they were; whether the script goes on is up to the virtual machine.
\<close>

datatype 'v lua_call = Call_put "'v list" | Call_addheader "'v list" | Call_setstatus "'v list"

record 'v lua_api =
  checkstring :: "'v \<Rightarrow> string option"
  checkint :: "'v \<Rightarrow> int option"

fun run_call :: "'v lua_api \<Rightarrow> 'v lua_call \<Rightarrow> response \<times> string \<Rightarrow> response \<times> string" where
  "run_call api (Call_put args) (res, body) =
     (case lua_put (checkstring api) args body of Inl _ \<Rightarrow> (res, body) | Inr b \<Rightarrow> (res, b))"
| "run_call api (Call_addheader args) (res, body) =
     (case lua_addheader (checkstring api) args res of Inl _ \<Rightarrow> (res, body) | Inr r \<Rightarrow> (r, body))"
| "run_call api (Call_setstatus args) (res, body) =
     (case lua_setstatus (checkint api) args res of Inl _ \<Rightarrow> (res, body) | Inr r \<Rightarrow> (r, body))"

type_synonym 'v lua_vm = "string \<Rightarrow> request \<Rightarrow> 'v lua_call list \<times> bool"

text \<open>The second half of \<open>do_lua\<close>: \<open>luaL_loadstring\<close> takes the script as a C string.\<close>

definition do_lua ::
    "'v lua_api \<Rightarrow> 'v lua_vm \<Rightarrow> string \<Rightarrow> request \<Rightarrow> response \<Rightarrow> bool \<times> response \<times> string" where
  "do_lua api vm file req res =
     (let (calls, success) = vm (c_str (lua_script file)) req;
          (res', body) = fold (run_call api) calls (res, [])
      in (success, res', body))"

subsection \<open>The handler\<close>

fun static_root :: "NginxConfig \<Rightarrow> string \<Rightarrow> string" where
  "static_root [] root = root"
| "static_root (s # ss) root =
     static_root ss
       (if length (tokens s) > 0 \<and> tokens s ! 0 = ''root'' \<and> length (tokens s) > 1
        then tokens s ! 1 else root)"

definition Static_Init ::
    "static_file_handler \<Rightarrow> string \<Rightarrow> NginxConfig \<Rightarrow> Status \<times> static_file_handler" where
  "Static_Init h uri_prefix config =
     (let h' = h\<lparr>sf_root := static_root config (sf_root h)\<rparr> in
      if sf_root h' \<noteq> [] then (OK, h'\<lparr>sf_path_prefix := uri_prefix\<rparr>) else (Error, h'))"

text \<open>The path below the root; \<open>substr\<close> throws when the prefix is longer than the path.\<close>

definition file_path :: "static_file_handler \<Rightarrow> request \<Rightarrow> string option" where
  "file_path h req =
     (case substr (rq_path req) (length (sf_path_prefix h)) None of None \<Rightarrow> None
      | Some p \<Rightarrow> Some (take_pos p (str_find p ''?'' 0)))"

definition file_extension :: "string \<Rightarrow> string" where
  "file_extension path =
     (case find_last_of path (CHR ''.'') of None \<Rightarrow> []
      | Some dot \<Rightarrow>
          (case find_last_of path (CHR ''/'') of
             None \<Rightarrow> drop (dot + 1) path
           | Some slash \<Rightarrow> if dot > slash then drop (dot + 1) path else []))"

type_synonym file_system = "string \<Rightarrow> (string \<times> bool) option"

record 'v static_env =
  env_fs :: file_system
  env_api :: "'v lua_api"
  env_vm :: "'v lua_vm"
  env_md :: "string \<Rightarrow> string"

definition fill_response :: "string \<Rightarrow> string \<Rightarrow> response \<Rightarrow> response" where
  "fill_response body type res =
     (let r = SetBody body res
      in AddHeader ''Content-Type'' type
           (AddHeader ''Content-Length'' (to_string_nat (length (GetBody r))) r))"

text \<open>
  An input stream on a file: the bytes not yet read, whether reading the file fails behind them, and the
  stream's own flags. \<open>file.read(buf, n)\<close> sets them when fewer than \<open>n\<close> bytes are left and reads
  nothing once they are set; the block is what \<open>gcount\<close> counts.
\<close>

record ifstream =
  in_rest :: string
  in_broken :: bool
  in_fail :: bool
  in_bad :: bool

definition open_file :: "string \<times> bool \<Rightarrow> ifstream" where
  "open_file f = \<lparr>in_rest = fst f, in_broken = snd f, in_fail = False, in_bad = False\<rparr>"

definition file_read :: "nat \<Rightarrow> ifstream \<Rightarrow> string \<times> ifstream" where
  "file_read n f =
     (if in_fail f then ([], f)
      else if n \<le> length (in_rest f) then (take n (in_rest f), f\<lparr>in_rest := drop n (in_rest f)\<rparr>)
      else if in_broken f then ([], f\<lparr>in_rest := [], in_fail := True, in_bad := True\<rparr>)
      else (in_rest f, f\<lparr>in_rest := [], in_fail := True\<rparr>))"

lemma file_read_shorter:
  "(buf, f') = file_read 512 f \<Longrightarrow> buf \<noteq> [] \<Longrightarrow> length (in_rest f') < length (in_rest f)"
  by (auto simp: file_read_def split: if_splits)

text \<open>The loop that reads the file in blocks of \<open>sizeof(buf)\<close> bytes and appends \<open>gcount\<close> of them.\<close>

function read_blocks :: "ifstream \<Rightarrow> string \<Rightarrow> string \<times> ifstream" where
  "read_blocks f body =
     (case file_read 512 f of (buf, f') \<Rightarrow>
        if length buf > 0 then read_blocks f' (body @ buf) else (body, f'))"
  by auto
termination
  by (relation "measure (\<lambda>(f, body). length (in_rest f))") (auto dest: file_read_shorter)

declare read_blocks.simps [simp del]

definition Static_HandleRequest ::
    "'v static_env \<Rightarrow> static_file_handler \<Rightarrow> request \<Rightarrow> response \<Rightarrow> (Status \<times> response) option" where
  "Static_HandleRequest env h req res =
     (case file_path h req of None \<Rightarrow> None
      | Some path \<Rightarrow>
         (let extension = file_extension path;
              type = extension_to_type extension;
              full_path = sf_root h @ path
          in case env_fs env (c_str full_path) of
               None \<Rightarrow> Some (NotFound_HandleRequest req res)
             | Some (bytes, failed) \<Rightarrow>
                 if type = ''text/html'' then
                   (case do_lua (env_api env) (env_vm env) bytes req (SetStatus ok res) of
                      (success, res', body) \<Rightarrow>
                        if \<not> success then Some (Error, res')
                        else if failed then Some (Error, res')
                        else Some (OK, fill_response
                          (if extension = ''md'' then env_md env body else body) type res'))
                 else
                   let (body, file) = read_blocks (open_file (bytes, failed)) []
                   in if in_bad file then Some (Error, SetStatus ok res)
                      else Some (OK, fill_response body type (SetStatus ok res))))"

subsection \<open>Serving files\<close>

lemma file_path_eq:
  assumes "file_path h req = Some p"
  shows "sublist p (rq_path req)"
proof -
  from assms have "\<exists>n. p = take n (drop (length (sf_path_prefix h)) (rq_path req))
      \<or> p = drop (length (sf_path_prefix h)) (rq_path req)"
    by (auto simp: file_path_def substr_def take_pos_def split: if_splits option.splits)
  then show ?thesis
    using sublist_order.order_trans [OF prefix_imp_sublist [OF take_is_prefix] suffix_imp_sublist [OF suffix_drop]]
      suffix_imp_sublist [OF suffix_drop] by metis
qed

lemma read_blocks_done: "in_fail f \<Longrightarrow> read_blocks f body = (body, f)"
  by (subst read_blocks.simps) (simp add: file_read_def)

lemma read_blocks_eq:
  "\<not> in_fail f \<Longrightarrow> in_broken f \<Longrightarrow> in_bad (snd (read_blocks f body))"
  "\<not> in_fail f \<Longrightarrow> \<not> in_broken f \<Longrightarrow>
     \<exists>f'. read_blocks f body = (body @ in_rest f, f') \<and> in_bad f' = in_bad f"
proof -
  show "\<not> in_fail f \<Longrightarrow> in_broken f \<Longrightarrow> in_bad (snd (read_blocks f body))"
  proof (induction f body rule: read_blocks.induct)
    case (1 f body)
    then show ?case by (subst read_blocks.simps) (auto simp: file_read_def read_blocks_done split: if_splits)
  qed
  show "\<not> in_fail f \<Longrightarrow> \<not> in_broken f \<Longrightarrow>
     \<exists>f'. read_blocks f body = (body @ in_rest f, f') \<and> in_bad f' = in_bad f"
  proof (induction f body rule: read_blocks.induct)
    case (1 f body)
    show ?case
    proof (cases "512 \<le> length (in_rest f)")
      case True
      with 1 have r: "file_read 512 f = (take 512 (in_rest f), f\<lparr>in_rest := drop 512 (in_rest f)\<rparr>)"
        by (simp add: file_read_def)
      with 1 True have "\<exists>f'. read_blocks (f\<lparr>in_rest := drop 512 (in_rest f)\<rparr>) (body @ take 512 (in_rest f))
          = ((body @ take 512 (in_rest f)) @ drop 512 (in_rest f), f') \<and> in_bad f' = in_bad f" by fastforce
      with r True show ?thesis by (subst read_blocks.simps) auto
    next
      case False
      with 1 have r: "file_read 512 f = (in_rest f, f\<lparr>in_rest := [], in_fail := True\<rparr>)"
        by (simp add: file_read_def)
      then show ?thesis by (subst read_blocks.simps) (simp add: read_blocks_done)
    qed
  qed
qed

lemma file_path_name:
  assumes "rq_path req = sf_path_prefix h @ p @ q" "CHR ''?'' \<notin> set p" "q = [] \<or> (\<exists>q'. q = CHR ''?'' # q')"
  shows "file_path h req = Some p"
proof -
  have "find_from ''?'' p i = None" for i using assms(2) by (induction p arbitrary: i) auto
  moreover have "find_from ''?'' (p @ CHR ''?'' # q') i = Some (i + length p)" for q' i
    using assms(2) by (induction p arbitrary: i) auto
  ultimately show ?thesis using assms by (auto simp: file_path_def substr_def take_pos_def str_find_def)
qed

lemma Static_plain:
  assumes "file_path h req = Some p" "env_fs env (c_str (sf_root h @ p)) = Some (bytes, failed)"
    and "extension_to_type (file_extension p) \<noteq> ''text/html''"
  shows "\<exists>st r. Static_HandleRequest env h req fresh_response = Some (st, r) \<and>
    (if failed then st = Error
     else st = OK \<and> GetStatus r = Some ok \<and> GetBody r = bytes \<and> res_full r = [] \<and>
       GetHeaders r = [(''Content-Length'', to_string_nat (length bytes)),
         (''Content-Type'', extension_to_type (file_extension p))])"
proof (cases failed)
  case True
  then have "in_bad (snd (read_blocks (open_file (bytes, failed)) []))"
    by (simp add: read_blocks_eq(1) open_file_def)
  with True assms show ?thesis
    unfolding Static_HandleRequest_def by (simp add: case_prod_unfold Let_def)
next
  case False
  then obtain f where "read_blocks (open_file (bytes, failed)) [] = (bytes, f)" "\<not> in_bad f"
    using read_blocks_eq(2) [of "open_file (bytes, failed)" "[]"] by (auto simp: open_file_def)
  with False assms show ?thesis
    unfolding Static_HandleRequest_def by (simp add: fill_response_def response_defs)
qed

text \<open>
  C13: the file that a request path names behind the handler's prefix, up to the first question mark, is
  served byte for byte with status 200 if its type is not HTML, although it is read in blocks; the length
  header is the number of its bytes and the type header the one its extension maps to. If reading it
  fails, the handler fails.
\<close>

theorem Static_serves_plain_file:
  assumes "rq_path req = sf_path_prefix h @ p @ q" "CHR ''?'' \<notin> set p" "q = [] \<or> (\<exists>q'. q = CHR ''?'' # q')"
    and "env_fs env (c_str (sf_root h @ p)) = Some (bytes, failed)"
    and "extension_to_type (file_extension p) \<noteq> ''text/html''"
  shows "\<exists>st r. Static_HandleRequest env h req fresh_response = Some (st, r) \<and>
    (if failed then st = Error
     else st = OK \<and> GetStatus r = Some ok \<and> GetBody r = bytes \<and> res_full r = [] \<and>
       GetHeaders r = [(''Content-Length'', to_string_nat (length bytes)),
         (''Content-Type'', extension_to_type (file_extension p))])"
  by (rule Static_plain [OF file_path_name [OF assms(1-3)] assms(4,5)])

theorem Static_serves_plain_file_witness:
  "\<exists>st r. Static_HandleRequest
      \<lparr>env_fs = (\<lambda>n. if n = ''./a.txt'' then Some (''hi'', False) else None),
       env_api = \<lparr>checkstring = Some, checkint = (\<lambda>_. None)\<rparr>,
       env_vm = (\<lambda>s q. ([], True)), env_md = id\<rparr>
      \<lparr>sf_path_prefix = ''/static/'', sf_root = ''./''\<rparr>
      ((new_request 0)\<lparr>rq_path := ''/static/a.txt?x''\<rparr>) fresh_response = Some (st, r) \<and>
    (if False then st = Error
     else st = OK \<and> GetStatus r = Some ok \<and> GetBody r = ''hi'' \<and> res_full r = [] \<and>
       GetHeaders r = [(''Content-Length'', to_string_nat (length ''hi'')),
         (''Content-Type'', extension_to_type (file_extension ''a.txt''))])"
  by (rule Static_serves_plain_file [where q = "''?x''"])
    (simp_all add: c_str_def file_extension_def find_last_of_def extension_to_type_def mappings_def)

lemma sublist_dotdot_append:
  assumes "sublist ''..'' (a @ b)" "\<not> sublist ''..'' a" "\<not> sublist ''..'' b"
  shows "a \<noteq> [] \<and> last a = CHR ''.'' \<and> (\<exists>b'. b = CHR ''.'' # b')"
proof -
  from assms obtain xs ys where xy: "''..'' = xs @ ys" "suffix xs a" "prefix ys b"
    unfolding sublist_append by blast
  with assms have "xs \<noteq> []" "ys \<noteq> []" by (auto dest: suffix_imp_sublist prefix_imp_sublist)
  with xy(1) have "xs = ''.''" "ys = ''.''" by (cases xs; cases "tl xs"; auto)+
  with xy(2,3) show ?thesis by (auto simp: suffix_def prefix_def)
qed

text \<open>For a safe request path the name below the root has no two dots in a row.\<close>

lemma file_path_safe: "path_safe (rq_path req) \<Longrightarrow> file_path h req = Some p \<Longrightarrow> \<not> sublist ''..'' p"
  using file_path_eq sublist_order.order_trans unfolding path_safe_def by blast

lemma file_path_head:
  assumes "file_path h req = Some p" "p \<noteq> []" "prefix (sf_path_prefix h) (rq_path req)"
  shows "\<exists>q. rq_path req = sf_path_prefix h @ hd p # q"
proof -
  obtain u where u: "rq_path req = sf_path_prefix h @ u" using assms(3) by (auto simp: prefix_def)
  then have "prefix p u"
    using assms(1) by (auto simp: file_path_def substr_def take_pos_def take_is_prefix split: option.splits)
  then have "u = hd p # tl u" using assms(2) by (cases u; cases p) (auto simp: prefix_def)
  with u show ?thesis by metis
qed

lemma confined_name:
  assumes "path_safe (rq_path req)" "prefix (sf_path_prefix h) (rq_path req)" "file_path h req = Some p"
    and "\<not> sublist ''..'' (sf_root h)"
    and "last (sf_root h) \<noteq> CHR ''.'' \<or> sf_path_prefix h \<noteq> [] \<and> last (sf_path_prefix h) = CHR ''.''"
  shows "\<not> sublist ''..'' (sf_root h @ p)"
proof
  assume dots: "sublist ''..'' (sf_root h @ p)"
  from sublist_dotdot_append [OF dots assms(4) file_path_safe [OF assms(1,3)]]
  obtain d where root: "last (sf_root h) = CHR ''.''" and d: "p = CHR ''.'' # d" by blast
  with assms(5) have pre: "sf_path_prefix h \<noteq> []" "last (sf_path_prefix h) = CHR ''.''" by simp_all
  obtain q where "rq_path req = sf_path_prefix h @ CHR ''.'' # q" using file_path_head [OF assms(3) _ assms(2)] d by auto
  also have "sf_path_prefix h = butlast (sf_path_prefix h) @ ''.''" using pre by (metis append_butlast_last_id)
  finally have "rq_path req = butlast (sf_path_prefix h) @ ''..'' @ q" by simp
  then have "sublist ''..'' (rq_path req)" by (metis sublist_appendI)
  with assms(1) show False by (simp add: path_safe_def)
qed

lemma dot_path_safe:
  assumes "\<not> sublist ''..'' u" "u = [] \<or> last u \<noteq> CHR ''.''"
  shows "path_safe (u @ ''./x'')"
proof -
  have "\<not> sublist ''..'' (u @ ''./x'')"
    using sublist_dotdot_append [of u "''./x''"] assms by (auto simp: sublist_Cons_right)
  then show ?thesis by (simp add: path_safe_def)
qed

text \<open>
  C14: when the handler is confined to its root. If the root has no two dots in a row, then no request with
  a safe path makes it open a file whose name has two dots in a row, unless the root ends in a dot and the
  prefix does not; and then such a request exists: with root \<open>.\<close> and prefix \<open>/static/\<close> the path
  \<open>/static/./x\<close> opens \<open>../x\<close>. (In a file system all of whose names have two dots in a row, a
  confined handler finds nothing.)
\<close>

theorem Static_confined_iff:
  assumes "sf_root h \<noteq> []" "\<not> sublist ''..'' (sf_root h)" "CHR 0x00 \<notin> set (sf_root h)"
    and "\<not> sublist ''..'' (sf_path_prefix h)"
  shows "(\<forall>fs (req :: request). path_safe (rq_path req) \<and> prefix (sf_path_prefix h) (rq_path req) \<and>
        (\<forall>name. fs name \<noteq> None \<longrightarrow> sublist ''..'' name) \<longrightarrow>
        Static_HandleRequest (env\<lparr>env_fs := fs\<rparr>) h req fresh_response = Some (NotFound_HandleRequest req fresh_response)) \<longleftrightarrow>
    last (sf_root h) \<noteq> CHR ''.'' \<or> sf_path_prefix h \<noteq> [] \<and> last (sf_path_prefix h) = CHR ''.''"
  (is "?confined \<longleftrightarrow> ?safe")
proof
  assume safe: ?safe
  show ?confined
  proof (intro allI impI, elim conjE)
    fix fs :: file_system and req :: request
    assume req: "path_safe (rq_path req)" "prefix (sf_path_prefix h) (rq_path req)"
      and fs: "\<forall>name. fs name \<noteq> None \<longrightarrow> sublist ''..'' name"
    obtain p where p: "file_path h req = Some p"
      using prefix_length_le [OF req(2)] by (simp add: file_path_def substr_def)
    have "prefix (c_str (sf_root h @ p)) (sf_root h @ p)" by (simp add: c_str_def takeWhile_is_prefix)
    then have "\<not> sublist ''..'' (c_str (sf_root h @ p))"
      using confined_name [OF req p assms(2) safe] sublist_order.order_trans prefix_imp_sublist by blast
    with fs have "fs (c_str (sf_root h @ p)) = None" by blast
    with p show "Static_HandleRequest (env\<lparr>env_fs := fs\<rparr>) h req fresh_response = Some (NotFound_HandleRequest req fresh_response)"
      by (simp add: Static_HandleRequest_def)
  qed
next
  assume conf: ?confined
  show ?safe
  proof (rule ccontr)
    assume "\<not> ?safe"
    then have root: "last (sf_root h) = CHR ''.''" and pre: "sf_path_prefix h = [] \<or> last (sf_path_prefix h) \<noteq> CHR ''.''" by auto
    define req where "req = (new_request 0)\<lparr>rq_path := sf_path_prefix h @ ''./x''\<rparr>"
    define fs :: file_system where "fs = (\<lambda>n. if n = sf_root h @ ''./x'' then Some ([], False) else None)"
    have "sf_root h @ ''./x'' = butlast (sf_root h) @ ''..'' @ ''/x''"
      using append_butlast_last_id [OF assms(1)] root by (metis append_Cons append_Nil append_assoc)
    then have dots: "sublist ''..'' (sf_root h @ ''./x'')" by (metis sublist_appendI)
    have name: "file_path h req = Some ''./x''" by (rule file_path_name [where q = "[]"]) (simp_all add: req_def)
    have "takeWhile (\<lambda>c. c \<noteq> CHR 0x00) (sf_root h) = sf_root h" using assms(3) by (simp add: takeWhile_eq_all_conv) blast
    then have "c_str (sf_root h @ ''./x'') = sf_root h @ ''./x''" using assms(3) by (auto simp: c_str_def takeWhile_append)
    then have opened: "fs (c_str (sf_root h @ ''./x'')) = Some ([], False)" by (simp_all add: fs_def)
    have "extension_to_type (file_extension ''./x'') \<noteq> ''text/html''"
      by (simp add: file_extension_def find_last_of_def extension_to_type_def mappings_def)
    then obtain r where r: "Static_HandleRequest (env\<lparr>env_fs := fs\<rparr>) h req fresh_response = Some (OK, r)" "GetStatus r = Some ok"
      using Static_plain [OF name, of "env\<lparr>env_fs := fs\<rparr>"] opened by auto
    have "path_safe (rq_path req)" using dot_path_safe [OF assms(4) pre] by (simp add: req_def)
    moreover have "\<forall>n. fs n \<noteq> None \<longrightarrow> sublist ''..'' n" using dots by (simp add: fs_def)
    ultimately have "Some (OK, r) = Some (NotFound_HandleRequest req fresh_response)"
      using spec [OF spec [OF conf, of fs], of req] r(1) by (simp add: req_def)
    with r(2) show False by (simp add: NotFound_HandleRequest_def response_defs)
  qed
qed

theorem Static_confined_iff_witness:
  "(\<forall>fs (req :: request). path_safe (rq_path req) \<and> prefix (sf_path_prefix \<lparr>sf_path_prefix = ''/static/'', sf_root = ''.''\<rparr>) (rq_path req) \<and>
        (\<forall>name. fs name \<noteq> None \<longrightarrow> sublist ''..'' name) \<longrightarrow>
        Static_HandleRequest (\<lparr>env_fs = \<lambda>_. None, env_api = \<lparr>checkstring = Some, checkint = (\<lambda>_. None)\<rparr>,
          env_vm = (\<lambda>s q. ([], True)), env_md = id\<rparr>\<lparr>env_fs := fs\<rparr>) \<lparr>sf_path_prefix = ''/static/'', sf_root = ''.''\<rparr> req fresh_response
        = Some (NotFound_HandleRequest req fresh_response)) \<longleftrightarrow>
    last (sf_root \<lparr>sf_path_prefix = ''/static/'', sf_root = ''.''\<rparr>) \<noteq> CHR ''.'' \<or>
    sf_path_prefix \<lparr>sf_path_prefix = ''/static/'', sf_root = ''.''\<rparr> \<noteq> [] \<and>
    last (sf_path_prefix \<lparr>sf_path_prefix = ''/static/'', sf_root = ''.''\<rparr>) = CHR ''.''"
  by (rule Static_confined_iff) (simp_all add: sublist_Cons_right)


subsection \<open>Form data\<close>

text \<open>
  A client's form encoder; names and values are percent-encoded, with the separators escaped.
\<close>

fun encode_form :: "(char \<Rightarrow> bool) \<Rightarrow> (string \<times> string) list \<Rightarrow> string" where
  "encode_form keep [] = []"
| "encode_form keep [(k, v)] = pct_encode keep k @ ''='' @ pct_encode keep v"
| "encode_form keep ((k, v) # kvs) =
     pct_encode keep k @ ''='' @ pct_encode keep v @ ''&'' @ encode_form keep kvs"

definition form_keep :: "(char \<Rightarrow> bool) \<Rightarrow> bool" where
  "form_keep keep \<longleftrightarrow> \<not> keep (CHR ''%'') \<and> \<not> keep (CHR ''+'') \<and> \<not> keep (CHR ''='') \<and> \<not> keep (CHR ''&'')"

lemma hex_char_not_sep: "n < 16 \<Longrightarrow> hex_char n \<noteq> CHR ''='' \<and> hex_char n \<noteq> CHR ''&''"
  using hex_char_props(1) [of n] by (auto simp: hex_val_def)

lemma pct_encode_no_sep:
  assumes "form_keep keep"
  shows "CHR ''='' \<notin> set (pct_encode keep s)" "CHR ''&'' \<notin> set (pct_encode keep s)"
proof -
  have "of_char c div 16 < (16 :: nat)" "of_char c mod 16 < (16 :: nat)" for c
    by (simp_all add: less_mult_imp_div_less)
  then have neq: "CHR ''='' \<noteq> hex_char (of_char c div 16)" "CHR ''='' \<noteq> hex_char (of_char c mod 16)"
    "CHR ''&'' \<noteq> hex_char (of_char c div 16)" "CHR ''&'' \<noteq> hex_char (of_char c mod 16)" for c
    using hex_char_not_sep by metis+
  show "CHR ''='' \<notin> set (pct_encode keep s)"
    using assms by (induction s) (auto simp: form_keep_def neq)
  show "CHR ''&'' \<notin> set (pct_encode keep s)"
    using assms by (induction s) (auto simp: form_keep_def neq)
qed

lemma form_loop_key:
  "CHR ''='' \<notin> set k \<Longrightarrow>
   form_loop True key val t (k @ CHR ''='' # cs) = form_loop False (key @ k) val t cs"
  by (induction k arbitrary: key) auto

lemma form_loop_val:
  "CHR ''&'' \<notin> set v \<Longrightarrow> form_loop False key val t (v @ cs) = form_loop False key (val @ v) t cs"
  by (induction v arbitrary: val) auto

lemma hex2ascii_encode: "form_keep keep \<Longrightarrow> hex2ascii (pct_encode keep s) = s"
  using decode_pct_encode_lemma [of keep "[]" s] by (simp add: hex2ascii_def form_keep_def)

text \<open>
  C15: form data round-trips: the table that \<open>get\<close> and \<open>post\<close> hand to a script is the one the
  client's fields describe, a later field overwriting an earlier one of the same name.
\<close>

theorem form2table_encode:
  assumes "form_keep keep" and "kvs \<noteq> []"
  shows "form2table (encode_form keep kvs) = fold (\<lambda>(k, v). rawset k v) kvs Map.empty"
proof -
  have "form_loop True [] [] t (encode_form keep kvs) = fold (\<lambda>(k, v). rawset k v) kvs t" for t
    using assms(2)
  proof (induction kvs arbitrary: t)
    case (Cons kv kvs)
    obtain k v where kv: "kv = (k, v)" by (cases kv)
    show ?case
    proof (cases kvs)
      case Nil
      have "form_loop False (pct_encode keep k) [] t (pct_encode keep v @ []) = rawset k v t"
        using assms(1) by (subst form_loop_val) (simp_all add: pct_encode_no_sep hex2ascii_encode)
      with Nil kv assms(1) show ?thesis by (simp add: form_loop_key pct_encode_no_sep)
    next
      case (Cons kv' kvs')
      with kv assms(1) Cons.IH show ?thesis
        by (simp add: form_loop_key form_loop_val pct_encode_no_sep hex2ascii_encode)
    qed
  qed simp
  then show ?thesis by (simp add: form2table_def)
qed

theorem form2table_encode_witness:
  "form2table (encode_form (\<lambda>c. c \<notin> set ''%+=&'') [(''a'', ''1+1''), (''a'', ''2'')])
   = fold (\<lambda>(k, v). rawset k v) [(''a'', ''1+1''), (''a'', ''2'')] Map.empty"
  by (rule form2table_encode) (simp_all add: form_keep_def)

subsection \<open>The status a script may set\<close>

lemma setstatus_codes:
  "(i \<ge> 200 \<and> i \<le> 204) \<or> i = 301 \<or> i = 302 \<or> i = 304 \<or>
   i = 400 \<or> i = 401 \<or> i = 403 \<or> i = 404 \<or> (i \<ge> 500 \<and> i \<le> 503) \<longleftrightarrow>
   (i :: int) \<in> {200, 201, 202, 203, 204, 301, 302, 304, 400, 401, 403, 404, 500, 501, 502, 503}"
  by auto

text \<open>
  A status that \<open>setstatus\<close> accepts becomes the status of the response, and its status
  line shows it, with one exception: 203 is accepted although it has no enumerator, is recorded
  as 203, and goes out under the status line of 500.
\<close>

theorem lua_setstatus_line:
  assumes "lua_setstatus Some [i] res = Inr r"
  shows "GetStatus r = Some (code_cast i) \<and> code_of (code_cast i) = i \<and>
    (take 12 (StatusString (code_cast i)) = ''HTTP/1.0 '' @ to_string_int i \<longleftrightarrow> i \<noteq> 203)"
proof -
  from assms have i: "i \<in> {200, 201, 202, 203, 204, 301, 302, 304, 400, 401, 403, 404, 500, 501, 502, 503}"
    unfolding lua_setstatus_def setstatus_codes by (simp add: check_arg_def split: if_splits)
  then have "r = SetStatus (code_cast i) res"
    using assms unfolding lua_setstatus_def setstatus_codes by (simp add: check_arg_def)
  then have "GetStatus r = Some (code_cast i)" by (simp add: response_defs)
  moreover from i have "code_of (code_cast i) = i \<and>
    (take 12 (StatusString (code_cast i)) = ''HTTP/1.0 '' @ to_string_int i \<longleftrightarrow> i \<noteq> 203)"
    by (elim insertE) (simp_all add: code_cast_def to_string_int_def nat_digits.simps digit_char_def)
  ultimately show ?thesis by blast
qed

theorem lua_setstatus_line_witness:
  "GetStatus (SetStatus (code_cast 203) fresh_response) = Some (code_cast 203) \<and>
   code_of (code_cast 203) = 203 \<and>
   (take 12 (StatusString (code_cast 203)) = ''HTTP/1.0 '' @ to_string_int 203 \<longleftrightarrow> (203::int) \<noteq> 203)"
  by (rule lua_setstatus_line [where res = fresh_response]) (simp add: lua_setstatus_def check_arg_def)

end
