(* ===== verification/Reverse_Proxy.thy ===== *)
theory Reverse_Proxy
  imports Handlers
begin

text \<open>
  \<open>reverse_proxy_handler.cc\<close>. The network is a parameter: a record of what resolving and
  connecting, the TLS handshake, writing and each read give on each attempt, attempts being
  numbered within one call. Boost's tokenizer is a parameter \<open>tok\<close> of the functions that use
  it. The loop that reads a reply and the loop that
  follows redirects may run for ever, so they are partial functions whose value is \<open>None\<close> then. An
  exception that leaves the handler is the outcome \<open>Threw\<close>. Positions are taken to fit in an \<open>int\<close> (responses below
  two gigabytes), so that the casts of \<open>getLocationHeaderValue\<close> keep \<open>npos\<close> and nothing else
  is changed by them.

  \<open>tokenGenerator\<close> returns a tokenizer that refers to its parameter \<open>s\<close>, which is destroyed on return;
  its callers then read storage that has been freed. What they find there is a parameter \<open>freed\<close>: for a
  string, the bytes its former storage reads as, or \<open>None\<close> if the access faults and the process ends.
  Nothing is assumed of it.
\<close>

subsection \<open>Settings\<close>

fun proxy_settings :: "NginxConfig \<Rightarrow> reverse_proxy_handler \<Rightarrow> reverse_proxy_handler" where
  "proxy_settings [] h = h"
| "proxy_settings (s # ss) h =
     (let ts = tokens s;
          h1 = (if length ts > 0 \<and> ts ! 0 = ''remote_host'' \<and> length ts > 1
                then h\<lparr>rp_remote_host := ts ! 1\<rparr> else h);
          h2 = (if length ts > 0 \<and> ts ! 0 = ''remote_port'' \<and> length ts > 1
                then h1\<lparr>rp_remote_port := ts ! 1\<rparr> else h1)
      in proxy_settings ss h2)"

definition Proxy_Init ::
    "reverse_proxy_handler \<Rightarrow> string \<Rightarrow> NginxConfig \<Rightarrow> Status \<times> reverse_proxy_handler" where
  "Proxy_Init h uri_prefix config =
     (let h' = proxy_settings config h in
      if rp_remote_host h' \<noteq> [] \<and> rp_remote_port h' \<noteq> []
      then (OK, h'\<lparr>rp_original_uri_prefix := uri_prefix\<rparr>) else (Error, h'))"

subsection \<open>Reading a response of the origin\<close>

type_synonym tokenizer = "string \<Rightarrow> string \<Rightarrow> string list"

type_synonym freed_storage = "string \<Rightarrow> string option"

definition tokenGenerator :: "freed_storage \<Rightarrow> tokenizer \<Rightarrow> string \<Rightarrow> string \<Rightarrow> string list option" where
  "tokenGenerator freed tok s sep = (case freed s of None \<Rightarrow> None | Some bytes \<Rightarrow> Some (tok bytes sep))"

definition second_token :: "string list \<Rightarrow> string option" where
  "second_token ts = (if length ts > 1 then Some (ts ! 1) else None)"

text \<open>The outer option is \<open>None\<close> for a fault, the inner one for an exception.\<close>

definition getLocationHeaderValue :: "freed_storage \<Rightarrow> tokenizer \<Rightarrow> string \<Rightarrow> string option option" where
  "getLocationHeaderValue freed tok response =
     (let start_location = str_find response ''Location:'' 0;
          end_location = find_first_of response CRLF start_location
      in case start_location of None \<Rightarrow> Some None
         | Some i \<Rightarrow>
             (case substr response i end_location of None \<Rightarrow> Some None
              | Some location_line \<Rightarrow>
                  (case tokenGenerator freed tok location_line '' '' of None \<Rightarrow> None
                   | Some ts \<Rightarrow> Some (Some (case second_token ts of None \<Rightarrow> [] | Some v \<Rightarrow> v)))))"

definition map_code :: "string \<Rightarrow> string" where
  "map_code code =
     (if code = ''200'' then ''200'' else if code = ''302'' then ''302''
      else if code = ''404'' then ''404'' else if code = ''500'' then ''404'' else ''500'')"

definition getRemoteResponseCode :: "freed_storage \<Rightarrow> tokenizer \<Rightarrow> string \<Rightarrow> string option" where
  "getRemoteResponseCode freed tok response =
     (let first_line = take_pos response (find_first_of response CRLF (Some 0))
      in case tokenGenerator freed tok first_line '' '' of None \<Rightarrow> None
         | Some ts \<Rightarrow> Some (case second_token ts of None \<Rightarrow> [] | Some code \<Rightarrow> map_code code))"

subsection \<open>The exchange with the origin\<close>

text \<open>
  Error codes: success, end of file, the short read of SSL, not found, and the others.
\<close>

datatype error_code = Ec_success | Ec_eof | Ec_short_read | Ec_not_found | Ec_other int

record network =
  net_connect :: "nat \<Rightarrow> string \<Rightarrow> string \<Rightarrow> error_code option"
  net_handshake :: "nat \<Rightarrow> error_code"
  net_write :: "nat \<Rightarrow> string \<Rightarrow> bool"
  net_read :: "nat \<Rightarrow> nat \<Rightarrow> (string \<times> error_code) option"

text \<open>
  \<open>net_connect\<close> is \<open>None\<close> when resolving the name throws, \<open>net_write\<close> is false when writing
  throws, and \<open>net_read n i\<close> is what the \<open>i\<close>-th read of attempt \<open>n\<close> gives, a block with an error code, or
  \<open>None\<close> if it waits for ever.
\<close>

datatype proxy_outcome = Threw | Answer string

text \<open>The request line and the headers that are rewritten before a request is forwarded.\<close>

definition remote_uri_of :: "reverse_proxy_handler \<Rightarrow> string \<Rightarrow> string" where
  "remote_uri_of h uri =
     (let erased = (if rp_original_uri_prefix h \<noteq> ''/''
                    then (case str_find uri ''/'' 1 of None \<Rightarrow> [] | Some n \<Rightarrow> drop n uri)
                    else uri)
      in if erased = [] then ''/'' else erased)"

text \<open>\<open>req.replace(p, req.find("\r\n", p) - p, t)\<close>\<close>

definition replace_line :: "string \<Rightarrow> nat option \<Rightarrow> string \<Rightarrow> string option" where
  "replace_line req p t =
     (case p of None \<Rightarrow> None
      | Some pos \<Rightarrow> str_replace req p (pos_diff (str_find_pos req CRLF p) pos) t)"

definition rewrite_host :: "reverse_proxy_handler \<Rightarrow> string \<Rightarrow> string option" where
  "rewrite_host h req = replace_line req (str_find req ''Host'' 0) (''Host: '' @ rp_remote_host h)"

definition rewrite_tls :: "string \<Rightarrow> string option" where
  "rewrite_tls req =
     (case str_find req ''Connection'' 0 of
        None \<Rightarrow> replace_line req (str_find req ''HTTP/1'' 0) ''HTTP/1.0''
      | Some p \<Rightarrow>
          (case replace_line req (Some p) ''Connection: close'' of None \<Rightarrow> None
           | Some r \<Rightarrow> replace_line r (str_find r ''HTTP/1'' 0) ''HTTP/1.0''))"

definition remote_request_of :: "reverse_proxy_handler \<Rightarrow> bool \<Rightarrow> string \<Rightarrow> string option" where
  "remote_request_of h tls raw =
     (case rewrite_host h raw of None \<Rightarrow> None
      | Some r \<Rightarrow> if tls then rewrite_tls r else Some r)"

text \<open>The new host of a redirect: what lies between \<open>www\<close> and the next slash.\<close>

definition redirect_host :: "string \<Rightarrow> string option" where
  "redirect_host response =
     (let location = str_find response ''Location'' 0;
          www = str_find_pos response ''www'' location;
          slash = str_find_pos response ''/'' www
      in case www of None \<Rightarrow> None | Some w \<Rightarrow> substr response w (pos_diff slash w))"

text \<open>One pass of the loop: stop with an outcome, or go on with another host.\<close>

datatype attempt_result = Stop proxy_outcome | Redirect string

definition final_answer :: "string \<Rightarrow> error_code \<Rightarrow> proxy_outcome" where
  "final_answer response ec =
     (case ec of Ec_eof \<Rightarrow> Answer response | Ec_success \<Rightarrow> Answer response
      | Ec_short_read \<Rightarrow> Answer response | _ \<Rightarrow> Answer ''RequestHandler::Error'')"

text \<open>The loop \<open>do ... while (!ec)\<close> that reads a reply.\<close>

partial_function (option) read_loop ::
    "network \<Rightarrow> nat \<Rightarrow> nat \<Rightarrow> string \<Rightarrow> (string \<times> error_code) option" where
  "read_loop net n i response =
     (case net_read net n i of
        None \<Rightarrow> None
      | Some (block, ec) \<Rightarrow>
          if ec = Ec_success then read_loop net n (Suc i) (response @ block) else Some (response @ block, ec))"

declare read_loop.simps [code]

definition attempt :: "network \<Rightarrow> string \<Rightarrow> nat \<Rightarrow> reverse_proxy_handler \<Rightarrow> attempt_result option" where
  "attempt net raw n h =
     (case stoi (rp_remote_port h) of Inl _ \<Rightarrow> Some (Stop Threw)
      | Inr port \<Rightarrow>
        (case net_connect net n (rp_remote_host h) (rp_remote_port h) of
           None \<Rightarrow> Some (Stop Threw)
         | Some ec \<Rightarrow>
             if ec = Ec_not_found then Some (Stop (Answer ''RequestHandler::Error''))
             else if port = 443 \<and> net_handshake net n \<noteq> Ec_success
             then Some (Stop (Answer ''RequestHandler::Error''))
             else (case remote_request_of h (port = 443) raw of
                     None \<Rightarrow> Some (Stop Threw)
                   | Some remote_request \<Rightarrow>
                       if \<not> net_write net n remote_request then Some (Stop Threw)
                       else (case read_loop net n 0 [] of
                               None \<Rightarrow> None
                             | Some (response, ec') \<Rightarrow>
                                 if str_find response ''HTTP/1.1 302 Found'' 0 \<noteq> None
                                 then (case redirect_host response of
                                         None \<Rightarrow> Some (Stop Threw) | Some host \<Rightarrow> Some (Redirect host))
                                 else Some (Stop (final_answer response ec'))))))"

partial_function (option) origin_loop ::
    "network \<Rightarrow> string \<Rightarrow> nat \<Rightarrow> reverse_proxy_handler
      \<Rightarrow> (proxy_outcome \<times> reverse_proxy_handler) option" where
  "origin_loop net raw n h =
     (case attempt net raw n h of
        None \<Rightarrow> None
      | Some (Stop r) \<Rightarrow> Some (r, h)
      | Some (Redirect host) \<Rightarrow> origin_loop net raw (Suc n) (h\<lparr>rp_remote_host := host\<rparr>))"

declare origin_loop.simps [code]

definition sendRequestToOrigin ::
    "network \<Rightarrow> reverse_proxy_handler \<Rightarrow> request \<Rightarrow> string
      \<Rightarrow> (proxy_outcome \<times> reverse_proxy_handler) option" where
  "sendRequestToOrigin net h req remote_uri =
     (case SetUri (remote_uri_of h remote_uri) req of
        None \<Rightarrow> Some (Threw, h)
      | Some req' \<Rightarrow> origin_loop net (rq_raw req') 0 h)"

text \<open>Replacing every occurrence, from left to right (\<open>boost::replace_all\<close>, a parameter).\<close>

definition rerouteRelativeUris ::
    "(string \<Rightarrow> string \<Rightarrow> string \<Rightarrow> string) \<Rightarrow> reverse_proxy_handler \<Rightarrow> string \<Rightarrow> string" where
  "rerouteRelativeUris replace_all h body =
     (if rp_original_uri_prefix h \<noteq> ''/'' then
        let new_href = ''href='' @ [DQUOTE] @ rp_original_uri_prefix h @ ''/'';
            body1 = replace_all body (''href='' @ [DQUOTE] @ ''/'') new_href;
            new_src = ''src='' @ [DQUOTE] @ rp_original_uri_prefix h @ ''/''
        in replace_all body1 (''src='' @ [DQUOTE] @ ''/'') new_src
      else body)"

definition set_proxy_status :: "string \<Rightarrow> response \<Rightarrow> response" where
  "set_proxy_status code res =
     (if code = ''200'' then SetStatus ok res
      else if code = ''404'' then SetStatus not_found res
      else if code = ''500'' then SetStatus internal_server_error res else res)"

text \<open>
  The value \<open>None\<close> is a call that does not return; \<open>Some (None, _)\<close> one that an exception or a fault ends.
\<close>

definition Proxy_HandleRequest ::
    "freed_storage \<Rightarrow> tokenizer \<Rightarrow> network \<Rightarrow> reverse_proxy_handler \<Rightarrow> request \<Rightarrow> response
      \<Rightarrow> ((Status \<times> response) option \<times> reverse_proxy_handler) option" where
  "Proxy_HandleRequest freed tok net h req res =
     (case sendRequestToOrigin net h req (rq_uri req) of
        None \<Rightarrow> None
      | Some (Threw, h') \<Rightarrow> Some (None, h')
      | Some (Answer s, h') \<Rightarrow>
          if s = ''RequestHandler::Error'' then Some (Some (Error, SetStatus not_found res), h')
          else (case getRemoteResponseCode freed tok s of
                  None \<Rightarrow> Some (None, h')
                | Some code \<Rightarrow> Some (Some (OK, SetFullResponse s (set_proxy_status code res)), h')))"

subsection \<open>What is forwarded\<close>

lemma find_from_first:
  assumes "\<not> sublist pat (a @ butlast pat)" "pat \<noteq> []"
  shows "find_from pat (a @ pat @ b) i = Some (i + length a)"
  using assms(1)
proof (induction a arbitrary: i)
  case Nil
  from assms(2) show ?case by (cases pat) auto
next
  case (Cons c a)
  have "\<not> prefix pat (c # a @ pat @ b)"
  proof
    assume "prefix pat (c # a @ pat @ b)"
    moreover have "prefix ((c # a) @ butlast pat) (c # a @ pat @ b)"
    proof (rule prefixI)
      have "c # a @ pat @ b = c # a @ (butlast pat @ [last pat]) @ b" using assms(2) by simp
      then show "c # a @ pat @ b = ((c # a) @ butlast pat) @ [last pat] @ b" by simp
    qed
    moreover have "length pat \<le> length ((c # a) @ butlast pat)" by simp
    ultimately have "prefix pat ((c # a) @ butlast pat)" by (rule prefix_length_prefix)
    with Cons.prems show False by (auto dest: prefix_imp_sublist)
  qed
  moreover from Cons.prems have "\<not> sublist pat (a @ butlast pat)"
    by (auto simp: sublist_Cons_right)
  ultimately show ?case by (simp add: Cons.IH)
qed

lemma str_find_first:
  assumes "\<not> sublist pat (a @ butlast pat)" "pat \<noteq> []"
  shows "str_find (p @ a @ pat @ b) pat (length p) = Some (length p + length a)"
  using find_from_first [OF assms] by (simp add: str_find_def)

lemma str_find_char:
  assumes "c \<notin> set a"
  shows "str_find (p @ a @ c # b) [c] (length p) = Some (length p + length a)"
proof -
  have "\<not> sublist [c] a" using assms set_mono_sublist by fastforce
  then show ?thesis using str_find_first [of "[c]" a p b] by simp
qed

lemma str_replace_mid:
  "str_replace (a @ b @ c) (Some (length a)) (Some (length b)) t = Some (a @ t @ c)"
  by (simp add: str_replace_def)

lemma SetUri_raw:
  assumes "rq_raw req = m @ '' '' @ uri @ '' '' @ rest" "CHR '' '' \<notin> set m" "CHR '' '' \<notin> set uri"
  shows "SetUri u req = Some (req\<lparr>rq_uri := u, rq_raw := m @ '' '' @ u @ '' '' @ rest\<rparr>)"
proof -
  have 1: "str_find (rq_raw req) '' '' 0 = Some (length m)"
    using str_find_char [OF assms(2), of "[]" "uri @ '' '' @ rest"] assms(1) by simp
  have 2: "str_find (rq_raw req) '' '' (Suc (length m)) = Some (Suc (length m) + length uri)"
    using str_find_char [OF assms(3), of "m @ '' ''" rest] assms(1) by simp
  have 3: "str_replace (rq_raw req) (Some (Suc (length m))) (Some (length uri)) u
      = Some (m @ '' '' @ u @ '' '' @ rest)"
    using str_replace_mid [of "m @ '' ''" uri "'' '' @ rest" u] assms(1) by simp
  show ?thesis
    unfolding SetUri_def Let_def by (simp add: 1 2 3 pos_inc_def pos_diff_def)
qed

lemma replace_line_eq:
  assumes "\<not> sublist CRLF (line @ [CR])"
  shows "replace_line (a @ line @ CRLF @ b) (Some (length a)) t = Some (a @ t @ CRLF @ b)"
proof -
  have "str_find (a @ line @ CRLF @ b) CRLF (length a) = Some (length a + length line)"
    using str_find_first [of CRLF line a b] assms by simp
  then show ?thesis
    using str_replace_mid [of a line "CRLF @ b" t]
    by (simp add: replace_line_def str_find_pos_def pos_diff_def)
qed

text \<open>
  A request as text: the request line of method, URI and version, header lines and a body. The code finds
  a header by its name and replaces the first occurrence up to the end of its line.
\<close>

definition header_text :: "string list \<Rightarrow> string" where
  "header_text hs = concat (map (\<lambda>l. l @ CRLF) hs)"

definition request_text :: "string \<Rightarrow> string \<Rightarrow> string \<Rightarrow> string list \<Rightarrow> string \<Rightarrow> string" where
  "request_text m u v hs body = (m @ '' '' @ u @ '' '' @ v) @ CRLF @ header_text hs @ CRLF @ body"

definition has_header :: "string \<Rightarrow> string list \<Rightarrow> bool" where
  "has_header k hs \<longleftrightarrow> (\<exists>l \<in> set hs. prefix k l)"

text \<open>The first line that contains the name begins with it.\<close>

fun header_first :: "string \<Rightarrow> string list \<Rightarrow> bool" where
  "header_first k [] = True"
| "header_first k (l # ls) \<longleftrightarrow> prefix k l \<or> \<not> sublist k l \<and> header_first k ls"

fun set_header :: "string \<Rightarrow> string \<Rightarrow> string list \<Rightarrow> string list" where
  "set_header k new [] = []"
| "set_header k new (l # ls) = (if prefix k l then new # ls else l # set_header k new ls)"

lemma header_text_simps [simp]: "header_text [] = []" "header_text (l # ls) = l @ CRLF @ header_text ls"
  by (simp_all add: header_text_def)

lemma sublist_separated:
  assumes "c \<notin> set pat" "pat \<noteq> []"
  shows "sublist pat (a @ c # b) \<longleftrightarrow> sublist pat a \<or> sublist pat b"
proof
  assume "sublist pat (a @ c # b)"
  then consider "sublist pat a" | "sublist pat (c # b)"
    | p q where "pat = p @ q" "suffix p a" "prefix q (c # b)" "q \<noteq> []"
    unfolding sublist_append by (metis append_Nil2 suffix_imp_sublist)
  then show "sublist pat a \<or> sublist pat b"
  proof cases
    case 3
    with assms(1) show ?thesis by (cases q) auto
  qed (use assms in \<open>auto simp: sublist_Cons_right prefix_Cons\<close>)
next
  assume "sublist pat a \<or> sublist pat b"
  then show "sublist pat (a @ c # b)" by (auto simp: sublist_append sublist_Cons_right)
qed

lemma sublist_lines:
  assumes "CR \<notin> set k" "LF \<notin> set k" "k \<noteq> []"
  shows "sublist k (a @ CRLF @ b) \<longleftrightarrow> sublist k a \<or> sublist k b"
  using sublist_separated [OF assms(1,3), of a "LF # b"] sublist_separated [OF assms(2,3), of "[]" b] assms(3) by simp

lemma not_sublist_butlast: "k \<noteq> [] \<Longrightarrow> \<not> sublist k (butlast k)"
  by (cases k) (auto dest!: sublist_length_le)

lemma no_line_end: "CR \<notin> set w \<Longrightarrow> \<not> sublist CRLF (w @ [CR])"
  by (induction w) (auto simp: sublist_Cons_right prefix_Cons)

lemma header_split:
  assumes "CR \<notin> set k" "LF \<notin> set k" "k \<noteq> []" "header_first k hs" "has_header k hs" "\<forall>l \<in> set hs. CR \<notin> set l"
  shows "\<exists>a old b. header_text hs = a @ (k @ old) @ CRLF @ b \<and> \<not> sublist k (a @ butlast k) \<and> CR \<notin> set old \<and>
    (\<forall>new. header_text (set_header k new hs) = a @ new @ CRLF @ b)"
  using assms(4-6)
proof (induction hs)
  case (Cons l hs)
  show ?case
  proof (cases "prefix k l")
    case True
    then obtain old where "l = k @ old" by (auto simp: prefix_def)
    with True Cons.prems(3) not_sublist_butlast [OF assms(3)] show ?thesis
      by (intro exI [of _ "[]"] exI [of _ old] exI [of _ "header_text hs"]) auto
  next
    case False
    with Cons obtain a old b where ab: "header_text hs = a @ (k @ old) @ CRLF @ b" "\<not> sublist k (a @ butlast k)" "CR \<notin> set old"
      "\<forall>new. header_text (set_header k new hs) = a @ new @ CRLF @ b" by (auto simp: has_header_def)
    have "\<not> sublist k (l @ CRLF @ a @ butlast k)"
      using ab(2) False Cons.prems(1) unfolding sublist_lines [OF assms(1-3)] by simp
    with ab False show ?thesis
      by (intro exI [of _ "l @ CRLF @ a"] exI [of _ old] exI [of _ b]) simp
  qed
qed (simp add: has_header_def)

text \<open>What the code does to the first occurrence of a name is what is done to the header.\<close>

lemma replace_header:
  assumes "CR \<notin> set k" "LF \<notin> set k" "k \<noteq> []" "header_first k hs" "has_header k hs" "\<forall>l \<in> set hs. CR \<notin> set l"
    and "\<not> sublist k line"
  shows "replace_line (line @ CRLF @ header_text hs @ rest) (str_find (line @ CRLF @ header_text hs @ rest) k 0) new
    = Some (line @ CRLF @ header_text (set_header k new hs) @ rest)"
    "str_find (line @ CRLF @ header_text hs @ rest) k 0 \<noteq> None"
proof -
  obtain a old b where ab: "header_text hs = a @ (k @ old) @ CRLF @ b" "\<not> sublist k (a @ butlast k)" "CR \<notin> set old"
    "\<forall>new. header_text (set_header k new hs) = a @ new @ CRLF @ b"
    using header_split [OF assms(1-6)] by blast
  have "\<not> sublist k ((line @ CRLF @ a) @ butlast k)"
    using ab(2) assms(7) sublist_lines [OF assms(1-3), of line "a @ butlast k"] by simp
  from str_find_first [OF this assms(3), of "[]" "old @ CRLF @ b @ rest"]
  have f: "str_find (line @ CRLF @ header_text hs @ rest) k 0 = Some (length (line @ CRLF @ a))" by (simp add: ab(1))
  then show "str_find (line @ CRLF @ header_text hs @ rest) k 0 \<noteq> None" by simp
  have "\<not> sublist CRLF ((k @ old) @ [CR])"
    using no_line_end [of "k @ old"] assms(1) ab(3) by simp
  from replace_line_eq [OF this, of "line @ CRLF @ a" "b @ rest" new] ab(4)
  show "replace_line (line @ CRLF @ header_text hs @ rest) (str_find (line @ CRLF @ header_text hs @ rest) k 0) new
    = Some (line @ CRLF @ header_text (set_header k new hs) @ rest)"
    unfolding f by (simp add: ab(1))
qed

lemma set_header_no_CR: "\<forall>l \<in> set hs. c \<notin> set l \<Longrightarrow> c \<notin> set new \<Longrightarrow> \<forall>l \<in> set (set_header k new hs). c \<notin> set l"
  by (induction hs) auto

lemma header_first_set:
  assumes "header_first k hs" "\<not> sublist k new" "\<not> prefix k k'" "\<not> prefix k' k"
  shows "header_first k (set_header k' new hs)" "has_header k (set_header k' new hs) \<longleftrightarrow> has_header k hs"
proof -
  have "\<not> prefix k new" using assms(2) prefix_imp_sublist by blast
  moreover have "\<not> (prefix k l \<and> prefix k' l)" for l using assms(3,4) prefix_same_cases by blast
  ultimately show "header_first k (set_header k' new hs)" "has_header k (set_header k' new hs) \<longleftrightarrow> has_header k hs"
    using assms(1,2) by (induction hs) (auto simp: has_header_def)
qed

lemma set_header_none: "\<not> has_header k hs \<Longrightarrow> set_header k new hs = hs"
  by (induction hs) (auto simp: has_header_def)

lemma no_header_text:
  assumes "CR \<notin> set k" "LF \<notin> set k" "k \<noteq> []" "header_first k hs" "\<not> has_header k hs"
  shows "\<not> sublist k (header_text hs)"
  using assms(4,5) by (induction hs) (auto simp: sublist_lines [OF assms(1-3), simplified] has_header_def assms(3))

lemma rewrite_version:
  assumes "prefix ''HTTP/1'' v" "CR \<notin> set v" "\<not> sublist ''HTTP/1'' (m @ '' '' @ u)"
  shows "replace_line (request_text m u v hs body) (str_find (request_text m u v hs body) ''HTTP/1'' 0) ''HTTP/1.0''
    = Some (request_text m u ''HTTP/1.0'' hs body)"
proof -
  obtain old where v: "v = ''HTTP/1'' @ old" using assms(1) by (auto simp: prefix_def)
  let ?a = "(m @ '' '' @ u) @ '' ''"
  have "\<not> sublist ''HTTP/1'' ((m @ '' '' @ u) @ CHR '' '' # ''HTTP/'')"
    by (subst sublist_separated) (use assms(3) in \<open>auto simp: sublist_Cons_right\<close>)
  then have "\<not> sublist ''HTTP/1'' (?a @ butlast ''HTTP/1'')" by simp
  from str_find_first [OF this, of "[]" "old @ CRLF @ header_text hs @ CRLF @ body"]
  have f: "str_find (request_text m u v hs body) ''HTTP/1'' 0 = Some (length ?a)" by (simp add: request_text_def v)
  from replace_line_eq [OF no_line_end [OF assms(2)], of ?a "header_text hs @ CRLF @ body" "''HTTP/1.0''"]
  show ?thesis unfolding f by (simp add: request_text_def)
qed



subsection \<open>Returning\<close>

text \<open>The origin closes the connection of attempt \<open>n\<close> after these blocks, counted from read \<open>i\<close> on.\<close>

inductive closes :: "network \<Rightarrow> nat \<Rightarrow> nat \<Rightarrow> string list \<Rightarrow> error_code \<Rightarrow> bool" where
  last_block: "net_read net n i = Some (b, ec) \<Longrightarrow> ec \<noteq> Ec_success \<Longrightarrow> closes net n i [b] ec"
| more_blocks: "net_read net n i = Some (b, Ec_success) \<Longrightarrow> closes net n (Suc i) bs ec \<Longrightarrow> closes net n i (b # bs) ec"

lemma read_loop_closes: "closes net n i bs ec \<Longrightarrow> read_loop net n i response = Some (response @ concat bs, ec)"
  by (induction arbitrary: response rule: closes.induct) (subst read_loop.simps; simp)+

lemma closes_read_loop:
  assumes "read_loop net n i response = Some (r, ec)"
  shows "\<exists>bs. closes net n i bs ec \<and> r = response @ concat bs"
proof -
  have "\<exists>bs. closes net n i bs (snd v) \<and> fst v = response @ concat bs" if "read_loop net n i response = Some v" for net n i response v
  proof (rule read_loop.raw_induct [OF _ that])
    fix f net n i response v
    assume IH: "\<And>net n i response v. f net n i response = Some v \<Longrightarrow> \<exists>bs. closes net n i bs (snd v) \<and> fst v = response @ concat bs"
      and eq: "(case net_read net n i of None \<Rightarrow> None
        | Some (block, ec) \<Rightarrow> if ec = Ec_success then f net n (Suc i) (response @ block) else Some (response @ block, ec)) = Some v"
    show "\<exists>bs. closes net n i bs (snd v) \<and> fst v = response @ concat bs"
    proof (cases "\<exists>b. net_read net n i = Some (b, Ec_success)")
      case True
      then obtain b where b: "net_read net n i = Some (b, Ec_success)" by blast
      with eq IH obtain bs where "closes net n (Suc i) bs (snd v)" "fst v = (response @ b) @ concat bs" by fastforce
      with b show ?thesis by (intro exI [of _ "b # bs"]) (simp add: more_blocks)
    next
      case False
      with eq obtain b ec where "net_read net n i = Some (b, ec)" "ec \<noteq> Ec_success" "v = (response @ b, ec)"
        by (auto split: option.splits if_splits)
      then show ?thesis by (intro exI [of _ "[b]"]) (simp add: last_block)
    qed
  qed
  with assms show ?thesis by fastforce
qed

text \<open>The reply that ends the loop: it is no redirect, or one that names no host.\<close>

definition final_reply :: "string \<Rightarrow> bool" where
  "final_reply response \<longleftrightarrow> (sublist ''HTTP/1.1 302 Found'' response \<longrightarrow> redirect_host response = None)"

lemma attempt_connected:
  assumes "stoi (rp_remote_port h) = Inr port" "net_connect net n (rp_remote_host h) (rp_remote_port h) = Some Ec_success"
    and "port = 443 \<longrightarrow> net_handshake net n = Ec_success" "remote_request_of h (port = 443) raw = Some out" "net_write net n out"
  shows "attempt net raw n h =
    (case read_loop net n 0 [] of None \<Rightarrow> None
     | Some (response, ec) \<Rightarrow>
         if final_reply response
         then Some (Stop (if sublist ''HTTP/1.1 302 Found'' response then Threw else final_answer response ec))
         else Some (Redirect (the (redirect_host response))))"
  using assms by (auto simp: attempt_def final_reply_def str_find_None_iff split: option.split)

lemma origin_loop_returns:
  assumes "stoi (rp_remote_port h) = Inr port"
    and "\<And>n host. net_connect net n host (rp_remote_port h) = Some Ec_success"
    and "\<And>n. port = 443 \<longrightarrow> net_handshake net n = Ec_success"
    and "\<And>host. remote_request_of (h\<lparr>rp_remote_host := host\<rparr>) (port = 443) raw \<noteq> None"
    and "\<And>n out. net_write net n out"
  shows "(\<exists>v. origin_loop net raw n (h\<lparr>rp_remote_host := host\<rparr>) = Some v) \<longleftrightarrow>
    (\<exists>k bs ec. n \<le> k \<and> (\<forall>m. n \<le> m \<and> m < k \<longrightarrow> (\<exists>b e. closes net m 0 b e)) \<and> closes net k 0 bs ec \<and> final_reply (concat bs))"
    (is "?returns n host \<longleftrightarrow> ?ends n")
proof
  have att: "attempt net raw n (h\<lparr>rp_remote_host := host\<rparr>) =
    (case read_loop net n 0 [] of None \<Rightarrow> None
     | Some (response, ec) \<Rightarrow>
         if final_reply response
         then Some (Stop (if sublist ''HTTP/1.1 302 Found'' response then Threw else final_answer response ec))
         else Some (Redirect (the (redirect_host response))))" for n host
  proof -
    obtain out where "remote_request_of (h\<lparr>rp_remote_host := host\<rparr>) (port = 443) raw = Some out" using assms(4) by blast
    with assms show ?thesis by (intro attempt_connected [where out = out]) auto
  qed
  show "?returns n host" if ends: "?ends n"
  proof -
    obtain k bs ec where k: "n \<le> k" "\<forall>m. n \<le> m \<and> m < k \<longrightarrow> (\<exists>b e. closes net m 0 b e)" "closes net k 0 bs ec" "final_reply (concat bs)"
      using ends by blast
    then show ?thesis
    proof (induction "k - n" arbitrary: n host)
      case 0
      then have "n = k" by simp
      with read_loop_closes [OF 0(4), of "[]"] 0(5) show ?case by (subst origin_loop.simps) (simp add: att)
    next
      case (Suc d)
      then obtain b e where "closes net n 0 b e" by (metis diff_is_0_eq le_refl nat.distinct(1) not_less)
      note r = read_loop_closes [OF this, of "[]"]
      have "?returns (Suc n) x" for x using Suc.hyps Suc.prems by (intro Suc.hyps(1)) auto
      with r show ?case by (subst origin_loop.simps) (simp add: att)
    qed
  qed
  show "?ends n" if returns: "?returns n host"
  proof -
    have "net' = net \<longrightarrow> raw' = raw \<longrightarrow> (\<forall>x. h' = h\<lparr>rp_remote_host := x\<rparr> \<longrightarrow> ?ends n)"
      if "origin_loop net' raw' n h' = Some v" for net' raw' n h' v
    proof (rule origin_loop.raw_induct [OF _ that])
      fix f net' raw' n h' v
      assume IH: "\<And>net' raw' n h' v. f net' raw' n h' = Some v \<Longrightarrow>
          net' = net \<longrightarrow> raw' = raw \<longrightarrow> (\<forall>x. h' = h\<lparr>rp_remote_host := x\<rparr> \<longrightarrow> ?ends n)"
        and eq: "(case attempt net' raw' n h' of None \<Rightarrow> None | Some (Stop r) \<Rightarrow> Some (r, h')
          | Some (Redirect host) \<Rightarrow> f net' raw' (Suc n) (h'\<lparr>rp_remote_host := host\<rparr>)) = Some v"
      show "net' = net \<longrightarrow> raw' = raw \<longrightarrow> (\<forall>x. h' = h\<lparr>rp_remote_host := x\<rparr> \<longrightarrow> ?ends n)"
      proof (intro impI allI)
        fix x assume *: "net' = net" "raw' = raw" "h' = h\<lparr>rp_remote_host := x\<rparr>"
        obtain response ec where r: "read_loop net n 0 [] = Some (response, ec)"
          using eq * att by (cases "read_loop net n 0 []") auto
        with closes_read_loop obtain bs where bs: "closes net n 0 bs ec" "response = concat bs" by fastforce
        show "?ends n"
        proof (cases "final_reply response")
          case True
          with bs show ?thesis by (intro exI [of _ n]) auto
        next
          case False
          with eq * r have "f net raw (Suc n) (h\<lparr>rp_remote_host := the (redirect_host response)\<rparr>) = Some v" by (simp add: att)
          with IH obtain k b e where k: "Suc n \<le> k" "\<forall>m. Suc n \<le> m \<and> m < k \<longrightarrow> (\<exists>b e. closes net m 0 b e)"
            "closes net k 0 b e" "final_reply (concat b)" by blast
          then have "\<forall>m. n \<le> m \<and> m < k \<longrightarrow> (\<exists>b e. closes net m 0 b e)" using bs(1) by (metis Suc_leI le_neq_implies_less)
          with k show ?thesis by (intro exI [of _ k] exI [of _ b] exI [of _ e]) simp
        qed
      qed
    qed
    with returns show ?thesis by blast
  qed
qed


text \<open>The third attempt gets a reply in two blocks that is no redirect.\<close>

definition two_redirects :: network where
  "two_redirects = \<lparr>net_connect = \<lambda>n h p. Some Ec_success, net_handshake = \<lambda>n. Ec_success, net_write = \<lambda>n r. True,
     net_read = \<lambda>n i. Some (if n < 2 then (''HTTP/1.1 302 Found www.a/'', Ec_eof)
       else if i = 0 then (''HTTP/1.0 '', Ec_success) else (''200 OK'', Ec_eof))\<rparr>"


subsection \<open>The status of a proxied response\<close>

lemma find_first_aux_takeWhile:
  "case find_first_aux cs s i of
     None \<Rightarrow> takeWhile (\<lambda>c. c \<notin> set cs) s = s
   | Some k \<Rightarrow> i \<le> k \<and> takeWhile (\<lambda>c. c \<notin> set cs) s = take (k - i) s"
proof (induction s arbitrary: i)
  case (Cons c s)
  show ?case
  proof (cases "c \<in> set cs")
    case False
    with Cons.IH [of "Suc i"] show ?thesis by (auto simp: Suc_diff_le Suc_le_eq take_Cons' split: option.splits)
  qed simp
qed simp

lemma first_line: "take_pos s (find_first_of s CRLF (Some 0)) = takeWhile (\<lambda>c. c \<noteq> CR \<and> c \<noteq> LF) s"
proof -
  have "(\<lambda>c. c \<notin> set CRLF) = (\<lambda>c. c \<noteq> CR \<and> c \<noteq> LF)" by (rule ext) simp
  with find_first_aux_takeWhile [of CRLF s 0] show ?thesis
    unfolding take_pos_def find_first_of_def by (cases "find_first_aux CRLF s 0") (simp_all del: takeWhile_eq_all_conv)
qed

text \<open>
  C24: a reply of the origin is passed on unchanged with status \<open>OK\<close>, unless the program faults. But the status
  that is recorded for it is not read from the reply: it is decided by the second word of whatever the
  freed storage of the reply's first line reads as, and stays unset if there is none or it is 302.
\<close>

theorem Proxy_status_from_freed:
  assumes "sendRequestToOrigin net h req (rq_uri req) = Some (Answer s, h')"
    and "s \<noteq> ''RequestHandler::Error''" and "s \<noteq> []"
  shows "case freed (takeWhile (\<lambda>c. c \<noteq> CR \<and> c \<noteq> LF) s) of
      None \<Rightarrow> Proxy_HandleRequest freed tok net h req fresh_response = Some (None, h')
    | Some bytes \<Rightarrow> \<exists>r. Proxy_HandleRequest freed tok net h req fresh_response = Some (Some (OK, r), h') \<and>
        ToString mem r = Some s \<and>
        GetStatus r =
          (let ws = tok bytes '' '' in
           if length ws < 2 \<or> ws ! 1 = ''302'' then None
           else if ws ! 1 = ''200'' then Some ok
           else if ws ! 1 \<in> {''404'', ''500''} then Some not_found
           else Some internal_server_error)"
proof -
  show ?thesis
  proof (cases "freed (takeWhile (\<lambda>c. c \<noteq> CR \<and> c \<noteq> LF) s)")
    case None
    with assms show ?thesis
      by (simp add: Proxy_HandleRequest_def getRemoteResponseCode_def tokenGenerator_def first_line)
  next
    case (Some bytes)
    let ?code = "case second_token (tok bytes '' '') of None \<Rightarrow> [] | Some code \<Rightarrow> map_code code"
    let ?r = "SetFullResponse s (set_proxy_status ?code fresh_response)"
    have "Proxy_HandleRequest freed tok net h req fresh_response = Some (Some (OK, ?r), h')"
      using assms Some by (simp add: Proxy_HandleRequest_def getRemoteResponseCode_def tokenGenerator_def first_line)
    moreover have "ToString mem ?r = Some s"
      using assms(3) by (simp add: ToString_def SetFullResponse_def)
    moreover have "GetStatus ?r =
        (let ws = tok bytes '' '' in
           if length ws < 2 \<or> ws ! 1 = ''302'' then None
           else if ws ! 1 = ''200'' then Some ok
           else if ws ! 1 \<in> {''404'', ''500''} then Some not_found
           else Some internal_server_error)"
      by (auto simp: second_token_def map_code_def set_proxy_status_def response_defs Let_def)
    ultimately show ?thesis using Some by auto
  qed
qed

text \<open>An origin answers 404, and the freed storage reads as another line.\<close>

lemma dead_reply:
  "sendRequestToOrigin (two_redirects\<lparr>net_read := \<lambda>n i. Some (''HTTP/1.0 404 Not Found'', Ec_eof)\<rparr>)
    \<lparr>rp_original_uri_prefix = ''/p'', rp_remote_host = ''o'', rp_remote_port = ''80''\<rparr>
    ((new_request 0)\<lparr>rq_raw := ''G /p H Host'' @ CRLF\<rparr>) (rq_uri ((new_request 0)\<lparr>rq_raw := ''G /p H Host'' @ CRLF\<rparr>))
   = Some (Answer ''HTTP/1.0 404 Not Found'', \<lparr>rp_original_uri_prefix = ''/p'', rp_remote_host = ''o'', rp_remote_port = ''80''\<rparr>)"
  by code_simp

theorem Proxy_status_from_freed_witness:
  "case Some ''HTTP/1.0 200 Dead'' of
      None \<Rightarrow> Proxy_HandleRequest (\<lambda>_. Some ''HTTP/1.0 200 Dead'') (\<lambda>s sep. [take 8 s, take 3 (drop 9 s)])
        (two_redirects\<lparr>net_read := \<lambda>n i. Some (''HTTP/1.0 404 Not Found'', Ec_eof)\<rparr>)
        \<lparr>rp_original_uri_prefix = ''/p'', rp_remote_host = ''o'', rp_remote_port = ''80''\<rparr>
        ((new_request 0)\<lparr>rq_raw := ''G /p H Host'' @ CRLF\<rparr>) fresh_response = Some (None,
        \<lparr>rp_original_uri_prefix = ''/p'', rp_remote_host = ''o'', rp_remote_port = ''80''\<rparr>)
    | Some bytes \<Rightarrow> \<exists>r. Proxy_HandleRequest (\<lambda>_. Some ''HTTP/1.0 200 Dead'') (\<lambda>s sep. [take 8 s, take 3 (drop 9 s)])
        (two_redirects\<lparr>net_read := \<lambda>n i. Some (''HTTP/1.0 404 Not Found'', Ec_eof)\<rparr>)
        \<lparr>rp_original_uri_prefix = ''/p'', rp_remote_host = ''o'', rp_remote_port = ''80''\<rparr>
        ((new_request 0)\<lparr>rq_raw := ''G /p H Host'' @ CRLF\<rparr>) fresh_response = Some (Some (OK, r),
        \<lparr>rp_original_uri_prefix = ''/p'', rp_remote_host = ''o'', rp_remote_port = ''80''\<rparr>) \<and>
        ToString [] r = Some ''HTTP/1.0 404 Not Found'' \<and> GetStatus r = Some ok"
  using Proxy_status_from_freed [of "two_redirects\<lparr>net_read := \<lambda>n i. Some (''HTTP/1.0 404 Not Found'', Ec_eof)\<rparr>"
    "\<lparr>rp_original_uri_prefix = ''/p'', rp_remote_host = ''o'', rp_remote_port = ''80''\<rparr>"
    "(new_request 0)\<lparr>rq_raw := ''G /p H Host'' @ CRLF\<rparr>" "''HTTP/1.0 404 Not Found''"
    "\<lparr>rp_original_uri_prefix = ''/p'', rp_remote_host = ''o'', rp_remote_port = ''80''\<rparr>"
    "\<lambda>_. Some ''HTTP/1.0 200 Dead''" "\<lambda>s sep. [take 8 s, take 3 (drop 9 s)]" "[]", OF dead_reply]
  by simp

end
