(* ===== verification/Server_Config.thy ===== *)
theory Server_Config
  imports Static_File Reverse_Proxy
begin

text \<open>
  \<open>server_config_parser.cc\<close>: the request handlers and the port of a parsed configuration. The
  virtual \<open>Init\<close> is a case distinction over the class of the handler. Reading \<open>tokens[0]\<close> or
  \<open>tokens[1]\<close> of a statement with fewer tokens is undefined behaviour in the source; it is the
  value \<open>None\<close> here.
\<close>

subsection \<open>The definitions\<close>

fun handler_Init :: "handler \<Rightarrow> string \<Rightarrow> NginxConfig \<Rightarrow> Status \<times> handler" where
  "handler_Init EchoHandler p c = (Echo_Init p c, EchoHandler)"
| "handler_Init NotFoundHandler p c = (NotFound_Init p c, NotFoundHandler)"
| "handler_Init StatusHandler p c = (Status_Init p c, StatusHandler)"
| "handler_Init (StaticFileHandler h) p c =
     (case Static_Init h p c of (st, h') \<Rightarrow> (st, StaticFileHandler h'))"
| "handler_Init (ReverseProxyHandler h) p c =
     (case Proxy_Init h p c of (st, h') \<Rightarrow> (st, ReverseProxyHandler h'))"

type_synonym handler_maps = "handler smap \<times> string smap"

text \<open>
  A handler of the given class, initialized for a prefix with the child block of a statement;
  \<open>None\<close> when the class is unknown, the block missing or the initialization fails.
\<close>

definition make_handler :: "string \<Rightarrow> string \<Rightarrow> NginxConfig option \<Rightarrow> handler option" where
  "make_handler type uri_prefix child =
     (case CreateByName type of None \<Rightarrow> None
      | Some h \<Rightarrow>
          (case child of None \<Rightarrow> None
           | Some c \<Rightarrow> (case handler_Init h uri_prefix c of (OK, h') \<Rightarrow> Some h' | (Error, _) \<Rightarrow> None)))"

definition add_handler ::
    "handler option \<Rightarrow> string \<Rightarrow> string \<Rightarrow> string \<Rightarrow> handler_maps \<Rightarrow> handler_maps" where
  "add_handler h key info_key name m =
     (case m of (handlers, info) \<Rightarrow>
        case h of None \<Rightarrow> (handlers, info)
        | Some h' \<Rightarrow> (smap_insert key h' handlers, smap_assign info_key name info))"

definition handler_statement :: "NginxConfigStatement \<Rightarrow> handler_maps \<Rightarrow> handler_maps" where
  "handler_statement s m =
     (let ts = tokens s in
      if length ts > 0 then
        if ts ! 0 = ''path'' then
          (if length ts > 2
           then add_handler (make_handler (ts ! 2) (ts ! 1) (child_block s)) (ts ! 1) (ts ! 1) (ts ! 2) m
           else m)
        else if ts ! 0 = ''default'' then
          (if length ts > 1
           then add_handler (make_handler (ts ! 1) [] (child_block s)) [] ''(default)'' (ts ! 1) m
           else m)
        else m
      else m)"

text \<open>The out-parameters are passed in and returned; the count is the size of the first map.\<close>

definition ParseRequestHandlers :: "NginxConfig \<Rightarrow> handler_maps \<Rightarrow> nat \<times> handler_maps" where
  "ParseRequestHandlers config m =
     (case fold handler_statement config m of (handlers, info) \<Rightarrow>
        let (handlers', info') =
          (if smap_find handlers [] = None
           then (smap_insert [] NotFoundHandler handlers,
                 smap_assign ''(default)'' ''NotFoundHandler'' info)
           else (handlers, info))
        in (length handlers', handlers', info'))"

fun port_loop :: "NginxConfig \<Rightarrow> int \<Rightarrow> int option" where
  "port_loop [] port = Some port"
| "port_loop (s # ss) port =
     (case tokens s of [] \<Rightarrow> None
      | t # ts \<Rightarrow>
          if t = ''port'' \<and> port = -1 then
            (case ts of [] \<Rightarrow> None
             | v # _ \<Rightarrow>
                 (case stoi v of
                    Inl _ \<Rightarrow> port_loop ss port
                  | Inr p \<Rightarrow> port_loop ss (if p \<ge> 0 \<and> p \<le> 65535 then p else port)))
          else port_loop ss port)"

definition ParseServerSettings :: "NginxConfig \<Rightarrow> int option" where
  "ParseServerSettings config = port_loop config (-1)"

text \<open>The constructor parses the file and goes on with what it left, whatever the verdict.\<close>

definition NginxServerConfigParser :: "(string \<Rightarrow> string option) \<Rightarrow> string \<Rightarrow> NginxConfig option" where
  "NginxServerConfigParser fs name = map_option snd (Parse_file fs name)"

subsection \<open>The port\<close>

lemma port_loop_range:
  assumes "port_loop ss port = Some p" "port = -1 \<or> (0 \<le> port \<and> port \<le> 65535)"
  shows "p = -1 \<or> (0 \<le> p \<and> p \<le> 65535)"
  using assms by (induction ss port rule: port_loop.induct)
    (auto split: list.splits if_splits sum.splits)

text \<open>The statements that set the port, in the sense of the loop.\<close>

definition valid_port :: "NginxConfigStatement \<Rightarrow> bool" where
  "valid_port s \<longleftrightarrow> (\<exists>v ts p. tokens s = ''port'' # v # ts \<and> stoi v = Inr p \<and> 0 \<le> p \<and> p \<le> 65535)"

lemma port_loop_set:
  assumes "\<And>s. s \<in> set ss \<Longrightarrow> tokens s \<noteq> []" "port \<noteq> -1"
  shows "port_loop ss port = Some port"
  using assms by (induction ss port rule: port_loop.induct) (auto split: list.splits)

lemma port_loop_None_iff:
  assumes "\<And>s. s \<in> set ss \<Longrightarrow> tokens s \<noteq> []"
  shows "port_loop ss (-1) = None \<longleftrightarrow>
    (\<exists>xs s ys. ss = xs @ s # ys \<and> tokens s = [''port''] \<and> \<not> list_ex valid_port xs)"
  using assms
proof (induction ss)
  case Nil
  then show ?case by simp
next
  case (Cons s ss)
  have split: "(\<exists>xs s' ys. s # ss = xs @ s' # ys \<and> tokens s' = [''port''] \<and> \<not> list_ex valid_port xs)
    \<longleftrightarrow> tokens s = [''port''] \<or> (\<not> valid_port s \<and>
         (\<exists>xs s' ys. ss = xs @ s' # ys \<and> tokens s' = [''port''] \<and> \<not> list_ex valid_port xs))"
    (is "?L \<longleftrightarrow> ?R")
  proof
    assume ?L
    then obtain xs s' ys where *: "s # ss = xs @ s' # ys" "tokens s' = [''port'']" "\<not> list_ex valid_port xs"
      by blast
    then show ?R by (cases xs) auto
  next
    assume ?R
    then show ?L
    proof
      assume "tokens s = [''port'']"
      then show ?L by (intro exI [of _ "[]"]) simp
    next
      assume *: "\<not> valid_port s \<and>
         (\<exists>xs s' ys. ss = xs @ s' # ys \<and> tokens s' = [''port''] \<and> \<not> list_ex valid_port xs)"
      then obtain xs s' ys where "ss = xs @ s' # ys" "tokens s' = [''port'']" "\<not> list_ex valid_port xs"
        by blast
      with * show ?L by (intro exI [of _ "s # xs"]) simp
    qed
  qed
  from Cons have IH: "port_loop ss (-1) = None \<longleftrightarrow>
      (\<exists>xs s ys. ss = xs @ s # ys \<and> tokens s = [''port''] \<and> \<not> list_ex valid_port xs)" by simp
  from Cons.prems obtain t ts where ts: "tokens s = t # ts" by (meson list.set_intros(1) neq_Nil_conv)
  show ?case
  proof (cases "t = ''port''")
    case False
    with ts show ?thesis unfolding split by (simp add: IH valid_port_def)
  next
    case True
    show ?thesis
    proof (cases ts)
      case Nil
      with True ts show ?thesis unfolding split by simp
    next
      case (Cons v vs)
      with True ts port_loop_set [of ss] Cons.prems show ?thesis
        unfolding split by (cases "stoi v") (auto simp: IH valid_port_def)
    qed
  qed
qed
text \<open>
  On a configuration as the parser leaves it, the port is -1 or a valid port number, and the
  only way to read a missing token is a statement \<open>port;\<close> that no statement with a valid port
  precedes.
\<close>

theorem ParseServerSettings_port:
  assumes "wf_config config"
  shows "case ParseServerSettings config of
      Some p \<Rightarrow> p = -1 \<or> (0 \<le> p \<and> p \<le> 65535)
    | None \<Rightarrow> \<exists>xs s ys. config = xs @ s # ys \<and> tokens s = [''port''] \<and> \<not> list_ex valid_port xs"
proof (cases "ParseServerSettings config")
  case None
  have "tokens s \<noteq> []" if "s \<in> set config" for s
  proof -
    have "wf_statement s" using that assms by (simp add: wf_config_def)
    then show ?thesis by (cases s) simp
  qed
  with None show ?thesis using port_loop_None_iff [of config] by (simp add: ParseServerSettings_def)
next
  case (Some p)
  then show ?thesis using port_loop_range [of config "-1" p] by (simp add: ParseServerSettings_def)
qed

theorem ParseServerSettings_port_witness:
  "case ParseServerSettings [Statement [''port'', ''8080''] None, Statement [''port''] None] of
      Some p \<Rightarrow> p = -1 \<or> (0 \<le> p \<and> p \<le> 65535)
    | None \<Rightarrow> \<exists>xs s ys. [Statement [''port'', ''8080''] None, Statement [''port''] None] = xs @ s # ys
        \<and> tokens s = [''port''] \<and> \<not> list_ex valid_port xs"
  by (rule ParseServerSettings_port) (simp add: wf_config_def)

subsection \<open>The handlers\<close>

text \<open>
  The entries a configuration contributes, in order: the key in the map of handlers, the key on
  the status page, the handler and its class name.
\<close>

definition handler_entry :: "NginxConfigStatement \<Rightarrow> (string \<times> string \<times> handler \<times> string) option" where
  "handler_entry s =
     (case tokens s of
        t # u # ts \<Rightarrow>
          if t = ''path'' then
            (case ts of [] \<Rightarrow> None
             | name # _ \<Rightarrow> map_option (\<lambda>h. (u, u, h, name)) (make_handler name u (child_block s)))
          else if t = ''default''
          then map_option (\<lambda>h. ([], ''(default)'', h, u)) (make_handler u [] (child_block s))
          else None
      | _ \<Rightarrow> None)"

abbreviation handler_entries :: "NginxConfig \<Rightarrow> (string \<times> string \<times> handler \<times> string) list" where
  "handler_entries config \<equiv> List.map_filter handler_entry config"

definition entry_handlers :: "NginxConfig \<Rightarrow> (string \<times> handler) list" where
  "entry_handlers config = map (\<lambda>(k, _, h, _). (k, h)) (handler_entries config)"

definition entry_names :: "NginxConfig \<Rightarrow> (string \<times> string) list" where
  "entry_names config = map (\<lambda>(_, k, _, n). (k, n)) (handler_entries config)"

lemma handler_statement_entry:
  "handler_statement s (hs, info) =
     (case handler_entry s of None \<Rightarrow> (hs, info)
      | Some (k, ik, h, n) \<Rightarrow> (smap_insert k h hs, smap_assign ik n info))"
proof (cases "tokens s")
  case (Cons t us)
  note t = this
  show ?thesis
  proof (cases us)
    case (Cons u ts)
    with t show ?thesis
      by (cases ts) (auto simp: handler_statement_def handler_entry_def add_handler_def Let_def
          split: option.splits)
  qed (use t in \<open>simp add: handler_statement_def handler_entry_def Let_def\<close>)
qed (simp add: handler_statement_def handler_entry_def)

lemma fold_handler_statement:
  "fold handler_statement config (hs, info) =
     (fold (\<lambda>(k, h). smap_insert k h) (entry_handlers config) hs,
      fold (\<lambda>(k, n). smap_assign k n) (entry_names config) info)"
proof (induction config arbitrary: hs info)
  case (Cons s config)
  then show ?case
    by (cases "handler_entry s")
      (auto simp: handler_statement_entry entry_handlers_def entry_names_def List.map_filter_simps
        split: prod.splits)
qed (simp add: entry_handlers_def entry_names_def List.map_filter_simps)

lemma ParseRequestHandlers_eq:
  "ParseRequestHandlers config ([], []) =
     (let hs = fold (\<lambda>(k, h). smap_insert k h) (entry_handlers config) [];
          info = fold (\<lambda>(k, n). smap_assign k n) (entry_names config) []
      in if smap_find hs [] = None
         then (length (smap_insert [] NotFoundHandler hs), smap_insert [] NotFoundHandler hs,
               smap_assign ''(default)'' ''NotFoundHandler'' info)
         else (length hs, hs, info))"
  by (simp add: ParseRequestHandlers_def fold_handler_statement Let_def)

lemma find_entry_handlers:
  "smap_find (fold (\<lambda>(k, h). smap_insert k h) (entry_handlers config) []) p
     = map_of (entry_handlers config) p"
  by (simp add: smap.find_fold_insert)

lemma find_entry_names:
  "smap_find (fold (\<lambda>(k, n). smap_assign k n) (entry_names config) []) p
     = map_of (rev (entry_names config)) p"
  by (simp add: smap.find_fold_assign split: option.splits)

text \<open>
  What a handler in the map promises: it was initialized for the prefix it is filed under.
\<close>

fun handler_ok :: "string \<Rightarrow> handler \<Rightarrow> bool" where
  "handler_ok p (StaticFileHandler h) \<longleftrightarrow> sf_path_prefix h = p \<and> sf_root h \<noteq> []"
| "handler_ok p (ReverseProxyHandler h) \<longleftrightarrow>
     rp_original_uri_prefix h = p \<and> rp_remote_host h \<noteq> [] \<and> rp_remote_port h \<noteq> []"
| "handler_ok p _ \<longleftrightarrow> True"

lemma handler_Init_ok: "handler_Init h p c = (OK, h') \<Longrightarrow> handler_ok p h'"
  by (cases h) (auto simp: handler_defs Static_Init_def Proxy_Init_def Let_def split: if_splits)

lemma make_handler_ok: "make_handler type p child = Some h \<Longrightarrow> handler_ok p h"
  by (auto simp: make_handler_def handler_Init_ok split: option.splits prod.splits Status.splits)

lemma handler_entry_ok: "handler_entry s = Some (p, ik, h, n) \<Longrightarrow> handler_ok p h"
  by (auto simp: handler_entry_def make_handler_ok split: list.splits if_splits)

lemma entry_handlers_ok: "(p, h) \<in> set (entry_handlers config) \<Longrightarrow> handler_ok p h"
  by (auto simp: entry_handlers_def List.map_filter_def handler_entry_ok)

lemma ParseRequestHandlers_ok_lemma:
  assumes "ParseRequestHandlers config ([], []) = (n, hs, info)" "smap_find hs p = Some h"
  shows "handler_ok p h"
proof -
  have s: "smap_sorted (fold (\<lambda>(k, h). smap_insert k h) (entry_handlers config) [])"
    by (rule smap.invar_fold_insert) simp
  have "h = NotFoundHandler \<or> map_of (entry_handlers config) p = Some h"
    using assms smap.find_insert_new [OF s]
    by (auto simp: ParseRequestHandlers_eq Let_def find_entry_handlers split: if_splits)
  then show ?thesis using entry_handlers_ok map_of_SomeD by fastforce
qed

lemma ParseRequestHandlers_default_lemma:
  assumes "ParseRequestHandlers config ([], []) = (n, hs, info)"
  shows "smap_find hs [] \<noteq> None"
proof -
  have s: "smap_sorted (fold (\<lambda>(k, h). smap_insert k h) (entry_handlers config) [])"
    by (rule smap.invar_fold_insert) simp
  show ?thesis
    using assms smap.find_insert_new [OF s]
    by (auto simp: ParseRequestHandlers_eq Let_def find_entry_handlers split: if_splits)
qed

text \<open>
  C21: a prefix is served by the first valid statement for it, while the status page shows the
  last; the empty prefix always has a handler, the not-found one when no default is configured;
  every handler was initialized for the prefix it is filed under; and the map is sorted by its keys.
\<close>

theorem ParseRequestHandlers_maps:
  "\<exists>n hs info. ParseRequestHandlers config ([], []) = (n, hs, info) \<and> n = length hs \<and> smap_sorted hs \<and>
     smap_find hs p =
       (if p = [] \<and> map_of (entry_handlers config) [] = None then Some NotFoundHandler
        else map_of (entry_handlers config) p) \<and>
     pred_option (handler_ok p) (smap_find hs p) \<and>
     smap_find info p =
       (if p = ''(default)'' \<and> map_of (entry_handlers config) [] = None then Some ''NotFoundHandler''
        else map_of (rev (entry_names config)) p)"
proof -
  define hs where "hs = fold (\<lambda>(k, h). smap_insert k h) (entry_handlers config) []"
  define info where "info = fold (\<lambda>(k, n). smap_assign k n) (entry_names config) []"
  have s: "smap_sorted hs" unfolding hs_def by (rule smap.invar_fold_insert) simp
  have i: "smap_sorted info" unfolding info_def by (rule smap.invar_fold_assign) simp
  have f: "smap_find hs k = map_of (entry_handlers config) k" for k
    by (simp add: hs_def find_entry_handlers)
  have g: "smap_find info k = map_of (rev (entry_names config)) k" for k
    by (simp add: info_def find_entry_names)
  have eq: "ParseRequestHandlers config ([], []) =
      (if smap_find hs [] = None
       then (length (smap_insert [] NotFoundHandler hs), smap_insert [] NotFoundHandler hs,
             smap_assign ''(default)'' ''NotFoundHandler'' info)
       else (length hs, hs, info))"
    by (simp add: ParseRequestHandlers_eq hs_def info_def Let_def)
  have h: "pred_option (handler_ok p) (smap_find hs' p)" if "ParseRequestHandlers config ([], []) = (n, hs', info')" for n hs' info'
    using ParseRequestHandlers_ok_lemma [OF that] by (cases "smap_find hs' p") simp_all
  show ?thesis
  proof (cases "map_of (entry_handlers config) [] = None")
    case True
    with f eq have p: "ParseRequestHandlers config ([], []) =
      (length (smap_insert [] NotFoundHandler hs), smap_insert [] NotFoundHandler hs,
       smap_assign ''(default)'' ''NotFoundHandler'' info)" by simp
    with True h [OF p] show ?thesis
      using smap.find_insert_new [OF s] smap.invar_insert_new [OF s] smap.find_assign [OF i] f g by simp
  next
    case False
    then have d: "smap_find hs [] \<noteq> None" by (simp add: f)
    with eq have p: "ParseRequestHandlers config ([], []) = (length hs, hs, info)" by simp
    with False s h [OF p] show ?thesis by (simp add: f g del: not_None_eq)
  qed
qed

text \<open>
  Every handler in the map was initialized for the prefix it is filed under: a static file
  handler has that prefix and a root, a proxy handler that prefix, a remote host and a port.
\<close>

theorem ParseRequestHandlers_ok:
  assumes "ParseRequestHandlers config ([], []) = (n, hs, info)" and "smap_find hs p = Some h"
  shows "handler_ok p h"
  using assms by (rule ParseRequestHandlers_ok_lemma)

theorem ParseRequestHandlers_ok_witness:
  "handler_ok ''/s'' (StaticFileHandler \<lparr>sf_path_prefix = ''/s'', sf_root = ''www''\<rparr>)"
  by (rule ParseRequestHandlers_ok
      [where config = "[Statement [''path'', ''/s'', ''StaticFileHandler'']
         (Some [Statement [''root'', ''www''] None])]"
       and n = 2 and info = "[(''(default)'', ''NotFoundHandler''), (''/s'', ''StaticFileHandler'')]"
       and hs = "[([], NotFoundHandler),
         (''/s'', StaticFileHandler \<lparr>sf_path_prefix = ''/s'', sf_root = ''www''\<rparr>)]"])
    (code_simp, simp)

end
