(* ===== verification/Server.thy ===== *)
theory Server
  imports Server_Config
begin

text \<open>
  \<open>server.h\<close>, \<open>server.cc\<close> and \<open>main.cc\<close>. A session is a thread; what its socket delivers is a
  list of blocks, after which reading gives an error. The code between two accesses to the
  server singleton is one function each: \<open>on_read\<close> for the parsing half of \<open>do_read\<close>,
  \<open>find_handler\<close> for the choice of a handler, \<open>handler_HandleRequest\<close> for the virtual call,
  \<open>do_write\<close> for the reply. \<open>server_step\<close> interleaves the sessions and has one rule per access
  to the mutex. The bytes after the constant \<open>crlf\<close> in memory (\<open>mem\<close>) and the value an
  uninitialized status is read as (\<open>junk\<close>) are parameters. A virtual call of a handler other
  than the status page is one step; two calls of one proxy handler at the same time race on its
  remote host in the source, which the interleaving does not show. Operations of the socket that throw
  are not modelled: a client that resets its connection before the reply is written ends the
  process by an exception in \<open>do_write\<close>.
\<close>

subsection \<open>Choosing the handler\<close>

text \<open>
  The loop that shortens the path; \<open>None\<close> is a loop that never ends. The value is the prefix
  under which a handler is found, with the handler.
\<close>

partial_function (option) find_handler :: "handler smap \<Rightarrow> string \<Rightarrow> (string \<times> handler) option" where
  "find_handler hs path_prefix =
     (case smap_find hs path_prefix of
        Some h \<Rightarrow> Some (path_prefix, h)
      | None \<Rightarrow>
          (let slash_pos = find_last_of path_prefix (CHR ''/'');
               p1 = take (pos_inc slash_pos) path_prefix
           in case smap_find hs p1 of
                Some h \<Rightarrow> Some (p1, h)
              | None \<Rightarrow> find_handler hs (take_pos p1 slash_pos)))"

declare find_handler.simps [code]

subsection \<open>The virtual call\<close>

record 'v server_env =
  se_static :: "'v static_env"
  se_freed :: freed_storage
  se_tok :: tokenizer
  se_net :: network
  se_mem :: string
  se_junk :: int

text \<open>\<open>None\<close>: does not return; \<open>Some (None, _)\<close>: an exception or a fault; the proxy may change its own host.\<close>

fun handler_HandleRequest ::
    "'v server_env \<Rightarrow> server_info \<Rightarrow> handler \<Rightarrow> request \<Rightarrow> response
      \<Rightarrow> ((Status \<times> response) option \<times> handler) option" where
  "handler_HandleRequest env s EchoHandler req res =
     Some (Some (Echo_HandleRequest req res), EchoHandler)"
| "handler_HandleRequest env s NotFoundHandler req res =
     Some (Some (NotFound_HandleRequest req res), NotFoundHandler)"
| "handler_HandleRequest env s StatusHandler req res =
     Some (Some (Status_HandleRequest s req res), StatusHandler)"
| "handler_HandleRequest env s (StaticFileHandler h) req res =
     Some (Static_HandleRequest (se_static env) h req res, StaticFileHandler h)"
| "handler_HandleRequest env s (ReverseProxyHandler h) req res =
     (case Proxy_HandleRequest (se_freed env) (se_tok env) (se_net env) h req res of
        None \<Rightarrow> None | Some (r, h') \<Rightarrow> Some (r, ReverseProxyHandler h'))"

subsection \<open>One session\<close>

datatype phase =
    Reading parser_tls
  | Handling request string
  | Status_critical request
  | Writing string response
  | Logging string response string
  | Sending string
  | Finished
  | Closed
  | Crashed
  | Looping

definition bad_request_reply :: phase where
  "bad_request_reply = Writing ''(bad request)'' (DefaultResponse bad_request)"

text \<open>The part of \<open>do_read\<close> after \<open>read_some\<close> has delivered a block, up to the virtual call.\<close>

definition on_read :: "handler smap \<Rightarrow> parser_tls \<Rightarrow> string \<Rightarrow> phase" where
  "on_read hs t block =
     (case Parse block t of
        None \<Rightarrow> Crashed
      | Some (r, t') \<Rightarrow>
          (case GetParseResult t' of
             good \<Rightarrow>
               (case r of None \<Rightarrow> Crashed
                | Some req \<Rightarrow>
                    if rq_path req = [] then bad_request_reply
                    else (case find_handler hs (rq_path req) of
                            None \<Rightarrow> Looping
                          | Some (p, _) \<Rightarrow> Handling req p))
           | bad \<Rightarrow> bad_request_reply
           | indeterminate \<Rightarrow> Reading t'))"

text \<open>The reply for what the handler returned, status 500 unless it is \<open>OK\<close>.\<close>

definition reply_of :: "request \<Rightarrow> (Status \<times> response) option \<Rightarrow> phase" where
  "reply_of req r =
     (case r of None \<Rightarrow> Crashed
      | Some (OK, res) \<Rightarrow> Writing (rq_uri req) res
      | Some (Error, _) \<Rightarrow> Writing (rq_uri req) (DefaultResponse internal_server_error))"

text \<open>
  \<open>do_write\<close>: the bytes are formed first, then the request is recorded under the mutex, then
  the bytes are sent. Forming the bytes from an uninitialized status is undefined.
\<close>

definition form_bytes :: "'v server_env \<Rightarrow> string \<Rightarrow> response \<Rightarrow> phase" where
  "form_bytes env uri res =
     (case ToString (se_mem env) res of None \<Rightarrow> Crashed | Some b \<Rightarrow> Logging uri res b)"

definition record_request :: "'v server_env \<Rightarrow> string \<Rightarrow> response \<Rightarrow> server_info \<Rightarrow> server_info" where
  "record_request env uri res s =
     s\<lparr>si_requests := si_requests s @
         [(uri, case GetStatus res of Some c \<Rightarrow> code_of c | None \<Rightarrow> se_junk env)]\<rparr>"

text \<open>A session run alone: the blocks its socket delivers, then an error.\<close>

datatype session_result = No_reply | Replied string | Undefined_behaviour | Never_ends

definition do_write :: "'v server_env \<Rightarrow> server_info \<Rightarrow> string \<Rightarrow> response \<Rightarrow> session_result \<times> server_info" where
  "do_write env s uri res =
     (case form_bytes env uri res of
        Logging _ _ b \<Rightarrow> (Replied b, record_request env uri res s)
      | _ \<Rightarrow> (Undefined_behaviour, s))"

fun do_read ::
    "'v server_env \<Rightarrow> handler smap \<Rightarrow> server_info \<Rightarrow> parser_tls \<Rightarrow> string list
      \<Rightarrow> session_result \<times> server_info \<times> handler smap" where
  "do_read env hs s t [] = (No_reply, s, hs)"
| "do_read env hs s t (block # blocks) =
     (case on_read hs t block of
        Reading t' \<Rightarrow> do_read env hs s t' blocks
      | Writing uri res \<Rightarrow> (case do_write env s uri res of (r, s') \<Rightarrow> (r, s', hs))
      | Handling req p \<Rightarrow>
          (case smap_find hs p of
             None \<Rightarrow> (Undefined_behaviour, s, hs)
           | Some h \<Rightarrow>
               (case handler_HandleRequest env s h req fresh_response of
                  None \<Rightarrow> (Never_ends, s, hs)
                | Some (r, h') \<Rightarrow>
                    (case reply_of req r of
                       Writing uri res \<Rightarrow>
                         (case do_write env s uri res of (x, s') \<Rightarrow> (x, s', smap_assign p h' hs))
                     | _ \<Rightarrow> (Undefined_behaviour, s, smap_assign p h' hs))))
      | Looping \<Rightarrow> (Never_ends, s, hs)
      | _ \<Rightarrow> (Undefined_behaviour, s, hs))"

subsection \<open>The server\<close>

record server =
  sv_info :: server_info
  sv_handlers :: "handler smap"
  sv_lock :: "nat option"
  sv_threads :: "nat \<Rightarrow> phase option"

definition set_phase :: "nat \<Rightarrow> phase \<Rightarrow> server \<Rightarrow> server" where
  "set_phase i ph s = s\<lparr>sv_threads := (sv_threads s)(i \<mapsto> ph)\<rparr>"

definition new_server :: "handler smap \<Rightarrow> string smap \<Rightarrow> server" where
  "new_server hs info =
     \<lparr>sv_info = \<lparr>si_handlerInfo = info, si_requests = []\<rparr>, sv_handlers = hs, sv_lock = None,
      sv_threads = Map.empty\<rparr>"

text \<open>
  \<open>do_accept\<close> makes a thread per client, each with its own parser state. \<open>Lock\<close> and \<open>Unlock\<close>
  bracket the status page and the history.
\<close>

inductive server_step :: "'v server_env \<Rightarrow> server \<Rightarrow> server \<Rightarrow> bool" for env where
  accept: "sv_threads s i = None \<Longrightarrow> server_step env s (set_phase i (Reading init_tls) s)"
| read: "sv_threads s i = Some (Reading t) \<Longrightarrow> on_read (sv_handlers s) t block = ph \<Longrightarrow>
    server_step env s (set_phase i ph s)"
| read_error: "sv_threads s i = Some (Reading t) \<Longrightarrow> server_step env s (set_phase i Closed s)"
| handle: "sv_threads s i = Some (Handling req p) \<Longrightarrow> smap_find (sv_handlers s) p = Some h \<Longrightarrow>
    h \<noteq> StatusHandler \<Longrightarrow>
    handler_HandleRequest env (sv_info s) h req fresh_response = Some (r, h') \<Longrightarrow>
    server_step env s (set_phase i (reply_of req r) (s\<lparr>sv_handlers := smap_assign p h' (sv_handlers s)\<rparr>))"
| status_lock: "sv_threads s i = Some (Handling req p) \<Longrightarrow>
    smap_find (sv_handlers s) p = Some StatusHandler \<Longrightarrow> sv_lock s = None \<Longrightarrow>
    server_step env s (set_phase i (Status_critical req) (s\<lparr>sv_lock := Some i\<rparr>))"
| status_unlock: "sv_threads s i = Some (Status_critical req) \<Longrightarrow>
    server_step env s (set_phase i (reply_of req (Some (Status_HandleRequest (sv_info s) req fresh_response)))
      (s\<lparr>sv_lock := None\<rparr>))"
| write_lock: "sv_threads s i = Some (Writing uri res) \<Longrightarrow> form_bytes env uri res = Logging uri res b \<Longrightarrow>
    sv_lock s = None \<Longrightarrow>
    server_step env s (set_phase i (Logging uri res b) (s\<lparr>sv_lock := Some i\<rparr>))"
| write_undefined: "sv_threads s i = Some (Writing uri res) \<Longrightarrow> form_bytes env uri res = Crashed \<Longrightarrow>
    server_step env s (set_phase i Crashed s)"
| write_unlock: "sv_threads s i = Some (Logging uri res b) \<Longrightarrow>
    server_step env s (set_phase i (Sending b)
      (s\<lparr>sv_info := record_request env uri res (sv_info s), sv_lock := None\<rparr>))"
| send: "sv_threads s i = Some (Sending b) \<Longrightarrow> server_step env s (set_phase i Finished s)"

inductive_cases server_stepE: "server_step env s s'"

text \<open>\<open>main\<close>: exit with a code, run the server, or undefined behaviour while reading the port.\<close>

datatype main_result = Exit int | Run int "handler smap" "string smap"

definition main :: "(string \<Rightarrow> string option) \<Rightarrow> string list \<Rightarrow> main_result option" where
  "main fs argv =
     (if length argv \<noteq> 2 then Some (Exit 1)
      else (case NginxServerConfigParser fs (argv ! 1) of None \<Rightarrow> None
       | Some config \<Rightarrow>
           (case ParseServerSettings config of None \<Rightarrow> None
            | Some port \<Rightarrow>
                if port = -1 then Some (Exit 1)
                else (case ParseRequestHandlers config ([], []) of
                        (_, handlers, info) \<Rightarrow> Some (Run port handlers info)))))"
subsection \<open>The handler chosen is the one of the longest prefix\<close>

text \<open>The prefixes of a path that end at a slash, with or without it, the path and nothing.\<close>

definition slash_prefix :: "string \<Rightarrow> string \<Rightarrow> bool" where
  "slash_prefix q path \<longleftrightarrow> prefix q path \<and>
     (q = path \<or> q = [] \<or> last q = CHR ''/'' \<or> path ! length q = CHR ''/'')"

lemma slash_prefix_self [simp]: "slash_prefix path path"
  by (simp add: slash_prefix_def)

lemma slash_prefix_Nil [simp]: "slash_prefix [] path"
  by (simp add: slash_prefix_def)

lemma slash_prefix_no_slash:
  assumes "find_last_of path (CHR ''/'') = None" "slash_prefix q path"
  shows "q = path \<or> q = []"
proof (rule ccontr)
  assume *: "\<not> (q = path \<or> q = [])"
  with assms obtain rest where rest: "path = q @ rest" "rest \<noteq> []"
    and slash: "last q = CHR ''/'' \<or> path ! length q = CHR ''/''"
    by (auto simp: slash_prefix_def prefix_def)
  moreover from * have "last q \<in> set q" by simp
  ultimately have "CHR ''/'' \<in> set path" by (cases rest) auto
  with assms(1) show False by (simp add: find_last_of_None)
qed

lemma slash_prefix_step:
  assumes k: "find_last_of path (CHR ''/'') = Some k" and q: "slash_prefix q path"
  shows "q = path \<or> q = take (Suc k) path \<or> slash_prefix q (take k path)"
proof -
  from k have lt: "k < length path" and after: "CHR ''/'' \<notin> set (drop (Suc k) path)"
    using find_last_of_Some by blast+
  have at: "i \<le> k" if "path ! i = CHR ''/''" "i < length path" for i
  proof (rule ccontr)
    assume "\<not> i \<le> k"
    then have "drop (Suc k) path ! (i - Suc k) = CHR ''/''" "i - Suc k < length (drop (Suc k) path)"
      using that by auto
    with after show False by (metis nth_mem)
  qed
  from q have qt: "q = take (length q) path" by (auto simp: slash_prefix_def prefix_def)
  consider "q = path" | "q = []" | "q \<noteq> path" "q \<noteq> []" by blast
  then show ?thesis
  proof cases
    case 3
    with q have len: "length q < length path"
      by (auto simp: slash_prefix_def prefix_def)
    have lq: "last q = path ! (length q - 1)"
      using 3 qt len by (metis diff_less last_conv_nth length_greater_0_conv nth_take zero_less_one)
    from q 3 have "last q = CHR ''/'' \<or> path ! length q = CHR ''/''" by (simp add: slash_prefix_def)
    then have "length q \<le> Suc k"
    proof
      assume "last q = CHR ''/''"
      with lq len have "length q - 1 \<le> k" by (intro at) auto
      then show ?thesis by simp
    qed (use at [of "length q"] len in simp)
    then consider "length q = Suc k" | "length q = k" | "length q < k" by linarith
    then show ?thesis
    proof cases
      case 1
      with qt show ?thesis by simp
    next
      case 2
      with qt have "q = take k path" by simp
      then show ?thesis by simp
    next
      case 3
      then have "take (length q) (take k path) = q" using qt by (simp add: min_def)
      then have "prefix q (take k path)" using take_is_prefix [of "length q" "take k path"] by simp
      moreover have "take k path ! length q = path ! length q" using 3 by simp
      ultimately have "slash_prefix q (take k path)"
        using \<open>last q = CHR ''/'' \<or> path ! length q = CHR ''/''\<close> by (simp add: slash_prefix_def)
      then show ?thesis by simp
    qed
  qed auto
qed

lemma slash_prefix_take:
  assumes "find_last_of path (CHR ''/'') = Some k"
  shows "slash_prefix (take (Suc k) path) path" "slash_prefix q (take k path) \<Longrightarrow> slash_prefix q path"
proof -
  from assms have k: "k < length path" "path ! k = CHR ''/''" using find_last_of_Some by blast+
  then have "last (take (Suc k) path) = CHR ''/''" by (simp add: take_Suc_conv_app_nth)
  then show "slash_prefix (take (Suc k) path) path" by (simp add: slash_prefix_def take_is_prefix)
  assume q: "slash_prefix q (take k path)"
  then have "prefix q path" by (auto simp: slash_prefix_def intro: prefix_order.trans take_is_prefix)
  moreover have "length q \<le> k" using q k by (auto simp: slash_prefix_def dest: prefix_length_le)
  moreover have "q = take k path \<Longrightarrow> path ! length q = CHR ''/''" using k by simp
  ultimately show "slash_prefix q path" using q k
    by (cases "length q = k") (auto simp: slash_prefix_def prefix_def)
qed

lemma find_handler_longest:
  assumes "smap_find hs [] \<noteq> None"
  shows "\<exists>p h. find_handler hs path = Some (p, h) \<and> smap_find hs p = Some h \<and> slash_prefix p path \<and>
    (\<forall>q. slash_prefix q path \<and> smap_find hs q \<noteq> None \<longrightarrow> length q \<le> length p)"
proof (induction "length path" arbitrary: path rule: less_induct)
  case less
  show ?case
  proof (cases "smap_find hs path")
    case (Some h)
    then have "find_handler hs path = Some (path, h)" by (simp add: find_handler.simps)
    with Some show ?thesis
      by (auto simp: slash_prefix_def dest: prefix_length_le)
  next
    case None
    show ?thesis
    proof (cases "find_last_of path (CHR ''/'')")
      case n: None
      from assms obtain h where h: "smap_find hs [] = Some h" by auto
      with None n have "find_handler hs path = Some ([], h)"
        by (simp add: find_handler.simps pos_inc_def)
      with h None show ?thesis using slash_prefix_no_slash [OF n] by fastforce
    next
      case (Some k)
      let ?p1 = "take (Suc k) path" and ?p2 = "take k path"
      from Some have k: "k < length path" using find_last_of_Some by blast
      show ?thesis
      proof (cases "smap_find hs ?p1")
        case h: (Some h)
        with None Some have "find_handler hs path = Some (?p1, h)"
          by (simp add: find_handler.simps [of hs path] pos_inc_def)
        moreover have "length q \<le> length ?p1" if "slash_prefix q path" "smap_find hs q \<noteq> None" for q
          using slash_prefix_step [OF Some that(1)] that(2) None k
          by (auto simp: slash_prefix_def dest: prefix_length_le)
        ultimately show ?thesis using h slash_prefix_take(1) [OF Some] by blast
      next
        case n1: None
        from None Some n1 have eq: "find_handler hs path = find_handler hs ?p2"
          by (simp add: find_handler.simps [of hs path] pos_inc_def take_pos_def min_def)
        from k have "length ?p2 < length path" by simp
        from less [OF this] obtain p h where *: "find_handler hs ?p2 = Some (p, h)"
          "smap_find hs p = Some h" "slash_prefix p ?p2"
          "\<forall>q. slash_prefix q ?p2 \<and> smap_find hs q \<noteq> None \<longrightarrow> length q \<le> length p" by blast
        moreover have "length q \<le> length p" if "slash_prefix q path" "smap_find hs q \<noteq> None" for q
          using slash_prefix_step [OF Some that(1)] that(2) None n1 * by auto
        ultimately show ?thesis using eq slash_prefix_take(2) [OF Some] by auto
      qed
    qed
  qed
qed

text \<open>
  As soon as the empty prefix has a handler, the loop that looks for a handler ends for every
  path, and it finds the handler with the longest prefix among those that end at a slash of the
  path.
\<close>

theorem find_handler_correct:
  assumes "smap_find hs [] \<noteq> None"
  shows "\<exists>p h. find_handler hs path = Some (p, h) \<and> smap_find hs p = Some h \<and> slash_prefix p path \<and>
    (\<forall>q. slash_prefix q path \<and> smap_find hs q \<noteq> None \<longrightarrow> length q \<le> length p)"
  using assms by (rule find_handler_longest)

theorem find_handler_correct_witness:
  "\<exists>p h. find_handler [([], NotFoundHandler), (''/a'', EchoHandler)] ''/a/b/c'' = Some (p, h) \<and>
    smap_find [([], NotFoundHandler), (''/a'', EchoHandler)] p = Some h \<and> slash_prefix p ''/a/b/c'' \<and>
    (\<forall>q. slash_prefix q ''/a/b/c'' \<and> smap_find [([], NotFoundHandler), (''/a'', EchoHandler)] q \<noteq> None
      \<longrightarrow> length q \<le> length p)"
  by (rule find_handler_correct) simp
subsection \<open>Sessions do not run into undefined behaviour while dispatching\<close>

text \<open>
  What \<open>main\<close> hands to the server, and every step of the server keeps: a default handler, and
  each handler filed under the prefix it was initialized for.
\<close>

definition handlers_ok :: "handler smap \<Rightarrow> bool" where
  "handlers_ok hs \<longleftrightarrow> smap_sorted hs \<and> smap_find hs [] \<noteq> None \<and>
     (\<forall>p h. smap_find hs p = Some h \<longrightarrow> handler_ok p h)"

lemma smap_sorted_assign_same:
  assumes "smap_sorted m" "smap_find m k = Some v"
  shows "smap_assign k v m = m"
  using assms
proof (induction k v m rule: smap_assign.induct)
  case (2 k v x w m)
  show ?case
  proof (cases "k = x")
    case False
    with 2(3) have f: "smap_find m k = Some v" by auto
    then have "k \<in> fst ` set m" by (induction m k rule: smap_find.induct) (auto split: if_splits)
    with 2(2) have "x < k" by (auto simp: smap_sorted_def)
    with 2 False f show ?thesis by (auto simp: smap_sorted_def)
  qed (use 2 in simp)
qed simp

text \<open>A redirect never leads to the empty host, and following it keeps the other settings.\<close>

lemma redirect_host_nonempty:
  assumes "redirect_host response = Some host"
  shows "host \<noteq> []"
proof -
  from assms obtain l w where l: "str_find response ''Location'' 0 = Some l"
    and w: "str_find response ''www'' l = Some w"
    and host: "substr response w (pos_diff (str_find response ''/'' w) w) = Some host"
    by (auto simp: redirect_host_def Let_def str_find_pos_def split: option.splits)
  from w have "prefix ''www'' (drop w response)"
    using find_from_Some [of "''www''" "drop l response" l w] by (auto simp: str_find_def split: if_splits)
  then obtain rest where rest: "drop w response = ''www'' @ rest" by (auto simp: prefix_def)
  show ?thesis
  proof (cases "str_find response ''/'' w")
    case None
    with host rest show ?thesis by (auto simp: substr_def take_pos_def pos_diff_def split: if_splits)
  next
    case (Some k)
    then have "find_from ''/'' (''www'' @ rest) w = Some k"
      using rest by (auto simp: str_find_def split: if_splits)
    then have "prefix ''/'' (drop (k - w) (''www'' @ rest))" using find_from_Some by blast
    then have "k - w \<noteq> 0" by (cases "k - w") auto
    with host rest Some show ?thesis
      by (cases "k - w") (auto simp: substr_def take_pos_def pos_diff_def split: if_splits)
  qed
qed

lemma attempt_redirect_nonempty:
  assumes "attempt net raw n h = Some (Redirect host)"
  shows "host \<noteq> []"
proof -
  have "\<exists>response. redirect_host response = Some host"
    using assms unfolding attempt_def by (auto split: sum.splits option.splits if_splits)
  then show ?thesis using redirect_host_nonempty by blast
qed

lemma origin_loop_ok:
  assumes "origin_loop net raw n h = Some (r, h')" "handler_ok p (ReverseProxyHandler h)"
  shows "handler_ok p (ReverseProxyHandler h')"
proof -
  have "handler_ok p (ReverseProxyHandler h) \<longrightarrow> handler_ok p (ReverseProxyHandler (snd v))"
    if "origin_loop net raw n h = Some v" for net raw n h v
  proof (rule origin_loop.raw_induct [OF _ that])
    fix f net raw n h v
    assume IH: "\<And>net raw n h v. f net raw n h = Some v \<Longrightarrow>
        handler_ok p (ReverseProxyHandler h) \<longrightarrow> handler_ok p (ReverseProxyHandler (snd v))"
      and eq: "(case attempt net raw n h of None \<Rightarrow> None | Some (Stop r) \<Rightarrow> Some (r, h)
        | Some (Redirect host) \<Rightarrow> f net raw (Suc n) (h\<lparr>rp_remote_host := host\<rparr>)) = Some v"
    show "handler_ok p (ReverseProxyHandler h) \<longrightarrow> handler_ok p (ReverseProxyHandler (snd v))"
      using eq by (auto split: option.splits attempt_result.splits dest!: IH attempt_redirect_nonempty)
  qed
  with assms show ?thesis by fastforce
qed

lemma handler_HandleRequest_ok:
  assumes "handler_HandleRequest env s h req res = Some (r, h')" "handler_ok p h"
  shows "handler_ok p h'"
proof (cases h)
  case (ReverseProxyHandler rp)
  with assms(1) obtain rp' where h': "h' = ReverseProxyHandler rp'"
    and "Proxy_HandleRequest (se_freed env) (se_tok env) (se_net env) rp req res = Some (r, rp')"
    by (auto split: option.splits)
  then have "rp' = rp \<or> (\<exists>raw x. origin_loop (se_net env) raw 0 rp = Some (x, rp'))"
    by (auto simp: Proxy_HandleRequest_def sendRequestToOrigin_def
        split: option.splits proxy_outcome.splits if_splits)
  with h' assms(2) ReverseProxyHandler show ?thesis using origin_loop_ok by blast
qed (use assms in auto)

lemma handlers_ok_assign:
  "handlers_ok hs \<Longrightarrow> handler_ok p h \<Longrightarrow> handlers_ok (smap_assign p h hs)"
  by (auto simp: handlers_ok_def smap_find_assign smap_sorted_assign)

lemma main_handlers_ok:
  assumes "main fs argv = Some (Run port hs info)"
  shows "handlers_ok hs"
proof -
  from assms obtain config n where *: "ParseRequestHandlers config ([], []) = (n, hs, info)"
    by (auto simp: main_def split: if_splits option.splits prod.splits)
  moreover have "smap_sorted hs"
    using * smap.invar_fold_insert [of "[]" "entry_handlers config"] smap.invar_insert_new
    by (auto simp: ParseRequestHandlers_eq Let_def split: if_splits)
  ultimately show ?thesis
    using ParseRequestHandlers_default_lemma ParseRequestHandlers_ok_lemma by (auto simp: handlers_ok_def)
qed
subsection \<open>Invariant of the server\<close>

text \<open>What holds of a session in each phase, the handlers being those of the server.\<close>

fun phase_ok :: "handler smap \<Rightarrow> phase \<Rightarrow> bool" where
  "phase_ok hs (Reading t) \<longleftrightarrow> req_inv (tl_request t)"
| "phase_ok hs (Handling req p) \<longleftrightarrow>
     path_safe (rq_path req) \<and> slash_prefix p (rq_path req) \<and> smap_find hs p \<noteq> None"
| "phase_ok hs Looping \<longleftrightarrow> False"
| "phase_ok hs _ \<longleftrightarrow> True"

fun critical :: "phase \<Rightarrow> bool" where
  "critical (Status_critical _) = True"
| "critical (Logging _ _ _) = True"
| "critical _ = False"

fun replied :: "phase \<Rightarrow> bool" where
  "replied (Sending _) = True"
| "replied Finished = True"
| "replied _ = False"

definition replied_threads :: "server \<Rightarrow> nat set" where
  "replied_threads s = {i. \<exists>ph. sv_threads s i = Some ph \<and> replied ph}"

definition server_inv :: "server \<Rightarrow> bool" where
  "server_inv s \<longleftrightarrow>
     handlers_ok (sv_handlers s) \<and>
     (\<forall>i ph. sv_threads s i = Some ph \<longrightarrow> phase_ok (sv_handlers s) ph) \<and>
     (\<forall>i. sv_lock s = Some i \<longleftrightarrow> (\<exists>ph. sv_threads s i = Some ph \<and> critical ph)) \<and>
     finite (dom (sv_threads s)) \<and>
     length (si_requests (sv_info s)) = card (replied_threads s)"

lemma parse_loop_good:
  assumes "parse_loop xs t = Some (q, t')" "tl_result t = indeterminate"
  shows "tl_result t' = good \<longleftrightarrow> q \<noteq> None"
  using assms
  by (induction xs t rule: parse_loop.induct) (auto split: option.splits prod.splits Result.splits)

lemma on_read_ok:
  assumes hs: "handlers_ok hs" and t: "req_inv (tl_request t)"
  shows "phase_ok hs (on_read hs t block) \<and> \<not> critical (on_read hs t block) \<and> \<not> replied (on_read hs t block)"
proof (cases "Parse block t")
  case (Some v)
  obtain q t' where v: "v = (q, t')" by fastforce
  with Some have P: "Parse block t = Some (q, t')" by simp
  then have inv: "req_inv (tl_request t')" "\<And>r. q = Some r \<Longrightarrow> path_safe (rq_path r)"
    using parse_loop_inv [of "t\<lparr>tl_result := indeterminate\<rparr>" block q t'] t by (auto simp: Parse_def)
  show ?thesis
  proof (cases "tl_result t'")
    case good
    show ?thesis
    proof (cases q)
      case r: (Some r)
      from hs have "smap_find hs [] \<noteq> None" by (simp add: handlers_ok_def)
      from find_handler_longest [OF this, of "rq_path r"] obtain p h where
        "find_handler hs (rq_path r) = Some (p, h)" "smap_find hs p = Some h" "slash_prefix p (rq_path r)"
        by blast
      with P good r inv show ?thesis
        by (auto simp: on_read_def GetParseResult_def bad_request_reply_def)
    qed (use P good in \<open>auto simp: on_read_def GetParseResult_def\<close>)
  qed (use P inv in \<open>auto simp: on_read_def GetParseResult_def bad_request_reply_def\<close>)
qed (simp add: on_read_def)

lemma reply_of_ok: "phase_ok hs (reply_of req r) \<and> \<not> critical (reply_of req r) \<and> \<not> replied (reply_of req r)"
  by (auto simp: reply_of_def split: option.splits prod.splits Status.splits)

lemma phase_ok_mono:
  assumes "phase_ok hs ph" "\<And>p. smap_find hs p \<noteq> None \<Longrightarrow> smap_find hs' p \<noteq> None"
  shows "phase_ok hs' ph"
  using assms by (cases ph) auto

lemma replied_threads_set_phase:
  "replied_threads (set_phase i ph s) =
     (if replied ph then insert i (replied_threads s) else replied_threads s - {i})"
  by (auto simp: replied_threads_def set_phase_def)

lemma finite_replied: "finite (dom (sv_threads s)) \<Longrightarrow> finite (replied_threads s)"
  by (rule finite_subset [of _ "dom (sv_threads s)"]) (auto simp: replied_threads_def)

text \<open>A step that changes one session, neither taking nor giving the mutex nor replying.\<close>

lemma server_inv_set_phase:
  assumes inv: "server_inv s" and ph: "phase_ok (sv_handlers s) ph" "\<not> critical ph" 
    and old: "\<And>ph0. sv_threads s i = Some ph0 \<Longrightarrow> \<not> critical ph0 \<and> replied ph0 = replied ph"
    and new: "sv_threads s i = None \<Longrightarrow> \<not> replied ph"
  shows "server_inv (set_phase i ph s)"
proof -
  have "replied_threads (set_phase i ph s) = replied_threads s"
    using old new unfolding replied_threads_set_phase
    by (cases "sv_threads s i") (auto simp: replied_threads_def)
  then show ?thesis
    using inv ph old by (auto simp: server_inv_def set_phase_def)
qed

lemma server_inv_handlers:
  assumes "server_inv s" "handlers_ok hs'" "\<And>p. smap_find (sv_handlers s) p \<noteq> None \<Longrightarrow> smap_find hs' p \<noteq> None"
  shows "server_inv (s\<lparr>sv_handlers := hs'\<rparr>)"
  using assms phase_ok_mono [of "sv_handlers s" _ hs']
  by (simp add: server_inv_def replied_threads_def)

lemma server_inv_lock:
  assumes inv: "server_inv s" and free: "sv_lock s = None" and ph: "phase_ok (sv_handlers s) ph" "critical ph"
    and old: "sv_threads s i = Some ph0" "\<not> replied ph0"
  shows "server_inv (set_phase i ph (s\<lparr>sv_lock := Some i\<rparr>))"
proof -
  from inv free have none: "\<And>j ph. sv_threads s j = Some ph \<Longrightarrow> \<not> critical ph"
    by (auto simp: server_inv_def)
  from ph(2) have "\<not> replied ph" by (cases ph) auto
  then have "replied_threads (set_phase i ph (s\<lparr>sv_lock := Some i\<rparr>)) = replied_threads s"
    using old unfolding replied_threads_set_phase by (auto simp: replied_threads_def)
  with inv ph none show ?thesis by (auto simp: server_inv_def set_phase_def)
qed

lemma server_inv_unlock:
  assumes inv: "server_inv s" and ph: "phase_ok (sv_handlers s) ph" "\<not> critical ph"
    and old: "sv_threads s i = Some ph0" "critical ph0"
    and req: "length (si_requests info) = length (si_requests (sv_info s)) + (if replied ph then 1 else 0)"
  shows "server_inv (set_phase i ph (s\<lparr>sv_info := info, sv_lock := None\<rparr>))"
proof -
  from old(2) have nr: "\<not> replied ph0" by (cases ph0) auto
  from inv old have lock: "sv_lock s = Some i" by (auto simp: server_inv_def)
  have "i \<notin> replied_threads s" using nr old(1) by (auto simp: replied_threads_def)
  moreover have "replied_threads (s\<lparr>sv_info := info, sv_lock := None\<rparr>) = replied_threads s"
    by (simp add: replied_threads_def)
  ultimately have "card (replied_threads (set_phase i ph (s\<lparr>sv_info := info, sv_lock := None\<rparr>)))
      = card (replied_threads s) + (if replied ph then 1 else 0)"
    using finite_replied [of s] inv unfolding replied_threads_set_phase by (simp add: server_inv_def)
  moreover have "\<not> critical ph'" if "sv_threads s j = Some ph'" "j \<noteq> i" for j ph'
    using that lock inv unfolding server_inv_def by (metis option.inject)
  ultimately show ?thesis using inv ph req by (auto simp: server_inv_def set_phase_def)
qed

lemma server_step_inv:
  assumes "server_step env s s'" "server_inv s"
  shows "server_inv s'"
  using assms
proof (induction rule: server_step.induct)
  case (accept s i)
  then show ?case by (intro server_inv_set_phase) auto
next
  case (read s i t block ph)
  then have "handlers_ok (sv_handlers s)" "phase_ok (sv_handlers s) (Reading t)"
    unfolding server_inv_def by blast+
  with on_read_ok [of "sv_handlers s" t block] read show ?case by (intro server_inv_set_phase) auto
next
  case (read_error s i t)
  then show ?case by (intro server_inv_set_phase) auto
next
  case (handle s i req p h r h')
  then have ok: "handlers_ok (sv_handlers s)" by (simp add: server_inv_def)
  with handle have "handler_ok p h'" using handler_HandleRequest_ok unfolding handlers_ok_def by blast
  with ok have "handlers_ok (smap_assign p h' (sv_handlers s))" by (rule handlers_ok_assign)
  with handle have "server_inv (s\<lparr>sv_handlers := smap_assign p h' (sv_handlers s)\<rparr>)"
    by (intro server_inv_handlers) (auto simp: smap_find_assign)
  with handle(1) reply_of_ok show ?case by (intro server_inv_set_phase) auto
next
  case (status_lock s i req p)
  then show ?case by (intro server_inv_lock) auto
next
  case (status_unlock s i req)
  then show ?case
    using server_inv_unlock [of s _ i "Status_critical req" "sv_info s"] reply_of_ok by auto
next
  case (write_lock s i uri res b)
  then show ?case by (intro server_inv_lock) auto
next
  case (write_undefined s i uri res)
  then show ?case by (intro server_inv_set_phase) auto
next
  case (write_unlock s i uri res b)
  then show ?case by (intro server_inv_unlock) (auto simp: record_request_def)
next
  case (send s i b)
  then show ?case by (intro server_inv_set_phase) auto
qed

lemma server_inv_init: "handlers_ok hs \<Longrightarrow> server_inv (new_server hs info)"
  by (simp add: server_inv_def new_server_def replied_threads_def)

lemma reachable_inv:
  assumes "(server_step env)\<^sup>*\<^sup>* (new_server hs info) s" "handlers_ok hs"
  shows "server_inv s"
  using assms by (induction rule: rtranclp_induct) (auto intro: server_inv_init server_step_inv)

lemma example_main:
  "main (\<lambda>_. Some ''port 80; path /e EchoHandler { }'') [''webserver'', ''c''] =
     Some (Run 80 [([], NotFoundHandler), (''/e'', EchoHandler)]
       [(''(default)'', ''NotFoundHandler''), (''/e'', ''EchoHandler'')])"
  by code_simp

abbreviation example_server :: server where
  "example_server \<equiv> new_server [([], NotFoundHandler), (''/e'', EchoHandler)]
     [(''(default)'', ''NotFoundHandler''), (''/e'', ''EchoHandler'')]"

abbreviation example_env :: "string server_env" where
  "example_env \<equiv> \<lparr>se_static = \<lparr>env_fs = \<lambda>_. None, env_api = \<lparr>checkstring = Some, checkint = \<lambda>_. None\<rparr>,
      env_vm = \<lambda>_ _. ([], True), env_md = id\<rparr>,
     se_freed = Some, se_tok = \<lambda>s _. [s], se_net = \<lparr>net_connect = \<lambda>_ _ _. None, net_handshake = \<lambda>_. Ec_success,
      net_write = \<lambda>_ _. True, net_read = \<lambda>_ _. Some ([], Ec_eof)\<rparr>, se_mem = [], se_junk = 0\<rparr>"

definition example_request :: request where
  "example_request = (case on_read (sv_handlers example_server) init_tls (''GET /e/x HTTP/1.0'' @ CRLF @ CRLF) of
     Handling req p \<Rightarrow> req | _ \<Rightarrow> new_request 0)"

abbreviation example_reading :: server where
  "example_reading \<equiv> set_phase 0 (Reading init_tls) example_server"

lemma example_accept: "server_step env example_server example_reading"
  by (rule server_step.accept) (simp add: new_server_def)

lemma example_read:
  assumes "on_read (sv_handlers example_server) init_tls block = ph"
  shows "(server_step env)\<^sup>*\<^sup>* example_server (set_phase 0 ph example_reading)"
proof -
  have "server_step env example_reading (set_phase 0 ph example_reading)"
    by (rule server_step.read [where t = init_tls and block = block])
      (use assms in \<open>simp_all add: set_phase_def\<close>)
  with example_accept [of env] show ?thesis by (blast intro: converse_rtranclp_into_rtranclp)
qed

lemma example_handling:
  "(server_step env)\<^sup>*\<^sup>* example_server (set_phase 0 (Handling example_request ''/e'') example_reading)"
  by (rule example_read [where block = "''GET /e/x HTTP/1.0'' @ CRLF @ CRLF"]) code_simp

abbreviation example_writing :: server where
  "example_writing \<equiv> set_phase 0 bad_request_reply example_reading"

abbreviation example_logging :: server where
  "example_logging \<equiv> set_phase 0 (Logging ''(bad request)'' (DefaultResponse bad_request)
     (the (ToString [] (DefaultResponse bad_request)))) (example_writing\<lparr>sv_lock := Some 0\<rparr>)"

lemma example_locked: "(server_step example_env)\<^sup>*\<^sup>* example_server example_logging"
proof (rule rtranclp.rtrancl_into_rtrancl)
  show "(server_step example_env)\<^sup>*\<^sup>* example_server example_writing"
    by (rule example_read [where block = "''(''"]) code_simp
  have "\<exists>b. ToString [] (DefaultResponse bad_request) = Some b"
    by (simp add: ToString_def response_defs)
  then show "server_step example_env example_writing example_logging"
    by (intro server_step.write_lock)
      (auto simp: form_bytes_def set_phase_def bad_request_reply_def new_server_def)
qed

text \<open>
  C18: in every state the server reaches from handlers read by \<open>main\<close>, the mutex is held by
  exactly the session that is in a critical section, if any, and that session can leave it, giving
  the mutex back; so no two sessions are in critical sections at once and none waits for ever.
\<close>

theorem server_mutual_exclusion:
  assumes "main fs argv = Some (Run port hs info)"
    and "(server_step env)\<^sup>*\<^sup>* (new_server hs info) s"
  shows "(sv_threads s i = Some ph \<and> critical ph \<longrightarrow> sv_lock s = Some i) \<and>
    (sv_lock s \<noteq> None \<longrightarrow> (\<exists>s'. server_step env s s' \<and> sv_lock s' = None))"
proof -
  have inv: "server_inv s" using reachable_inv [OF assms(2) main_handlers_ok [OF assms(1)]] .
  moreover have "\<exists>s'. server_step env s s' \<and> sv_lock s' = None" if "sv_lock s = Some j" for j
  proof -
    from that inv obtain ph where ph: "sv_threads s j = Some ph" "critical ph"
      unfolding server_inv_def by blast
    show ?thesis
    proof (cases ph)
      case (Status_critical req)
      from server_step.status_unlock [of s j req env] ph(1) Status_critical show ?thesis
        by (auto simp: set_phase_def)
    next
      case (Logging uri res b)
      from server_step.write_unlock [of s j uri res b env] ph(1) Logging show ?thesis
        by (auto simp: set_phase_def)
    qed (use ph in auto)
  qed
  ultimately show ?thesis by (auto simp: server_inv_def)
qed

theorem server_mutual_exclusion_witness:
  "sv_lock example_logging = Some 0 \<and> (\<exists>s'. server_step example_env example_logging s' \<and> sv_lock s' = None)"
  using server_mutual_exclusion [OF example_main example_locked, of 0]
  by (simp add: set_phase_def new_server_def)

text \<open>
  C19: in every reachable state the history has one entry for each session that has replied, and
  no session is in the search for a handler for ever or holds a request whose handler is missing
  or whose path is shorter than the prefix of its handler.
\<close>

theorem server_history:
  assumes "main fs argv = Some (Run port hs info)"
    and "(server_step env)\<^sup>*\<^sup>* (new_server hs info) s"
  shows "length (si_requests (sv_info s)) = card (replied_threads s) \<and>
    sv_threads s i \<noteq> Some Looping \<and>
    (sv_threads s i = Some (Handling req p) \<longrightarrow>
       smap_find (sv_handlers s) p \<noteq> None \<and> prefix p (rq_path req) \<and> \<not> sublist ''..'' (rq_path req))"
proof -
  have inv: "server_inv s" using reachable_inv [OF assms(2) main_handlers_ok [OF assms(1)]] .
  then have ph: "phase_ok (sv_handlers s) ph" if "sv_threads s i = Some ph" for ph
    using that by (simp add: server_inv_def)
  show ?thesis
  proof (intro conjI impI)
    show "length (si_requests (sv_info s)) = card (replied_threads s)"
      using inv by (simp add: server_inv_def)
    show "sv_threads s i \<noteq> Some Looping" using ph [of Looping] by auto
    assume "sv_threads s i = Some (Handling req p)"
    from ph [OF this] show "smap_find (sv_handlers s) p \<noteq> None" "prefix p (rq_path req)"
      "\<not> sublist ''..'' (rq_path req)"
      by (auto simp: slash_prefix_def path_safe_def)
  qed
qed

theorem server_history_witness:
  "length (si_requests (sv_info (set_phase 0 (Handling example_request ''/e'') example_reading)))
      = card (replied_threads (set_phase 0 (Handling example_request ''/e'') example_reading)) \<and>
    smap_find (sv_handlers (set_phase 0 (Handling example_request ''/e'') example_reading)) ''/e'' \<noteq> None \<and>
    prefix ''/e'' (rq_path example_request) \<and> \<not> sublist ''..'' (rq_path example_request)"
  using server_history [OF example_main example_handling [of example_env], of 0 example_request "''/e''"]
  by (simp add: set_phase_def)

subsection \<open>A session run alone is a run of the server\<close>

lemma do_write_steps:
  assumes "do_write env (sv_info st) uri res = (Replied b, s')" "sv_threads st i = Some (Writing uri res)"
    and "sv_lock st = None"
  shows "\<exists>st'. (server_step env)\<^sup>*\<^sup>* st st' \<and> sv_threads st' i = Some (Sending b) \<and> sv_info st' = s' \<and>
    sv_handlers st' = sv_handlers st \<and> sv_lock st' = None"
proof -
  from assms(1) have f: "form_bytes env uri res = Logging uri res b"
    and s': "s' = record_request env uri res (sv_info st)"
    by (auto simp: do_write_def form_bytes_def split: phase.splits option.splits)
  let ?st1 = "set_phase i (Logging uri res b) (st\<lparr>sv_lock := Some i\<rparr>)"
  let ?st2 = "set_phase i (Sending b)
      (?st1\<lparr>sv_info := record_request env uri res (sv_info ?st1), sv_lock := None\<rparr>)"
  have "server_step env st ?st1" using assms(2,3) f by (intro server_step.write_lock)
  moreover have "server_step env ?st1 ?st2"
    by (rule server_step.write_unlock) (simp add: set_phase_def)
  ultimately have "(server_step env)\<^sup>*\<^sup>* st ?st2" by (meson converse_rtranclp_into_rtranclp r_into_rtranclp)
  then show ?thesis using s' by (intro exI [of _ ?st2]) (simp add: set_phase_def)
qed

lemma handle_steps:
  assumes find: "smap_find (sv_handlers st) p = Some h" and sorted: "smap_sorted (sv_handlers st)"
    and th: "sv_threads st i = Some (Handling req p)" and free: "sv_lock st = None"
    and h': "handler_HandleRequest env (sv_info st) h req fresh_response = Some (r, h')"
  shows "\<exists>st'. (server_step env)\<^sup>*\<^sup>* st st' \<and> sv_threads st' i = Some (reply_of req r) \<and>
    sv_info st' = sv_info st \<and> sv_handlers st' = smap_assign p h' (sv_handlers st) \<and> sv_lock st' = None"
proof (cases "h = StatusHandler")
  case True
  let ?st1 = "set_phase i (Status_critical req) (st\<lparr>sv_lock := Some i\<rparr>)"
  let ?st2 = "set_phase i (reply_of req (Some (Status_HandleRequest (sv_info ?st1) req fresh_response)))
      (?st1\<lparr>sv_lock := None\<rparr>)"
  have "server_step env st ?st1" using th find True free by (intro server_step.status_lock) auto
  moreover have "server_step env ?st1 ?st2"
    by (rule server_step.status_unlock) (simp add: set_phase_def)
  ultimately have "(server_step env)\<^sup>*\<^sup>* st ?st2" by (meson converse_rtranclp_into_rtranclp r_into_rtranclp)
  moreover have "smap_assign p h' (sv_handlers st) = sv_handlers st"
    using h' True find sorted by (auto intro: smap_sorted_assign_same)
  ultimately show ?thesis using h' True by (intro exI [of _ ?st2]) (auto simp: set_phase_def)
next
  case False
  let ?st1 = "set_phase i (reply_of req r) (st\<lparr>sv_handlers := smap_assign p h' (sv_handlers st)\<rparr>)"
  have "server_step env st ?st1" using th find False h' by (rule server_step.handle)
  with free show ?thesis by (intro exI [of _ ?st1]) (auto simp: set_phase_def)
qed

lemma do_read_steps_lemma:
  assumes "do_read env (sv_handlers st) (sv_info st) t blocks = (Replied b, s', hs')"
    and "sv_threads st i = Some (Reading t)" "sv_lock st = None" "smap_sorted (sv_handlers st)"
  shows "\<exists>st'. (server_step env)\<^sup>*\<^sup>* st st' \<and> sv_threads st' i = Some (Sending b) \<and> sv_info st' = s' \<and>
    sv_handlers st' = hs' \<and> sv_lock st' = None"
  using assms
proof (induction blocks arbitrary: t st)
  case (Cons block blocks)
  let ?ph = "on_read (sv_handlers st) t block"
  let ?st1 = "set_phase i ?ph st"
  have st1: "server_step env st ?st1" using Cons.prems(2) by (intro server_step.read) auto
  have f1: "sv_threads ?st1 i = Some ?ph" "sv_info ?st1 = sv_info st" "sv_handlers ?st1 = sv_handlers st"
    "sv_lock ?st1 = None" using Cons.prems(3) by (auto simp: set_phase_def)
  show ?case
  proof (cases ?ph)
    case (Reading t')
    with Cons.prems f1 have "\<exists>st'. (server_step env)\<^sup>*\<^sup>* ?st1 st' \<and> sv_threads st' i = Some (Sending b)
        \<and> sv_info st' = s' \<and> sv_handlers st' = hs' \<and> sv_lock st' = None"
      by (intro Cons.IH [of ?st1 t']) auto
    then show ?thesis using converse_rtranclp_into_rtranclp [of "server_step env", OF st1] by blast
  next
    case (Writing uri res)
    with Cons.prems(1) have "do_write env (sv_info ?st1) uri res = (Replied b, s')" "hs' = sv_handlers st"
      by (auto simp: set_phase_def split: prod.splits)
    moreover from this(1) f1 Writing obtain st' where "(server_step env)\<^sup>*\<^sup>* ?st1 st'"
      "sv_threads st' i = Some (Sending b)" "sv_info st' = s'" "sv_handlers st' = sv_handlers st"
      "sv_lock st' = None"
      using do_write_steps [of env ?st1 uri res b s' i] by auto
    ultimately show ?thesis
      using converse_rtranclp_into_rtranclp [of "server_step env", OF st1] by blast
  next
    case (Handling req p)
    with Cons.prems(1) obtain h r h' uri res where h: "smap_find (sv_handlers ?st1) p = Some h"
      and hr: "handler_HandleRequest env (sv_info ?st1) h req fresh_response = Some (r, h')"
      and w: "reply_of req r = Writing uri res" "do_write env (sv_info st) uri res = (Replied b, s')"
      and hs': "hs' = smap_assign p h' (sv_handlers st)"
      by (auto simp: set_phase_def split: option.splits prod.splits phase.splits)
    obtain st2 where st2: "(server_step env)\<^sup>*\<^sup>* ?st1 st2" "sv_threads st2 i = Some (Writing uri res)"
      "sv_info st2 = sv_info st" "sv_handlers st2 = hs'" "sv_lock st2 = None"
      using handle_steps [OF h _ _ _ hr, of i] Cons.prems(4) f1 Handling w(1) hs' by auto
    with do_write_steps [of env st2 uri res b s' i] w(2) obtain st3 where "(server_step env)\<^sup>*\<^sup>* st2 st3"
      "sv_threads st3 i = Some (Sending b)" "sv_info st3 = s'" "sv_handlers st3 = hs'" "sv_lock st3 = None"
      by auto
    with st2(1) show ?thesis
      using converse_rtranclp_into_rtranclp [of "server_step env", OF st1] rtranclp_trans [of "server_step env"]
      by blast
  qed (use Cons.prems in auto)
qed simp

text \<open>
  C20: whatever a session that runs alone replies, \<open>do_read\<close> as one function, is a run of the
  interleaving semantics in which only this session moves: it ends in the state that sends these
  bytes, with the same history and handlers and the mutex free.
\<close>

theorem do_read_steps:
  assumes "do_read env (sv_handlers st) (sv_info st) t blocks = (Replied b, s', hs')"
    and "sv_threads st i = Some (Reading t)" and "sv_lock st = None" and "smap_sorted (sv_handlers st)"
  shows "\<exists>st'. (server_step env)\<^sup>*\<^sup>* st st' \<and> sv_threads st' i = Some (Sending b) \<and> sv_info st' = s' \<and>
    sv_handlers st' = hs' \<and> sv_lock st' = None"
  using assms by (rule do_read_steps_lemma)

theorem do_read_steps_witness:
  "\<exists>st'. (server_step example_env)\<^sup>*\<^sup>* (set_phase 7 (Reading init_tls) example_server) st' \<and>
    sv_threads st' 7 = Some (Sending (the (ToString [] (DefaultResponse bad_request)))) \<and>
    sv_info st' = \<lparr>si_handlerInfo = si_handlerInfo (sv_info example_server),
      si_requests = [(''(bad request)'', 400)]\<rparr> \<and>
    sv_handlers st' = sv_handlers example_server \<and> sv_lock st' = None"
  by (rule do_read_steps [where t = init_tls and blocks = "[''('']"])
    (code_simp | simp add: set_phase_def new_server_def smap_sorted_def)+

end
