(* ===== verification/Lj_Char.thy ===== *)
theory Lj_Char
  imports Main "HOL-Library.Word"
begin

text \<open>
  The character classes of the Lua virtual machine that runs the scripts of a page:
  \<open>lj_char.h\<close> and the table of \<open>lj_char.c\<close>, indexed by -1 (end of stream) and the bytes 0 to 255.
  A class test reads the table and masks it, as the macros do; the lemmas say which bytes belong to
  each class.
\<close>

unbundle bit_operations_syntax

named_theorems lj_char_simps \<open>membership of bytes in character classes\<close>

definition lj_char_bits :: "nat list" where
  "lj_char_bits =
   [0,
    1,  1,  1,  1,  1,  1,  1,  1,  1,  3,  3,  3,  3,  3,  1,  1,
    1,  1,  1,  1,  1,  1,  1,  1,  1,  1,  1,  1,  1,  1,  1,  1,
    2,  4,  4,  4,  4,  4,  4,  4,  4,  4,  4,  4,  4,  4,  4,  4,
  152,152,152,152,152,152,152,152,152,152,  4,  4,  4,  4,  4,  4,
    4,176,176,176,176,176,176,160,160,160,160,160,160,160,160,160,
  160,160,160,160,160,160,160,160,160,160,160,  4,  4,  4,  4,132,
    4,208,208,208,208,208,208,192,192,192,192,192,192,192,192,192,
  192,192,192,192,192,192,192,192,192,192,192,  4,  4,  4,  4,  1,
  128,128,128,128,128,128,128,128,128,128,128,128,128,128,128,128,
  128,128,128,128,128,128,128,128,128,128,128,128,128,128,128,128,
  128,128,128,128,128,128,128,128,128,128,128,128,128,128,128,128,
  128,128,128,128,128,128,128,128,128,128,128,128,128,128,128,128,
  128,128,128,128,128,128,128,128,128,128,128,128,128,128,128,128,
  128,128,128,128,128,128,128,128,128,128,128,128,128,128,128,128,
  128,128,128,128,128,128,128,128,128,128,128,128,128,128,128,128,
  128,128,128,128,128,128,128,128,128,128,128,128,128,128,128,128]"

abbreviation LJ_CHAR_CNTRL :: nat where "LJ_CHAR_CNTRL \<equiv> 0x01"
abbreviation LJ_CHAR_SPACE :: nat where "LJ_CHAR_SPACE \<equiv> 0x02"
abbreviation LJ_CHAR_PUNCT :: nat where "LJ_CHAR_PUNCT \<equiv> 0x04"
abbreviation LJ_CHAR_DIGIT :: nat where "LJ_CHAR_DIGIT \<equiv> 0x08"
abbreviation LJ_CHAR_XDIGIT :: nat where "LJ_CHAR_XDIGIT \<equiv> 0x10"
abbreviation LJ_CHAR_UPPER :: nat where "LJ_CHAR_UPPER \<equiv> 0x20"
abbreviation LJ_CHAR_LOWER :: nat where "LJ_CHAR_LOWER \<equiv> 0x40"
abbreviation LJ_CHAR_IDENT :: nat where "LJ_CHAR_IDENT \<equiv> 0x80"
abbreviation LJ_CHAR_ALPHA :: nat where "LJ_CHAR_ALPHA \<equiv> 0x60"
abbreviation LJ_CHAR_ALNUM :: nat where "LJ_CHAR_ALNUM \<equiv> 0x68"
abbreviation LJ_CHAR_GRAPH :: nat where "LJ_CHAR_GRAPH \<equiv> 0x6C"

definition lj_char_isa :: "int \<Rightarrow> nat \<Rightarrow> nat" where
  "lj_char_isa c t = (lj_char_bits ! nat (c + 1)) AND t"

definition lj_char_iscntrl :: "int \<Rightarrow> bool" where
  "lj_char_iscntrl c \<longleftrightarrow> lj_char_isa c LJ_CHAR_CNTRL \<noteq> 0"

definition lj_char_isspace :: "int \<Rightarrow> bool" where
  "lj_char_isspace c \<longleftrightarrow> lj_char_isa c LJ_CHAR_SPACE \<noteq> 0"

definition lj_char_ispunct :: "int \<Rightarrow> bool" where
  "lj_char_ispunct c \<longleftrightarrow> lj_char_isa c LJ_CHAR_PUNCT \<noteq> 0"

definition lj_char_isdigit :: "int \<Rightarrow> bool" where
  "lj_char_isdigit c \<longleftrightarrow> lj_char_isa c LJ_CHAR_DIGIT \<noteq> 0"

definition lj_char_isxdigit :: "int \<Rightarrow> bool" where
  "lj_char_isxdigit c \<longleftrightarrow> lj_char_isa c LJ_CHAR_XDIGIT \<noteq> 0"

definition lj_char_isupper :: "int \<Rightarrow> bool" where
  "lj_char_isupper c \<longleftrightarrow> lj_char_isa c LJ_CHAR_UPPER \<noteq> 0"

definition lj_char_islower :: "int \<Rightarrow> bool" where
  "lj_char_islower c \<longleftrightarrow> lj_char_isa c LJ_CHAR_LOWER \<noteq> 0"

definition lj_char_isident :: "int \<Rightarrow> bool" where
  "lj_char_isident c \<longleftrightarrow> lj_char_isa c LJ_CHAR_IDENT \<noteq> 0"

definition lj_char_isalpha :: "int \<Rightarrow> bool" where
  "lj_char_isalpha c \<longleftrightarrow> lj_char_isa c LJ_CHAR_ALPHA \<noteq> 0"

definition lj_char_isalnum :: "int \<Rightarrow> bool" where
  "lj_char_isalnum c \<longleftrightarrow> lj_char_isa c LJ_CHAR_ALNUM \<noteq> 0"

definition lj_char_isgraph :: "int \<Rightarrow> bool" where
  "lj_char_isgraph c \<longleftrightarrow> lj_char_isa c LJ_CHAR_GRAPH \<noteq> 0"

definition lj_char_toupper :: "int \<Rightarrow> int" where
  "lj_char_toupper c = c - int (drop_bit 1 (lj_char_isa c LJ_CHAR_LOWER))"

definition lj_char_tolower :: "int \<Rightarrow> int" where
  "lj_char_tolower c = c + int (lj_char_isa c LJ_CHAR_UPPER)"

subsection \<open>The classes as ranges\<close>

text \<open>The table as a whole against a class given by ranges.\<close>

lemma length_lj_char_bits: "length lj_char_bits = 257"
  by (simp add: lj_char_bits_def)

lemma lj_char_class:
  assumes table: "map (\<lambda>b. f (b AND t)) lj_char_bits = map P [-1..255]" and "-1 \<le> c" "c \<le> 255"
  shows "f (lj_char_isa c t) = P c"
proof -
  have n: "nat (c + 1) < 257" using assms(2,3) by linarith
  have "f (lj_char_isa c t) = map (\<lambda>b. f (b AND t)) lj_char_bits ! nat (c + 1)"
    using n by (simp add: lj_char_isa_def length_lj_char_bits)
  also have "\<dots> = P ([-1..255] ! nat (c + 1))" using n by (simp only: table) simp
  also have "[-1..255] ! nat (c + 1) = c" using assms(2,3) by (subst nth_upto) auto
  finally show ?thesis .
qed

lemma byte_list: "[-1..255] = -1 # 0 # 1 # [2..255 :: int]"
  by (simp add: upto_rec1)

lemmas table_simps = lj_char_bits_def byte_list upto_rec_numeral

lemma lj_char_tables:
  "map (\<lambda>b. b AND LJ_CHAR_SPACE \<noteq> 0) lj_char_bits = map (\<lambda>c. (9 \<le> c \<and> c \<le> 13) \<or> c = 32) [-1..255]"
  "map (\<lambda>b. b AND LJ_CHAR_DIGIT \<noteq> 0) lj_char_bits = map (\<lambda>c. 48 \<le> c \<and> c \<le> 57) [-1..255]"
  "map (\<lambda>b. b AND LJ_CHAR_XDIGIT \<noteq> 0) lj_char_bits =
     map (\<lambda>c. (48 \<le> c \<and> c \<le> 57) \<or> (65 \<le> c \<and> c \<le> 70) \<or> (97 \<le> c \<and> c \<le> 102)) [-1..255]"
  "map (\<lambda>b. b AND LJ_CHAR_CNTRL \<noteq> 0) lj_char_bits = map (\<lambda>c. (0 \<le> c \<and> c \<le> 31) \<or> c = 127) [-1..255]"
  "map (\<lambda>b. b AND LJ_CHAR_IDENT \<noteq> 0) lj_char_bits =
     map (\<lambda>c. (48 \<le> c \<and> c \<le> 57) \<or> (65 \<le> c \<and> c \<le> 90) \<or> c = 95 \<or> (97 \<le> c \<and> c \<le> 122) \<or> 128 \<le> c)
       [-1..255]"
  "map (\<lambda>b. b AND LJ_CHAR_ALNUM \<noteq> 0) lj_char_bits =
     map (\<lambda>c. (48 \<le> c \<and> c \<le> 57) \<or> (65 \<le> c \<and> c \<le> 90) \<or> (97 \<le> c \<and> c \<le> 122)) [-1..255]"
  "map (\<lambda>b. drop_bit 1 (b AND LJ_CHAR_LOWER)) lj_char_bits =
     map (\<lambda>c. if 97 \<le> c \<and> c \<le> 122 then 32 else 0) [-1..255]"
  "map (\<lambda>b. b AND LJ_CHAR_UPPER) lj_char_bits = map (\<lambda>c. if 65 \<le> c \<and> c \<le> 90 then 32 else 0) [-1..255]"
  by (simp_all add: table_simps)

lemma lj_char_ranges [lj_char_simps]:
  assumes "-1 \<le> c" "c \<le> 255"
  shows "lj_char_isspace c \<longleftrightarrow> (9 \<le> c \<and> c \<le> 13) \<or> c = 32"
    and "lj_char_isdigit c \<longleftrightarrow> 48 \<le> c \<and> c \<le> 57"
    and "lj_char_isxdigit c \<longleftrightarrow> (48 \<le> c \<and> c \<le> 57) \<or> (65 \<le> c \<and> c \<le> 70) \<or> (97 \<le> c \<and> c \<le> 102)"
    and "lj_char_iscntrl c \<longleftrightarrow> (0 \<le> c \<and> c \<le> 31) \<or> c = 127"
    and "lj_char_isident c \<longleftrightarrow> (48 \<le> c \<and> c \<le> 57) \<or> (65 \<le> c \<and> c \<le> 90) \<or> c = 95 \<or>
        (97 \<le> c \<and> c \<le> 122) \<or> 128 \<le> c"
    and "lj_char_isalnum c \<longleftrightarrow> (48 \<le> c \<and> c \<le> 57) \<or> (65 \<le> c \<and> c \<le> 90) \<or> (97 \<le> c \<and> c \<le> 122)"
    and "lj_char_toupper c = (if 97 \<le> c \<and> c \<le> 122 then c - 32 else c)"
    and "lj_char_tolower c = (if 65 \<le> c \<and> c \<le> 90 then c + 32 else c)"
  using lj_char_class [OF lj_char_tables(1) assms] lj_char_class [OF lj_char_tables(2) assms]
    lj_char_class [OF lj_char_tables(3) assms] lj_char_class [OF lj_char_tables(4) assms]
    lj_char_class [OF lj_char_tables(5) assms] lj_char_class [OF lj_char_tables(6) assms]
    lj_char_class [OF lj_char_tables(7) assms] lj_char_class [where f = "\<lambda>b. b", OF lj_char_tables(8) assms]
  by (simp_all add: lj_char_isspace_def lj_char_isdigit_def lj_char_isxdigit_def lj_char_iscntrl_def
      lj_char_isident_def lj_char_isalnum_def lj_char_toupper_def lj_char_tolower_def)

end
