(* ===== verification/Lj_Strscan.thy ===== *)
theory Lj_Strscan
  imports Lj_Char
begin

text \<open>
  \<open>lj_strscan.c\<close>: the conversion of strings to numbers that the Lua lexer uses. The subject is a
  C string \<open>s\<close>, without its terminating NUL, and a pointer is an offset into it; reading at the
  offset \<open>length s\<close> gives the NUL. A double is kept as the value it is rounded from:
  \<open>Scaled neg x ex\<close> is the double nearest to \<open>x * 2 ^ ex\<close>, negated if \<open>neg\<close>, for the conversion
  and the call of \<open>ldexp\<close> that end \<open>strscan_double\<close>. Whether a double equals a 32-bit integer,
  which \<open>STRSCAN_OPT_TOINT\<close> asks for, is a parameter. The digit buffer of \<open>strscan_dec\<close> is a list
  of bytes; the bytes it never wrote are zero here and indeterminate in the source. The two scaling
  loops are partial functions.
\<close>

named_theorems strscan_simps \<open>unfolding rules of the number scanner\<close>

datatype dbl = Scaled bool "64 word" int | Infinity bool | NaN

datatype StrScanFmt = STRSCAN_ERROR | STRSCAN_NUM | STRSCAN_IMAG
  | STRSCAN_INT | STRSCAN_U32 | STRSCAN_I64 | STRSCAN_U64

datatype tvalue = V_none | V_n dbl | V_i "32 word" | V_u64 "64 word"

record scan_opt =
  opt_toint :: bool
  opt_tonum :: bool
  opt_imag :: bool
  opt_ll :: bool
  opt_c :: bool

definition at :: "string \<Rightarrow> nat \<Rightarrow> int" where
  "at s i = (if i < length s then of_char (s ! i) else 0)"

definition casecmp :: "int \<Rightarrow> int \<Rightarrow> bool" where
  "casecmp c k \<longleftrightarrow> (c OR 0x20) = k"

subsection \<open>Final conversion to double\<close>

text \<open>The index of the highest bit (\<open>__builtin_clzll(x)^63\<close>); for zero it is not used.\<close>

fun fls_nat :: "nat \<Rightarrow> nat" where
  "fls_nat n = (if n \<le> 1 then 0 else Suc (fls_nat (n div 2)))"

declare fls_nat.simps [simp del]

definition strscan_double :: "64 word \<Rightarrow> int \<Rightarrow> bool \<Rightarrow> dbl" where
  "strscan_double x ex2 neg =
     (let b = int (fls_nat (unat x));
          x' = (if ex2 \<le> -1075 \<and> x \<noteq> 0 \<and> b + ex2 \<le> -1023 \<and> b + ex2 \<ge> -1075 then
                  let rb = push_bit (nat (-1075 - ex2)) (1 :: 64 word);
                      y = (if x AND rb \<noteq> 0 \<and> x AND (rb + rb + rb - 1) \<noteq> 0 then x + (rb + rb) else x)
                  in y AND NOT (rb + rb - 1)
                else x)
      in Scaled neg x' ex2)"

definition dbl_of_int :: "int \<Rightarrow> dbl" where
  "dbl_of_int y = Scaled (y < 0) (word_of_int \<bar>y\<bar>) 0"

definition neg32 :: "bool \<Rightarrow> 64 word \<Rightarrow> 32 word" where
  "neg32 neg x = (if neg then - ucast x else ucast x)"

definition neg64 :: "bool \<Rightarrow> 64 word \<Rightarrow> 64 word" where
  "neg64 neg x = (if neg then - x else x)"

abbreviation neg_int :: "bool \<Rightarrow> nat" where
  "neg_int neg \<equiv> (if neg then 1 else 0)"

subsection \<open>Hexadecimal and octal\<close>

text \<open>\<open>(*p != '.' ? *p : *++p)\<close>: the digit at or after \<open>p\<close>, and the offset it was read from.\<close>

definition digit_at :: "string \<Rightarrow> nat \<Rightarrow> int \<times> nat" where
  "digit_at s p = (if at s p \<noteq> 0x2E then (at s p, p) else (at s (Suc p), Suc p))"

fun hex_digits :: "string \<Rightarrow> nat \<Rightarrow> nat \<Rightarrow> 64 word \<Rightarrow> 64 word \<times> nat" where
  "hex_digits s p 0 x = (x, p)"
| "hex_digits s p (Suc i) x =
     (let (d, q) = digit_at s p; d' = (if d > 0x39 then d + 9 else d)
      in hex_digits s (Suc q) i (push_bit 4 x + word_of_int (d' AND 15)))"

fun hex_excess :: "string \<Rightarrow> nat \<Rightarrow> nat \<Rightarrow> 64 word \<Rightarrow> int \<Rightarrow> 64 word \<times> int" where
  "hex_excess s p 0 x ex2 = (x, ex2)"
| "hex_excess s p (Suc i) x ex2 =
     (let (d, q) = digit_at s p
      in hex_excess s (Suc q) i (if d \<noteq> 0x30 then x OR 1 else x) (ex2 + 4))"

definition hex_to_double :: "64 word \<Rightarrow> int \<Rightarrow> bool \<Rightarrow> dbl" where
  "hex_to_double x ex2 neg =
     (if x AND 0xC000000000000000 \<noteq> 0
      then strscan_double (drop_bit 2 x OR (x AND 3)) (ex2 + 2) neg
      else strscan_double x ex2 neg)"

definition strscan_hex ::
    "string \<Rightarrow> nat \<Rightarrow> StrScanFmt \<Rightarrow> scan_opt \<Rightarrow> int \<Rightarrow> bool \<Rightarrow> nat \<Rightarrow> StrScanFmt \<times> tvalue" where
  "strscan_hex s p fmt opt ex2 neg dig =
     (let (x0, p1) = hex_digits s p (min dig 16) 0;
          (x, ex) = hex_excess s p1 (dig - 16) x0 ex2;
          u32 = (if dig > 8 then (STRSCAN_ERROR, V_none) else (STRSCAN_U32, V_i (neg32 neg x)))
      in case fmt of
           STRSCAN_INT \<Rightarrow>
             if \<not> opt_tonum opt \<and> unat x < 0x80000000 + neg_int neg
             then (STRSCAN_INT, V_i (neg32 neg x))
             else if \<not> opt_c opt then (STRSCAN_NUM, V_n (hex_to_double x ex neg))
             else u32
         | STRSCAN_U32 \<Rightarrow> u32
         | STRSCAN_I64 \<Rightarrow> if dig > 16 then (STRSCAN_ERROR, V_none) else (fmt, V_u64 (neg64 neg x))
         | STRSCAN_U64 \<Rightarrow> if dig > 16 then (STRSCAN_ERROR, V_none) else (fmt, V_u64 (neg64 neg x))
         | _ \<Rightarrow> (fmt, V_n (hex_to_double x ex neg)))"

fun oct_digits :: "string \<Rightarrow> nat \<Rightarrow> nat \<Rightarrow> 64 word \<Rightarrow> 64 word option" where
  "oct_digits s p 0 x = Some x"
| "oct_digits s p (Suc dig) x =
     (if at s p \<ge> 0x30 \<and> at s p \<le> 0x37
      then oct_digits s (Suc p) dig (push_bit 3 x + word_of_int (at s p AND 7)) else None)"

definition strscan_oct ::
    "string \<Rightarrow> nat \<Rightarrow> StrScanFmt \<Rightarrow> bool \<Rightarrow> nat \<Rightarrow> StrScanFmt \<times> tvalue" where
  "strscan_oct s p fmt neg dig =
     (if dig > 22 \<or> (dig = 22 \<and> at s p > 0x31) then (STRSCAN_ERROR, V_none)
      else (case oct_digits s p dig 0 of None \<Rightarrow> (STRSCAN_ERROR, V_none)
       | Some x \<Rightarrow>
           let fmt' = (if fmt = STRSCAN_INT \<and> unat x \<ge> 0x80000000 + neg_int neg then STRSCAN_U32 else fmt)
           in if fmt' = STRSCAN_INT \<or> fmt' = STRSCAN_U32 then
                if drop_bit 32 x \<noteq> 0 then (STRSCAN_ERROR, V_none) else (fmt', V_i (neg32 neg x))
              else (fmt', V_u64 (neg64 neg x))))"
subsection \<open>Decimal\<close>

abbreviation STRSCAN_MAXDIG :: nat where "STRSCAN_MAXDIG \<equiv> 800"
abbreviation STRSCAN_DDIG :: nat where "STRSCAN_DDIG \<equiv> 512"

definition DNEXT :: "nat \<Rightarrow> nat" where "DNEXT a = (a + 1) mod STRSCAN_DDIG"
definition DPREV :: "nat \<Rightarrow> nat" where "DPREV a = (a + (STRSCAN_DDIG - 1)) mod STRSCAN_DDIG"
definition DLEN :: "nat \<Rightarrow> nat \<Rightarrow> int" where
  "DLEN lo hi = int ((lo + (STRSCAN_DDIG - hi)) mod STRSCAN_DDIG)"

text \<open>The digits in pairs, most significant first, up to an odd one at the end.\<close>

fun dec_pairs :: "string \<Rightarrow> nat \<Rightarrow> nat \<Rightarrow> nat list \<Rightarrow> nat list \<times> nat" where
  "dec_pairs s p (Suc (Suc i)) xi =
     (let (d1, q1) = digit_at s p; (d2, q2) = digit_at s (Suc q1)
      in dec_pairs s (Suc q2) i (xi @ [nat (10 * (d1 AND 15) + (d2 AND 15))]))"
| "dec_pairs s p i xi = (xi, p)"

text \<open>The excess digits only matter for rounding: the last byte is made odd by one that is not zero.\<close>

fun dec_excess :: "string \<Rightarrow> nat \<Rightarrow> nat \<Rightarrow> nat list \<Rightarrow> nat list" where
  "dec_excess s p 0 xi = xi"
| "dec_excess s p (Suc i) xi =
     (let (d, q) = digit_at s p
      in if d \<noteq> 0x30 then xi[length xi - 1 := (xi ! (length xi - 1)) OR 1]
         else dec_excess s (Suc q) i xi)"

function dec_simplify :: "nat list \<Rightarrow> int \<Rightarrow> nat \<Rightarrow> nat list \<times> int \<times> nat" where
  "dec_simplify xi ex10 dig =
     (if ex10 > 0 \<and> dig \<le> 18 then dec_simplify (xi @ [0]) (ex10 - 2) (dig + 2) else (xi, ex10, dig))"
  by auto
termination by (relation "measure (\<lambda>(_, _, dig). 20 - dig)") auto

declare dec_simplify.simps [simp del]

text \<open>The first part of \<open>strscan_dec\<close>: the buffer, the exponent and the digit count.\<close>

definition dec_collect :: "string \<Rightarrow> nat \<Rightarrow> int \<Rightarrow> nat \<Rightarrow> nat list \<times> int \<times> nat" where
  "dec_collect s p ex10 dig =
     (if dig > 0 then
        let (i, ex) = (if dig > STRSCAN_MAXDIG
                       then (STRSCAN_MAXDIG, ex10 + int (dig - STRSCAN_MAXDIG)) else (dig, ex10));
            (d0, q0) = digit_at s p;
            (xi1, i1, p1) = (if odd (ex + int i) then ([nat (d0 AND 15)], i - 1, Suc q0) else ([], i, p));
            (xi2, p2) = dec_pairs s p1 i1 xi1;
            (d3, q3) = digit_at s p2;
            (xi3, ex3, dig3, p3) =
              (if odd i1 then (xi2 @ [nat (10 * (d3 AND 15))], ex - 1, dig + 1, Suc q3)
               else (xi2, ex, dig, p2))
        in if dig3 > STRSCAN_MAXDIG
           then (dec_excess s p3 (dig3 - STRSCAN_MAXDIG) xi3, ex3, STRSCAN_MAXDIG)
           else dec_simplify xi3 ex3 dig3
      else ([], 0, 0))"

text \<open>Scaling by 64 in the circular buffer.\<close>

partial_function (option) scale_up_pass ::
    "nat list \<Rightarrow> nat \<Rightarrow> nat \<Rightarrow> nat \<Rightarrow> nat \<Rightarrow> (nat list \<times> nat \<times> nat) option" where
  "scale_up_pass xi lo hi i cy =
     (let d0 = xi ! i * 64 + cy;
          cy' = (d0 div 4 * 5243) div 2 ^ 17;
          d = d0 - cy' * 100;
          xi' = xi[i := d mod 256]
      in if i = hi then Some (xi', lo, cy')
         else scale_up_pass xi' (if d = 0 \<and> i = DPREV lo then i else lo) hi (DPREV i) cy')"

definition scale_up_carry ::
    "nat list \<Rightarrow> nat \<Rightarrow> nat \<Rightarrow> nat \<Rightarrow> int \<Rightarrow> nat list \<times> nat \<times> nat \<times> int" where
  "scale_up_carry xi lo hi cy idig =
     (if cy \<noteq> 0 then
        let hi' = DPREV hi;
            (xi1, lo1) =
              (if xi ! DPREV lo = 0 then (xi, DPREV lo)
               else if hi' = lo then (xi[DPREV (DPREV lo) := (xi ! DPREV (DPREV lo)) OR (xi ! DPREV lo)], DPREV lo)
               else (xi, lo))
        in (xi1[hi' := cy mod 256], lo1, hi', idig + 1)
      else (xi, lo, hi, idig))"

partial_function (option) scale_up ::
    "nat list \<Rightarrow> nat \<Rightarrow> nat \<Rightarrow> int \<Rightarrow> int \<Rightarrow> (nat list \<times> nat \<times> nat \<times> int \<times> int) option" where
  "scale_up xi lo hi idig ex2 =
     (if idig < 9 \<and> idig < DLEN lo hi then
        (case scale_up_pass xi lo hi (DPREV lo) 0 of None \<Rightarrow> None
         | Some (xi1, lo1, cy) \<Rightarrow>
             (case scale_up_carry xi1 lo1 hi cy idig of
                (xi2, lo2, hi2, idig2) \<Rightarrow> scale_up xi2 lo2 hi2 idig2 (ex2 - 6)))
      else Some (xi, lo, hi, idig, ex2))"

partial_function (option) scale_down_pass ::
    "nat list \<Rightarrow> nat \<Rightarrow> nat \<Rightarrow> nat \<Rightarrow> nat \<Rightarrow> int \<Rightarrow> (nat list \<times> nat \<times> nat \<times> int) option" where
  "scale_down_pass xi lo hi i cy idig =
     (let c = cy + xi ! i;
          xi' = xi[i := (c div 64) mod 256];
          (hi', idig') = (if xi' ! i = 0 \<and> i = hi then (DNEXT hi, idig - 1) else (hi, idig));
          i' = DNEXT i
      in if i' = lo then Some (xi', hi', 100 * (c mod 64), idig')
         else scale_down_pass xi' lo hi' i' (100 * (c mod 64)) idig')"

partial_function (option) scale_down_tail ::
    "nat list \<Rightarrow> nat \<Rightarrow> nat \<Rightarrow> nat \<Rightarrow> (nat list \<times> nat) option" where
  "scale_down_tail xi lo hi cy =
     (if cy = 0 then Some (xi, lo)
      else if hi = lo then Some (xi[DPREV lo := (xi ! DPREV lo) OR 1], lo)
      else scale_down_tail (xi[lo := (cy div 64) mod 256]) (DNEXT lo) hi (100 * (cy mod 64)))"

partial_function (option) scale_down ::
    "nat list \<Rightarrow> nat \<Rightarrow> nat \<Rightarrow> int \<Rightarrow> int \<Rightarrow> (nat list \<times> nat \<times> nat \<times> int \<times> int) option" where
  "scale_down xi lo hi idig ex2 =
     (if idig > 9 then
        (case scale_down_pass xi lo hi hi 0 idig of None \<Rightarrow> None
         | Some (xi1, hi1, cy, idig1) \<Rightarrow>
             (case scale_down_tail xi1 lo hi1 cy of None \<Rightarrow> None
              | Some (xi2, lo2) \<Rightarrow> scale_down xi2 lo2 hi1 idig1 (ex2 + 6)))
      else Some (xi, lo, hi, idig, ex2))"

declare scale_up_pass.simps [code] scale_up.simps [code] scale_down_pass.simps [code]
  scale_down_tail.simps [code] scale_down.simps [code]

text \<open>Collecting the integer part, and a round bit from the remaining digits.\<close>

partial_function (option) collect_int ::
    "nat list \<Rightarrow> nat \<Rightarrow> nat \<Rightarrow> int \<Rightarrow> 64 word \<Rightarrow> (64 word \<times> nat \<times> int) option" where
  "collect_int xi lo i idig x =
     (let idig' = idig - 1
      in if idig' > 0 \<and> i \<noteq> lo
         then collect_int xi lo (DNEXT i) idig' (x * 100 + of_nat (xi ! i))
         else Some (x, i, idig'))"

partial_function (option) round_bit :: "nat list \<Rightarrow> nat \<Rightarrow> nat \<Rightarrow> bool option" where
  "round_bit xi lo i =
     (if xi ! i \<noteq> 0 then Some True else if DNEXT i = lo then Some False else round_bit xi lo (DNEXT i))"

declare collect_int.simps [code] round_bit.simps [code]

definition dec_to_double :: "nat list \<Rightarrow> nat \<Rightarrow> nat \<Rightarrow> int \<Rightarrow> int \<Rightarrow> bool \<Rightarrow> dbl option" where
  "dec_to_double xi lo hi idig ex2 neg =
     (case collect_int xi lo (DNEXT hi) idig (of_nat (xi ! hi)) of None \<Rightarrow> None
      | Some (x, i, idig') \<Rightarrow>
          if i = lo then Some (strscan_double (x * 100 ^ nat idig') ex2 neg)
          else (case round_bit xi lo i of None \<Rightarrow> None
                | Some b \<Rightarrow> Some (strscan_double (push_bit 1 x OR (if b then 1 else 0)) (ex2 - 1) neg)))"

definition dec_slow :: "nat list \<Rightarrow> int \<Rightarrow> bool \<Rightarrow> dbl option" where
  "dec_slow xip ex10 neg =
     (let lo = length xip; idig = int lo + ex10 div 2;
          xi = xip @ replicate (STRSCAN_DDIG - lo) 0
      in if idig > 310 div 2 then Some (Infinity neg)
         else if idig < -(326 div 2) then Some (Scaled neg 0 0)
         else (case scale_up xi lo 0 idig 0 of None \<Rightarrow> None
               | Some (xi1, lo1, hi1, idig1, ex1) \<Rightarrow>
                   (case scale_down xi1 lo1 hi1 idig1 ex1 of None \<Rightarrow> None
                    | Some (xi2, lo2, hi2, idig2, ex2) \<Rightarrow> dec_to_double xi2 lo2 hi2 idig2 ex2 neg)))"

text \<open>
  The value of \<open>strscan_dec\<close>; \<open>None\<close> is a scaling loop that does not end. The second component of
  \<open>dec_fast\<close> tells whether the fast path returned.
\<close>

definition dec_fast ::
    "nat list \<Rightarrow> nat \<Rightarrow> StrScanFmt \<Rightarrow> scan_opt \<Rightarrow> bool \<Rightarrow> (StrScanFmt \<times> tvalue) option" where
  "dec_fast xi dig fmt opt neg =
     (let x0 = (if xi = [] then 0 else of_nat (hd xi));
          x = fold (\<lambda>d acc. acc * 100 + of_nat d) (tl xi) x0 :: 64 word;
          u32 = (if drop_bit 32 x \<noteq> 0 then (STRSCAN_ERROR, V_none) else (STRSCAN_U32, V_i (neg32 neg x)));
          plain = (\<lambda>f. if x <s 0 then None else Some (f, V_n (Scaled neg x 0)))
      in if dig = 20 \<and> ((xi \<noteq> [] \<and> hd xi > 18) \<or> 0 \<le>s x) then None
         else (case fmt of
                 STRSCAN_INT \<Rightarrow>
                   if \<not> opt_tonum opt \<and> unat x < 0x80000000 + neg_int neg
                   then Some (STRSCAN_INT, V_i (neg32 neg x))
                   else if \<not> opt_c opt then plain STRSCAN_NUM else Some u32
               | STRSCAN_U32 \<Rightarrow> Some u32
               | STRSCAN_I64 \<Rightarrow> Some (fmt, V_u64 (neg64 neg x))
               | STRSCAN_U64 \<Rightarrow> Some (fmt, V_u64 (neg64 neg x))
               | _ \<Rightarrow> plain fmt))"

definition strscan_dec ::
    "string \<Rightarrow> nat \<Rightarrow> StrScanFmt \<Rightarrow> scan_opt \<Rightarrow> int \<Rightarrow> bool \<Rightarrow> nat \<Rightarrow> (StrScanFmt \<times> tvalue) option" where
  "strscan_dec s p fmt opt ex10 neg dig0 =
     (let (xi, ex, dig) = dec_collect s p ex10 dig0;
          fast = (if dig \<le> 20 \<and> ex = 0 then dec_fast xi dig fmt opt neg else None);
          fmt0 = (if fmt = STRSCAN_INT \<and> \<not> opt_c opt \<and> dig \<le> 20 \<and> ex = 0 then STRSCAN_NUM else fmt)
      in case fast of Some r \<Rightarrow> Some r
         | None \<Rightarrow>
             if fmt0 = STRSCAN_INT \<and> opt_c opt then Some (STRSCAN_ERROR, V_none)
             else if fmt0 \<in> {STRSCAN_U32, STRSCAN_I64, STRSCAN_U64} then Some (STRSCAN_ERROR, V_none)
             else (let fmt1 = (if fmt0 = STRSCAN_INT then STRSCAN_NUM else fmt0)
                   in map_option (\<lambda>d. (fmt1, V_n d)) (dec_slow xi ex neg)))"
subsection \<open>Scanning\<close>

function skip_space :: "string \<Rightarrow> nat \<Rightarrow> nat" where
  "skip_space s p = (if p < length s \<and> lj_char_isspace (at s p) then skip_space s (Suc p) else p)"
  by auto
termination by (relation "measure (\<lambda>(s, p). length s - p)") auto

declare skip_space.simps [simp del]

definition strscan_nonnumber :: "string \<Rightarrow> nat \<Rightarrow> bool \<Rightarrow> StrScanFmt \<times> tvalue" where
  "strscan_nonnumber s p neg =
     (let c = (\<lambda>i ch. casecmp (at s (p + i)) (of_char ch));
          isinf = (c 0 (CHR ''i'') \<and> c 1 (CHR ''n'') \<and> c 2 (CHR ''f''));
          inity = (c 3 (CHR ''i'') \<and> c 4 (CHR ''n'') \<and> c 5 (CHR ''i'') \<and> c 6 (CHR ''t'') \<and> c 7 (CHR ''y''));
          isnan = (c 0 (CHR ''n'') \<and> c 1 (CHR ''a'') \<and> c 2 (CHR ''n''));
          (v, q) = (if isinf then (Infinity neg, if inity then p + 8 else p + 3)
                    else if isnan then (NaN, p + 3) else (NaN, p))
      in if at s (skip_space s q) \<noteq> 0 then (STRSCAN_ERROR, V_none) else (STRSCAN_NUM, V_n v))"

text \<open>Leading zeros: the offset after them, whether there was one, the decimal point.\<close>

function scan_zeros :: "string \<Rightarrow> nat \<Rightarrow> bool \<Rightarrow> nat option \<Rightarrow> (nat \<times> bool \<times> nat option) option" where
  "scan_zeros s p hasdig dp =
     (if p < length s \<and> at s p = 0x30 then scan_zeros s (Suc p) True dp
      else if p < length s \<and> at s p = 0x2E then
        (if dp \<noteq> None then None else scan_zeros s (Suc p) hasdig (Some p))
      else Some (p, hasdig, dp))"
  by auto
termination by (relation "measure (\<lambda>(s, p, _). length s - p)") auto

function scan_digits ::
    "string \<Rightarrow> nat \<Rightarrow> nat \<Rightarrow> 32 word \<Rightarrow> nat \<Rightarrow> nat option \<Rightarrow> (nat \<times> 32 word \<times> nat \<times> nat option) option" where
  "scan_digits s cmask p x dig dp =
     (if p < length s \<and> lj_char_isa (at s p) cmask \<noteq> 0
      then scan_digits s cmask (Suc p) (x * 10 + word_of_int (at s p AND 15)) (Suc dig) dp
      else if p < length s \<and> at s p = 0x2E then
        (if dp \<noteq> None then None else scan_digits s cmask (Suc p) x dig (Some p))
      else Some (p, x, dig, dp))"
  by auto
termination by (relation "measure (\<lambda>(s, _, p, _). length s - p)") auto

declare scan_zeros.simps [simp del] scan_digits.simps [simp del]

function strip_zeros :: "string \<Rightarrow> nat \<Rightarrow> int \<Rightarrow> nat \<Rightarrow> int \<times> nat" where
  "strip_zeros s dp ex dig =
     (if ex < 0 \<and> at s dp = 0x30 then strip_zeros s (dp - 1) (ex + 1) (dig - 1) else (ex, dig))"
  by auto
termination by (relation "measure (\<lambda>(_, _, ex, _). nat (- ex))") auto

function exp_digits :: "string \<Rightarrow> nat \<Rightarrow> nat \<Rightarrow> nat \<times> nat" where
  "exp_digits s p xx =
     (if p < length s \<and> lj_char_isdigit (at s p)
      then exp_digits s (Suc p) (if xx < 65536 then xx * 10 + nat (at s p AND 15) else xx)
      else (xx, p))"
  by auto
termination by (relation "measure (\<lambda>(s, p, _). length s - p)") auto

declare strip_zeros.simps [simp del] exp_digits.simps [simp del]

text \<open>The exponent, if there is one: the adjusted exponent, the format and the offset after it.\<close>

definition scan_exponent ::
    "string \<Rightarrow> nat \<Rightarrow> nat \<Rightarrow> int \<Rightarrow> StrScanFmt \<Rightarrow> (int \<times> StrScanFmt \<times> nat) option" where
  "scan_exponent s base p ex fmt =
     (if casecmp (at s p) (if base = 16 then of_char (CHR ''p'') else of_char (CHR ''e'')) then
        let p1 = Suc p;
            negx = (at s p1 = of_char (CHR ''-''));
            p2 = (if at s p1 = of_char (CHR ''+'') \<or> negx then Suc p1 else p1)
        in if \<not> lj_char_isdigit (at s p2) then None
           else (let (xx, p3) = exp_digits s (Suc p2) (nat (at s p2 AND 15))
                 in Some (ex + (if negx then - int xx else int xx), STRSCAN_NUM, p3))
      else Some (ex, fmt, p))"

fun fmt_ll :: "StrScanFmt \<Rightarrow> StrScanFmt" where
  "fmt_ll STRSCAN_U32 = STRSCAN_U64"
| "fmt_ll _ = STRSCAN_I64"

fun fmt_u :: "StrScanFmt \<Rightarrow> StrScanFmt" where
  "fmt_u STRSCAN_I64 = STRSCAN_U64"
| "fmt_u _ = STRSCAN_U32"

text \<open>The suffix of an integer; \<open>long\<close> has eight bytes.\<close>

definition scan_int_suffix :: "string \<Rightarrow> scan_opt \<Rightarrow> nat \<Rightarrow> (StrScanFmt \<times> nat) option" where
  "scan_int_suffix s opt p =
     (let u = (\<lambda>q. casecmp (at s q) (of_char (CHR ''u'')));
          l = (\<lambda>q. casecmp (at s q) (of_char (CHR ''l'')));
          (fmt1, p1) = (if u p then (STRSCAN_U32, Suc p) else (STRSCAN_INT, p))
      in case (if l p1 then
                 if l (Suc p1) then Some (fmt_ll fmt1, p1 + 2)
                 else if \<not> opt_c opt then None else Some (fmt_ll fmt1, Suc p1)
               else Some (fmt1, p1)) of
           None \<Rightarrow> None
         | Some (fmt2, p2) \<Rightarrow>
             let (fmt3, p3) = (if u p2 \<and> (fmt2 = STRSCAN_INT \<or> fmt2 = STRSCAN_I64)
                               then (fmt_u fmt2, Suc p2) else (fmt2, p2))
             in if (fmt3 = STRSCAN_U32 \<and> \<not> opt_c opt) \<or> (fmt3 \<in> {STRSCAN_I64, STRSCAN_U64} \<and> \<not> opt_ll opt)
                then None else Some (fmt3, p3))"

definition scan_suffix :: "string \<Rightarrow> scan_opt \<Rightarrow> StrScanFmt \<Rightarrow> nat \<Rightarrow> StrScanFmt option" where
  "scan_suffix s opt fmt p =
     (if at s p \<noteq> 0 then
        (case (if casecmp (at s p) (of_char (CHR ''i'')) then
                 (if opt_imag opt then Some (STRSCAN_IMAG, Suc p) else None)
               else if fmt = STRSCAN_INT then scan_int_suffix s opt p
               else Some (fmt, p)) of
           None \<Rightarrow> None
         | Some (fmt', q) \<Rightarrow> if at s (skip_space s q) \<noteq> 0 then None else Some fmt')
      else Some fmt)"

text \<open>
  The conversion to an integer that ends the scan with \<open>STRSCAN_OPT_TOINT\<close>; \<open>num2int\<close> gives the
  32-bit integer a double equals, if any.
\<close>

definition try_toint ::
    "(dbl \<Rightarrow> 32 word option) \<Rightarrow> scan_opt \<Rightarrow> StrScanFmt \<times> tvalue \<Rightarrow> StrScanFmt \<times> tvalue" where
  "try_toint num2int opt r =
     (case r of
        (STRSCAN_NUM, V_n d) \<Rightarrow>
          if opt_toint opt then (case num2int d of Some i \<Rightarrow> (STRSCAN_INT, V_i i) | None \<Rightarrow> r) else r
      | _ \<Rightarrow> r)"

definition scan_dispatch ::
    "(dbl \<Rightarrow> 32 word option) \<Rightarrow> string \<Rightarrow> scan_opt \<Rightarrow> bool \<Rightarrow> nat \<Rightarrow> nat \<Rightarrow> StrScanFmt \<Rightarrow> int \<Rightarrow> nat \<Rightarrow> 32 word
      \<Rightarrow> (StrScanFmt \<times> tvalue) option" where
  "scan_dispatch num2int s opt neg base sp fmt ex dig x =
     (if fmt = STRSCAN_INT \<and> base = 10 \<and>
         (dig < 10 \<or> (dig = 10 \<and> at s sp \<le> of_char (CHR ''2'') \<and> unat x < 0x80000000 + neg_int neg)) then
        let y = (if neg then - x else x)
        in Some (if opt_tonum opt then (STRSCAN_NUM, V_n (dbl_of_int (sint y))) else (STRSCAN_INT, V_i y))
      else if base = 0 \<and> \<not> (fmt = STRSCAN_NUM \<or> fmt = STRSCAN_IMAG)
      then Some (strscan_oct s sp fmt neg dig)
      else if base = 16 then Some (try_toint num2int opt (strscan_hex s sp fmt opt ex neg dig))
      else map_option (try_toint num2int opt) (strscan_dec s sp fmt opt ex neg dig))"

definition strscan_regular ::
    "(dbl \<Rightarrow> 32 word option) \<Rightarrow> string \<Rightarrow> scan_opt \<Rightarrow> nat \<Rightarrow> bool \<Rightarrow> (StrScanFmt \<times> tvalue) option" where
  "strscan_regular num2int s opt p neg =
     (let hex = (at s p = 0x30 \<and> casecmp (at s (Suc p)) (of_char (CHR ''x'')));
          base = (if hex then 16 else if opt_c opt \<and> at s p = 0x30 then 0 else 10);
          cmask = (if hex then LJ_CHAR_XDIGIT else LJ_CHAR_DIGIT)
      in case (if at s p \<le> 0x30 then scan_zeros s (if hex then p + 2 else p) False None
               else Some (p, False, None)) of
           None \<Rightarrow> Some (STRSCAN_ERROR, V_none)
         | Some (sp, hasdig, dp0) \<Rightarrow>
        (case scan_digits s cmask sp 0 0 dp0 of
           None \<Rightarrow> Some (STRSCAN_ERROR, V_none)
         | Some (p1, x, dig, dp) \<Rightarrow>
             if \<not> hasdig \<and> dig = 0 then Some (STRSCAN_ERROR, V_none)
             else
               let (fmt, ex, dig1) =
                 (case dp of None \<Rightarrow> (STRSCAN_INT, 0, dig)
                  | Some d \<Rightarrow>
                      if dig > 0 then
                        let (e, g) = strip_zeros s (p1 - 1) (int d - (int p1 - 1)) dig
                        in (STRSCAN_NUM, if base = 16 then e * 4 else e, g)
                      else (STRSCAN_NUM, 0, dig))
               in (case scan_exponent s base p1 ex fmt of
                     None \<Rightarrow> Some (STRSCAN_ERROR, V_none)
                   | Some (ex1, fmt1, p2) \<Rightarrow>
                       (case scan_suffix s opt fmt1 p2 of
                          None \<Rightarrow> Some (STRSCAN_ERROR, V_none)
                        | Some fmt2 \<Rightarrow> scan_dispatch num2int s opt neg base sp fmt2 ex1 dig1 x))))"

definition lj_strscan_scan ::
    "(dbl \<Rightarrow> 32 word option) \<Rightarrow> string \<Rightarrow> scan_opt \<Rightarrow> (StrScanFmt \<times> tvalue) option" where
  "lj_strscan_scan num2int s opt =
     (if \<not> lj_char_isdigit (at s 0) then
        let p = skip_space s 0;
            neg = (at s p = of_char (CHR ''-''));
            q = (if at s p = of_char (CHR ''+'') \<or> neg then Suc p else p)
        in if at s q \<ge> of_char (CHR ''A'') then Some (strscan_nonnumber s q neg)
           else strscan_regular num2int s opt q neg
      else strscan_regular num2int s opt 0 False)"

definition lj_strscan_num :: "string \<Rightarrow> (bool \<times> tvalue) option" where
  "lj_strscan_num s =
     map_option (\<lambda>(fmt, v). (fmt \<noteq> STRSCAN_ERROR, v))
       (lj_strscan_scan (\<lambda>_. None) s
          \<lparr>opt_toint = False, opt_tonum = True, opt_imag = False, opt_ll = False, opt_c = False\<rparr>)"

end
