(* ===== verification/Lj_Lex.thy ===== *)
theory Lj_Lex
  imports Lj_Strscan Web_Prelude
begin

text \<open>
  \<open>lj_lex.c\<close>: the lexer that reads the script of a page. Its state is a record: the current
  character (-1 at the end of the stream), the unread part of the input buffer, the blocks the
  reader callback will still deliver, the token buffer with its capacity, and the line counters.
  The counter \<open>n\<close> of unread bytes is unsigned, and the macro \<open>next\<close> decrements it before it asks for
  more input, so after the end of the stream it has wrapped around and another \<open>next\<close> would read
  past the buffer: \<open>ls_wrapped\<close> records this, and such a read is the error \<open>Overread\<close>. The other
  errors are those \<open>lj_lex_error\<close> raises. A token without a value leaves the \<open>TValue\<close> of its caller
  as it was, which is \<open>TV_none\<close> here. Strings are kept as values; interning is the business of
  \<open>lj_str.c\<close>. The build is the one for x64: no dual-number mode, with the FFI.
\<close>

subsection \<open>State and errors\<close>

datatype errmsg = ERR_XELEM | ERR_XLINES | ERR_XNUMBER | ERR_XLSTR | ERR_XLCOM | ERR_XSTR | ERR_XESC
  | ERR_XLDELIM | ERR_BCBAD

datatype lex_error =
    Lex_error int "string option" int errmsg
  | Overread
  | Scan_runs_on

datatype tokval = TV_none | TV_str string | TV_num tvalue | TV_cdata StrScanFmt tvalue

record lexstate =
  ls_current :: int
  ls_buf :: string
  ls_wrapped :: bool
  ls_chunks :: "string list"
  ls_sb :: string
  ls_sbsz :: nat
  ls_line :: int
  ls_lastline :: int
  ls_token :: int
  ls_tokenval :: tokval
  ls_lookahead :: int
  ls_lookaheadval :: tokval

abbreviation END_OF_STREAM :: int where "END_OF_STREAM \<equiv> -1"
abbreviation LJ_MAX_STR :: nat where "LJ_MAX_STR \<equiv> 0x7FFFFF00"
abbreviation LJ_MAX_LINE :: int where "LJ_MAX_LINE \<equiv> 0x7FFFFF00"
abbreviation LJ_MIN_SBUF :: nat where "LJ_MIN_SBUF \<equiv> 32"
abbreviation TK_OFS :: int where "TK_OFS \<equiv> 256"

text \<open>The token names: reserved words first, then the tokens of several characters.\<close>

definition tokennames :: "string list" where
  "tokennames =
     [''and'', ''break'', ''do'', ''else'', ''elseif'', ''end'', ''false'',
      ''for'', ''function'', ''goto'', ''if'', ''in'', ''local'', ''nil'', ''not'', ''or'',
      ''repeat'', ''return'', ''then'', ''true'', ''until'', ''while'',
      ''..'', ''...'', ''=='', ''>='', ''<='', ''~='', ''::'', ''<number>'', ''<name>'', ''<string>'',
      ''<eof>'']"

abbreviation TK_RESERVED :: nat where "TK_RESERVED \<equiv> 22"
abbreviation TK_concat :: int where "TK_concat \<equiv> 279"
abbreviation TK_dots :: int where "TK_dots \<equiv> 280"
abbreviation TK_eq :: int where "TK_eq \<equiv> 281"
abbreviation TK_ge :: int where "TK_ge \<equiv> 282"
abbreviation TK_le :: int where "TK_le \<equiv> 283"
abbreviation TK_ne :: int where "TK_ne \<equiv> 284"
abbreviation TK_label :: int where "TK_label \<equiv> 285"
abbreviation TK_number :: int where "TK_number \<equiv> 286"
abbreviation TK_name :: int where "TK_name \<equiv> 287"
abbreviation TK_string :: int where "TK_string \<equiv> 288"
abbreviation TK_eof :: int where "TK_eof \<equiv> 289"

text \<open>Characters as the lexer compares them.\<close>

abbreviation chr :: "char \<Rightarrow> int" where "chr c \<equiv> of_char c"

definition lj_lex_token2str :: "int \<Rightarrow> string" where
  "lj_lex_token2str token =
     (if token > TK_OFS then tokennames ! nat (token - TK_OFS - 1)
      else if \<not> lj_char_iscntrl token then [char_of (nat token)]
      else ''char('' @ to_string_int token @ '')'')"

definition lbind :: "'e + 'a \<Rightarrow> ('a \<Rightarrow> 'e + 'b) \<Rightarrow> 'e + 'b" where
  "lbind m f = (case m of Inl e \<Rightarrow> Inl e | Inr x \<Rightarrow> f x)"

lemma lbind_simps [simp]: "lbind (Inl e) f = Inl e" "lbind (Inr x) f = f x"
  by (simp_all add: lbind_def)

lemma lbind_cong [fundef_cong]:
  "m = m' \<Longrightarrow> (\<And>x. m' = Inr x \<Longrightarrow> f x = f' x) \<Longrightarrow> lbind m f = lbind m' f'"
  by (cases m') auto

lemma lbind_Inr_iff: "lbind m f = Inr y \<longleftrightarrow> (\<exists>x. m = Inr x \<and> f x = Inr y)"
  by (cases m) auto

lemma lbind_Inl_iff: "lbind m f = Inl e \<longleftrightarrow> m = Inl e \<or> (\<exists>x. m = Inr x \<and> f x = Inl e)"
  by (cases m) auto

subsection \<open>Buffer handling\<close>

definition fillbuf :: "lexstate \<Rightarrow> int \<times> lexstate" where
  "fillbuf ls =
     (case ls_chunks ls of
        (c # cs) # rest \<Rightarrow> (chr c, ls\<lparr>ls_buf := cs, ls_chunks := rest\<rparr>)
      | _ \<Rightarrow> (END_OF_STREAM, ls\<lparr>ls_wrapped := True\<rparr>))"

definition next_char :: "lexstate \<Rightarrow> lex_error + lexstate" where
  "next_char ls =
     (if ls_wrapped ls then Inl Overread
      else (case ls_buf ls of
              c # cs \<Rightarrow> Inr (ls\<lparr>ls_current := chr c, ls_buf := cs\<rparr>)
            | [] \<Rightarrow> (case fillbuf ls of (c, ls') \<Rightarrow> Inr (ls'\<lparr>ls_current := c\<rparr>))))"

text \<open>Before a message with the text of a token, the buffer gets a NUL, which may already overflow it.\<close>

definition lj_lex_error :: "lexstate \<Rightarrow> int \<Rightarrow> errmsg \<Rightarrow> lex_error" where
  "lj_lex_error ls token em =
     (if token = 0 then Lex_error token None (ls_line ls) em
      else if token = TK_name \<or> token = TK_string \<or> token = TK_number then
        if length (ls_sb ls) + 1 > ls_sbsz ls \<and> ls_sbsz ls \<ge> LJ_MAX_STR div 2
        then Lex_error 0 None (ls_line ls) ERR_XELEM
        else Lex_error token (Some (c_str (ls_sb ls))) (ls_line ls) em
      else Lex_error token (Some (lj_lex_token2str token)) (ls_line ls) em)"

definition save_grow :: "lexstate \<Rightarrow> int \<Rightarrow> lex_error + lexstate" where
  "save_grow ls c =
     (if ls_sbsz ls \<ge> LJ_MAX_STR div 2 then Inl (lj_lex_error ls 0 ERR_XELEM)
      else Inr (ls\<lparr>ls_sbsz := ls_sbsz ls * 2, ls_sb := ls_sb ls @ [char_of (nat (c mod 256))]\<rparr>))"

definition save :: "lexstate \<Rightarrow> int \<Rightarrow> lex_error + lexstate" where
  "save ls c =
     (if length (ls_sb ls) + 1 > ls_sbsz ls then save_grow ls c
      else Inr (ls\<lparr>ls_sb := ls_sb ls @ [char_of (nat (c mod 256))]\<rparr>))"

definition save_and_next :: "lexstate \<Rightarrow> lex_error + lexstate" where
  "save_and_next ls = lbind (save ls (ls_current ls)) next_char"

definition resetbuf :: "lexstate \<Rightarrow> lexstate" where
  "resetbuf ls = ls\<lparr>ls_sb := []\<rparr>"

definition currIsNewline :: "lexstate \<Rightarrow> bool" where
  "currIsNewline ls \<longleftrightarrow> ls_current ls = chr LF \<or> ls_current ls = chr CR"

definition bump_line :: "lexstate \<Rightarrow> lex_error + lexstate" where
  "bump_line ls =
     (let ls' = ls\<lparr>ls_line := ls_line ls + 1\<rparr>
      in if ls_line ls' \<ge> LJ_MAX_LINE then Inl (lj_lex_error ls' (ls_token ls') ERR_XLINES) else Inr ls')"

definition inclinenumber :: "lexstate \<Rightarrow> lex_error + lexstate" where
  "inclinenumber ls =
     lbind (next_char ls) (\<lambda>ls1.
     lbind (if currIsNewline ls1 \<and> ls_current ls1 \<noteq> ls_current ls then next_char ls1 else Inr ls1)
       bump_line)"

text \<open>What is left to read, the current character included.\<close>

definition lsize :: "lexstate \<Rightarrow> nat" where
  "lsize ls = (if ls_current ls = END_OF_STREAM then 0
     else Suc (length (ls_buf ls) + length (concat (ls_chunks ls))))"

lemma chr_nonneg [simp]: "(0 :: int) \<le> chr c" "chr c \<noteq> END_OF_STREAM"
proof -
  have "(chr c :: int) = int (of_char c)" by (metis of_nat_of_char)
  then show "(0 :: int) \<le> chr c" "chr c \<noteq> END_OF_STREAM" by linarith+
qed

lemma next_char_lsize:
  "next_char ls = Inr ls' \<Longrightarrow> ls_current ls \<noteq> END_OF_STREAM \<Longrightarrow> lsize ls' < lsize ls"
  by (auto simp: next_char_def fillbuf_def lsize_def split: if_splits list.splits)

lemma save_same:
  "save ls c = Inr ls' \<Longrightarrow> \<exists>sz. ls' = ls\<lparr>ls_sbsz := sz, ls_sb := ls_sb ls @ [char_of (nat (c mod 256))]\<rparr>"
proof (cases "length (ls_sb ls) + 1 > ls_sbsz ls")
  case False
  assume "save ls c = Inr ls'"
  with False show ?thesis by (intro exI [of _ "ls_sbsz ls"]) (auto simp: save_def)
qed (auto simp: save_def save_grow_def split: if_splits)

lemma save_lsize: "save ls c = Inr ls' \<Longrightarrow> lsize ls' = lsize ls \<and> ls_current ls' = ls_current ls"
  by (auto simp: lsize_def dest!: save_same)

lemma save_and_next_lsize:
  "save_and_next ls = Inr ls' \<Longrightarrow> ls_current ls \<noteq> END_OF_STREAM \<Longrightarrow> lsize ls' < lsize ls"
  unfolding save_and_next_def lbind_Inr_iff using next_char_lsize save_lsize by fastforce

lemma next_char_lsize_le: "next_char ls = Inr ls' \<Longrightarrow> ls_wrapped ls = (ls_current ls = END_OF_STREAM) \<Longrightarrow>
  lsize ls' < lsize ls"
  by (rule next_char_lsize) (auto simp: next_char_def split: if_splits)

lemma inclinenumber_lsize:
  assumes "inclinenumber ls = Inr ls'" "currIsNewline ls"
  shows "lsize ls' < lsize ls"
proof -
  from assms obtain ls1 ls2 where 1: "next_char ls = Inr ls1"
    and 2: "(if currIsNewline ls1 \<and> ls_current ls1 \<noteq> ls_current ls then next_char ls1 else Inr ls1) = Inr ls2"
    and 3: "bump_line ls2 = Inr ls'"
    unfolding inclinenumber_def lbind_Inr_iff by blast
  have c: "currIsNewline l \<Longrightarrow> ls_current l \<noteq> END_OF_STREAM" for l
    using chr_nonneg(2) [of LF] chr_nonneg(2) [of CR] unfolding currIsNewline_def by metis
  from 1 c [OF assms(2)] have "lsize ls1 < lsize ls" by (intro next_char_lsize)
  moreover from 2 c [of ls1] have "lsize ls2 \<le> lsize ls1"
    using next_char_lsize [of ls1 ls2] by (auto split: if_splits)
  moreover from 3 have "lsize ls' = lsize ls2"
    by (auto simp: bump_line_def Let_def lsize_def split: if_splits)
  ultimately show ?thesis by simp
qed

subsection \<open>Scanner for terminals\<close>

function number_chars :: "lexstate \<Rightarrow> int \<Rightarrow> int \<Rightarrow> lex_error + lexstate" where
  "number_chars ls c xp =
     (if ls_current ls \<noteq> END_OF_STREAM \<and>
         (lj_char_isident (ls_current ls) \<or> ls_current ls = chr (CHR ''.'') \<or>
          ((ls_current ls = chr (CHR ''-'') \<or> ls_current ls = chr (CHR ''+'')) \<and> (c OR 0x20) = xp))
      then lbind (save_and_next ls) (\<lambda>ls'. number_chars ls' (ls_current ls) xp)
      else Inr ls)"
  by auto
termination
  by (relation "measure (\<lambda>(ls, _). lsize ls)") (auto intro: save_and_next_lsize)

text \<open>The options of the scan: doubles always, 64-bit and imaginary literals allowed.\<close>

definition lex_scan_opt :: scan_opt where
  "lex_scan_opt = \<lparr>opt_toint = False, opt_tonum = True, opt_imag = True, opt_ll = True, opt_c = False\<rparr>"

definition lex_number :: "lexstate \<Rightarrow> lex_error + tokval \<times> lexstate" where
  "lex_number ls =
     lbind (if ls_current ls = chr (CHR ''0'') then save_and_next ls else Inr ls) (\<lambda>ls1.
     let xp = (if ls_current ls = chr (CHR ''0'') \<and> (ls_current ls1 OR 0x20) = chr (CHR ''x'')
               then chr (CHR ''p'') else chr (CHR ''e''))
     in lbind (number_chars ls1 (ls_current ls) xp) (\<lambda>ls2.
     lbind (save ls2 0) (\<lambda>ls3.
     case lj_strscan_scan (\<lambda>_. None) (c_str (ls_sb ls3)) lex_scan_opt of
       None \<Rightarrow> Inl Scan_runs_on
     | Some (fmt, v) \<Rightarrow>
         if fmt = STRSCAN_NUM then Inr (TV_num v, ls3)
         else if fmt \<noteq> STRSCAN_ERROR then Inr (TV_cdata fmt v, ls3)
         else Inl (lj_lex_error ls3 TK_number ERR_XNUMBER))))"

function count_eqs :: "lexstate \<Rightarrow> int \<Rightarrow> lex_error + int \<times> lexstate" where
  "count_eqs ls count =
     (if ls_current ls = chr (CHR ''='')
      then lbind (save_and_next ls) (\<lambda>ls'. count_eqs ls' (count + 1)) else Inr (count, ls))"
  by auto
termination
  by (relation "measure (\<lambda>(ls, _). lsize ls)") (auto intro: save_and_next_lsize)

declare number_chars.simps [simp del] count_eqs.simps [simp del]

definition skip_sep :: "lexstate \<Rightarrow> lex_error + int \<times> lexstate" where
  "skip_sep ls =
     lbind (save_and_next ls) (\<lambda>ls1.
     lbind (count_eqs ls1 0) (\<lambda>(count, ls2).
     Inr (if ls_current ls2 = ls_current ls then count else - count - 1, ls2)))"

lemma count_eqs_lsize: "count_eqs ls n = Inr (m, ls') \<Longrightarrow> lsize ls' \<le> lsize ls"
proof (induction ls n rule: count_eqs.induct)
  case (1 ls count)
  then show ?case
    by (subst (asm) (2) count_eqs.simps)
      (fastforce simp: lbind_Inr_iff split: if_splits dest: save_and_next_lsize)
qed

lemma skip_sep_lsize:
  assumes "skip_sep ls = Inr (m, ls')" "ls_current ls \<noteq> END_OF_STREAM"
  shows "lsize ls' < lsize ls"
proof -
  from assms(1) obtain ls1 n where "save_and_next ls = Inr ls1" "count_eqs ls1 0 = Inr (n, ls')"
    unfolding skip_sep_def lbind_Inr_iff by auto
  with assms(2) show ?thesis using save_and_next_lsize count_eqs_lsize le_less_trans by blast
qed

lemma resetbuf_lsize [simp]: "lsize (resetbuf ls) = lsize ls"
  by (simp add: lsize_def resetbuf_def)

lemma newline_save_lsize:
  assumes "save ls c = Inr ls1" "inclinenumber ls1 = Inr ls2" "currIsNewline ls"
  shows "lsize ls2 < lsize ls"
proof -
  have "currIsNewline ls1" using assms(1,3) save_lsize by (simp add: currIsNewline_def)
  from inclinenumber_lsize [OF assms(2) this] save_lsize [OF assms(1)] show ?thesis by simp
qed

text \<open>
  The loop of \<open>read_long_string\<close>; \<open>tv\<close> tells a string from a comment. The value is the state after
  the closing bracket.
\<close>

function long_string_loop :: "bool \<Rightarrow> int \<Rightarrow> lexstate \<Rightarrow> lex_error + lexstate" where
  "long_string_loop tv sep ls =
     (if ls_current ls = END_OF_STREAM
      then Inl (lj_lex_error ls TK_eof (if tv then ERR_XLSTR else ERR_XLCOM))
      else if ls_current ls = chr (CHR '']'') then
        lbind (skip_sep ls) (\<lambda>(n, ls1). if n = sep then save_and_next ls1 else long_string_loop tv sep ls1)
      else if currIsNewline ls then
        lbind (save ls (chr LF)) (\<lambda>ls1.
        lbind (inclinenumber ls1) (\<lambda>ls2. long_string_loop tv sep (if tv then ls2 else resetbuf ls2)))
      else lbind (if tv then save_and_next ls else next_char ls) (\<lambda>ls1. long_string_loop tv sep ls1))"
  by auto
termination
  by (relation "measure (\<lambda>(_, _, ls). lsize ls)")
    (auto intro: skip_sep_lsize save_and_next_lsize next_char_lsize newline_save_lsize split: if_splits)

declare long_string_loop.simps [simp del]

definition read_long_string :: "bool \<Rightarrow> int \<Rightarrow> lexstate \<Rightarrow> lex_error + tokval \<times> lexstate" where
  "read_long_string tv sep ls =
     lbind (save_and_next ls) (\<lambda>ls1.
     lbind (if currIsNewline ls1 then inclinenumber ls1 else Inr ls1) (\<lambda>ls2.
     lbind (long_string_loop tv sep ls2) (\<lambda>ls3.
     let k = 2 + nat sep
     in Inr (if tv then TV_str (take (length (ls_sb ls3) - 2 * k) (drop k (ls_sb ls3))) else TV_none, ls3))))"

text \<open>The escape \<open>\z\<close>: white space up to the next other character.\<close>

function skip_whitespace :: "lexstate \<Rightarrow> lex_error + lexstate" where
  "skip_whitespace ls =
     (if ls_current ls \<noteq> END_OF_STREAM \<and> lj_char_isspace (ls_current ls)
      then lbind (if currIsNewline ls then inclinenumber ls else next_char ls) skip_whitespace
      else Inr ls)"
  by auto
termination
  by (relation "measure lsize") (auto intro: next_char_lsize inclinenumber_lsize split: if_splits)

declare skip_whitespace.simps [simp del]

definition simple_escape :: "int \<Rightarrow> int option" where
  "simple_escape c =
     map_of [(chr (CHR ''a''), 7), (chr (CHR ''b''), 8), (chr (CHR ''f''), 12), (chr (CHR ''n''), 10),
       (chr (CHR ''r''), 13), (chr (CHR ''t''), 9), (chr (CHR ''v''), 11),
       (chr BACKSLASH, chr BACKSLASH), (chr DQUOTE, chr DQUOTE), (chr SQUOTE, chr SQUOTE)] c"

definition err_xesc :: "lexstate \<Rightarrow> lex_error + 'a" where
  "err_xesc ls = Inl (lj_lex_error ls TK_string ERR_XESC)"

definition hex_nibble :: "lexstate \<Rightarrow> lex_error + int" where
  "hex_nibble ls =
     (if lj_char_isdigit (ls_current ls) then Inr (ls_current ls AND 15)
      else if lj_char_isxdigit (ls_current ls) then Inr ((ls_current ls AND 15) + 9)
      else err_xesc ls)"

text \<open>The escape \<open>\xXX\<close>, with the current character the \<open>x\<close>.\<close>

definition hex_escape :: "lexstate \<Rightarrow> lex_error + lexstate" where
  "hex_escape ls =
     lbind (next_char ls) (\<lambda>ls1.
     lbind (hex_nibble ls1) (\<lambda>h.
     lbind (next_char ls1) (\<lambda>ls2.
     lbind (hex_nibble ls2) (\<lambda>l.
     lbind (save ls2 (16 * h + l)) next_char))))"

text \<open>The escape \<open>\ddd\<close>, with the current character its first digit.\<close>

definition dec_escape :: "lexstate \<Rightarrow> lex_error + lexstate" where
  "dec_escape ls =
     (let c = ls_current ls - chr (CHR ''0'') in
      lbind (next_char ls) (\<lambda>ls1.
      if \<not> lj_char_isdigit (ls_current ls1) then save ls1 c
      else let c1 = c * 10 + (ls_current ls1 - chr (CHR ''0'')) in
        lbind (next_char ls1) (\<lambda>ls2.
        if \<not> lj_char_isdigit (ls_current ls2) then save ls2 c1
        else let c2 = c1 * 10 + (ls_current ls2 - chr (CHR ''0'')) in
          if c2 > 255 then err_xesc ls2
          else lbind (next_char ls2) (\<lambda>ls3. save ls3 c2))))"

text \<open>What follows a backslash; the current character is the one after it.\<close>

definition read_escape :: "lexstate \<Rightarrow> lex_error + lexstate" where
  "read_escape ls =
     (case simple_escape (ls_current ls) of
        Some c \<Rightarrow> lbind (save ls c) next_char
      | None \<Rightarrow>
          if ls_current ls = chr (CHR ''x'') then hex_escape ls
          else if ls_current ls = chr (CHR ''z'') then lbind (next_char ls) skip_whitespace
          else if currIsNewline ls then lbind (save ls (chr LF)) inclinenumber
          else if ls_current ls = END_OF_STREAM then Inr ls
          else if \<not> lj_char_isdigit (ls_current ls) then err_xesc ls
          else dec_escape ls)"

text \<open>Each of these only moves forward.\<close>

lemma skip_whitespace_lsize: "skip_whitespace ls = Inr ls' \<Longrightarrow> lsize ls' \<le> lsize ls"
proof (induction ls rule: skip_whitespace.induct)
  case (1 ls)
  then show ?case
    by (subst (asm) (2) skip_whitespace.simps)
      (fastforce simp: lbind_Inr_iff split: if_splits dest: next_char_lsize inclinenumber_lsize)
qed

lemma next_char_le: "next_char ls = Inr ls' \<Longrightarrow> ls_current ls \<noteq> END_OF_STREAM \<Longrightarrow> lsize ls' \<le> lsize ls"
  using next_char_lsize less_imp_le by blast

lemma isdigit_not_end: "lj_char_isdigit END_OF_STREAM = False" "lj_char_isxdigit END_OF_STREAM = False"
  by (simp_all add: lj_char_ranges)

lemma hex_nibble_not_end: "hex_nibble ls = Inr h \<Longrightarrow> ls_current ls \<noteq> END_OF_STREAM"
  using isdigit_not_end by (auto simp: hex_nibble_def err_xesc_def)

lemma hex_escape_lsize:
  assumes "hex_escape ls = Inr ls'" "ls_current ls \<noteq> END_OF_STREAM"
  shows "lsize ls' \<le> lsize ls"
proof -
  from assms(1) obtain ls1 ls2 ls3 h l where "next_char ls = Inr ls1" "hex_nibble ls1 = Inr h"
    "next_char ls1 = Inr ls2" "hex_nibble ls2 = Inr l" "save ls2 (16 * h + l) = Inr ls3" "next_char ls3 = Inr ls'"
    unfolding hex_escape_def lbind_Inr_iff by blast
  with assms(2) show ?thesis
    using next_char_le hex_nibble_not_end save_lsize order.trans by metis
qed

lemma dec_escape_lsize:
  assumes "dec_escape ls = Inr ls'" "ls_current ls \<noteq> END_OF_STREAM"
  shows "lsize ls' \<le> lsize ls"
proof -
  from assms(1) obtain ls1 where 1: "next_char ls = Inr ls1"
    by (auto simp: dec_escape_def Let_def lbind_Inr_iff)
  have s: "save l c = Inr l' \<Longrightarrow> lsize l' \<le> lsize l" for l c l' using save_lsize by fastforce
  have n: "next_char l = Inr l' \<Longrightarrow> lj_char_isdigit (ls_current l) \<Longrightarrow> lsize l' \<le> lsize l" for l l'
    using next_char_le isdigit_not_end by fastforce
  have "lsize ls' \<le> lsize ls1"
    using assms(1) 1 by (auto simp: dec_escape_def Let_def lbind_Inr_iff err_xesc_def split: if_splits
        dest!: s n intro: order.trans)
  with next_char_le [OF 1 assms(2)] show ?thesis by simp
qed

lemma read_escape_lsize:
  assumes "read_escape ls = Inr ls'" 
  shows "lsize ls' \<le> lsize ls"
proof (cases "ls_current ls = END_OF_STREAM")
  case True
  then show ?thesis using assms isdigit_not_end
    by (simp add: read_escape_def simple_escape_def currIsNewline_def)
next
  case False
  have sn: "save l c = Inr l1 \<Longrightarrow> next_char l1 = Inr l' \<Longrightarrow> ls_current l \<noteq> END_OF_STREAM \<Longrightarrow> lsize l' \<le> lsize l"
    for l c l1 l' using save_lsize next_char_le by metis
  show ?thesis
    using assms False unfolding read_escape_def
    by (auto simp: lbind_Inr_iff err_xesc_def split: option.splits if_splits
        intro: sn hex_escape_lsize dec_escape_lsize less_imp_le newline_save_lsize
          order.trans [OF skip_whitespace_lsize next_char_le])
qed

function read_string_loop :: "int \<Rightarrow> lexstate \<Rightarrow> lex_error + lexstate" where
  "read_string_loop delim ls =
     (if ls_current ls = delim then Inr ls
      else if ls_current ls = END_OF_STREAM then Inl (lj_lex_error ls TK_eof ERR_XSTR)
      else if currIsNewline ls then Inl (lj_lex_error ls TK_string ERR_XSTR)
      else if ls_current ls = chr BACKSLASH then
        lbind (next_char ls) (\<lambda>ls1. lbind (read_escape ls1) (\<lambda>ls2. read_string_loop delim ls2))
      else lbind (save_and_next ls) (\<lambda>ls1. read_string_loop delim ls1))"
  by auto
termination
  by (relation "measure (\<lambda>(_, ls). lsize ls)")
    (auto intro: save_and_next_lsize le_less_trans [OF read_escape_lsize next_char_lsize])

declare read_string_loop.simps [simp del]

definition read_string :: "int \<Rightarrow> lexstate \<Rightarrow> lex_error + tokval \<times> lexstate" where
  "read_string delim ls =
     lbind (save_and_next ls) (\<lambda>ls1.
     lbind (read_string_loop delim ls1) (\<lambda>ls2.
     lbind (save_and_next ls2) (\<lambda>ls3.
     Inr (TV_str (take (length (ls_sb ls3) - 2) (drop 1 (ls_sb ls3))), ls3))))"

subsection \<open>Main lexical scanner\<close>

function ident_chars :: "lexstate \<Rightarrow> lex_error + lexstate" where
  "ident_chars ls =
     lbind (save_and_next ls) (\<lambda>ls1.
     if ls_current ls \<noteq> END_OF_STREAM \<and> lj_char_isident (ls_current ls1) then ident_chars ls1 else Inr ls1)"
  by auto
termination by (relation "measure lsize") (auto intro: save_and_next_lsize)

function skip_line :: "lexstate \<Rightarrow> lex_error + lexstate" where
  "skip_line ls =
     (if \<not> currIsNewline ls \<and> ls_current ls \<noteq> END_OF_STREAM
      then lbind (next_char ls) skip_line else Inr ls)"
  by auto
termination by (relation "measure lsize") (auto intro: next_char_lsize)

declare ident_chars.simps [simp del] skip_line.simps [simp del]

text \<open>The reserved words as \<open>lj_lex_init\<close> numbers them.\<close>

definition reserved :: "string \<Rightarrow> nat" where
  "reserved s = (case find (\<lambda>i. tokennames ! i = s) [0..<TK_RESERVED] of None \<Rightarrow> 0 | Some i \<Rightarrow> i + 1)"

type_synonym lex_outcome = "lex_error + (int \<times> tokval) \<times> lexstate"

text \<open>A token of one character, or of that character and a second one.\<close>

definition one_or_two :: "lexstate \<Rightarrow> char \<Rightarrow> int \<Rightarrow> lex_outcome" where
  "one_or_two ls second two =
     lbind (next_char ls) (\<lambda>ls1.
     if ls_current ls1 \<noteq> chr second then Inr ((ls_current ls, TV_none), ls1)
     else lbind (next_char ls1) (\<lambda>ls2. Inr ((two, TV_none), ls2)))"

definition lex_word :: "lexstate \<Rightarrow> lex_outcome" where
  "lex_word ls =
     (if lj_char_isdigit (ls_current ls) then
        lbind (lex_number ls) (\<lambda>(v, ls1). Inr ((TK_number, v), ls1))
      else
        lbind (ident_chars ls) (\<lambda>ls1.
        let s = ls_sb ls1; r = reserved s
        in Inr ((if r > 0 then TK_OFS + int r else TK_name, TV_str s), ls1)))"

definition lex_dot :: "lexstate \<Rightarrow> lex_outcome" where
  "lex_dot ls =
     lbind (save_and_next ls) (\<lambda>ls1.
     if ls_current ls1 = chr (CHR ''.'') then
       lbind (next_char ls1) (\<lambda>ls2.
       if ls_current ls2 = chr (CHR ''.'') then
         lbind (next_char ls2) (\<lambda>ls3. Inr ((TK_dots, TV_none), ls3))
       else Inr ((TK_concat, TV_none), ls2))
     else if \<not> lj_char_isdigit (ls_current ls1) then Inr ((chr (CHR ''.''), TV_none), ls1)
     else lbind (lex_number ls1) (\<lambda>(v, ls2). Inr ((TK_number, v), ls2)))"

definition lex_bracket :: "lexstate \<Rightarrow> lex_outcome" where
  "lex_bracket ls =
     lbind (skip_sep ls) (\<lambda>(sep, ls1).
     if sep \<ge> 0 then lbind (read_long_string True sep ls1) (\<lambda>(v, ls2). Inr ((TK_string, v), ls2))
     else if sep = -1 then Inr ((chr (CHR ''[''), TV_none), ls1)
     else Inl (lj_lex_error ls1 TK_string ERR_XLDELIM))"

text \<open>A comment, after its two dashes.\<close>

definition lex_comment :: "lexstate \<Rightarrow> lex_error + lexstate" where
  "lex_comment ls =
     (if ls_current ls = chr (CHR ''['') then
        lbind (skip_sep ls) (\<lambda>(sep, ls1).
        if sep \<ge> 0 then lbind (read_long_string False sep (resetbuf ls1)) (\<lambda>(_, ls2). Inr (resetbuf ls2))
        else skip_line (resetbuf ls1))
      else skip_line ls)"

lemma skip_line_lsize: "skip_line ls = Inr ls' \<Longrightarrow> lsize ls' \<le> lsize ls"
proof (induction ls rule: skip_line.induct)
  case (1 ls)
  then show ?case
    by (subst (asm) (2) skip_line.simps) (fastforce simp: lbind_Inr_iff split: if_splits dest: next_char_lsize)
qed

lemma count_eqs_ge: "count_eqs ls k = Inr (m, ls') \<Longrightarrow> k \<le> m"
proof (induction ls k rule: count_eqs.induct)
  case (1 l k)
  then show ?case by (subst (asm) (2) count_eqs.simps) (fastforce simp: lbind_Inr_iff split: if_splits)
qed

lemma skip_sep_matches:
  assumes "skip_sep ls = Inr (n, ls1)" "0 \<le> n"
  shows "ls_current ls1 = ls_current ls"
proof (rule ccontr)
  assume ne: "ls_current ls1 \<noteq> ls_current ls"
  from assms(1) obtain l v where "save_and_next ls = Inr l" "count_eqs l 0 = Inr v"
    "(case v of (count, ls2) \<Rightarrow> Inr (if ls_current ls2 = ls_current ls then count else - count - 1, ls2))
      = (Inr (n, ls1) :: lex_error + int \<times> lexstate)"
    unfolding skip_sep_def lbind_Inr_iff by blast
  moreover obtain m l2 where "v = (m, l2)" by fastforce
  ultimately have "count_eqs l 0 = Inr (m, ls1)" "n = - m - 1" using ne by (auto split: if_splits)
  with count_eqs_ge assms(2) show False by fastforce
qed

lemma long_string_loop_lsize: "long_string_loop tv sep ls = Inr ls' \<Longrightarrow> 0 \<le> sep \<Longrightarrow> lsize ls' \<le> lsize ls"
proof (induction tv sep ls rule: long_string_loop.induct)
  case (1 tv sep ls)
  consider "ls_current ls = END_OF_STREAM" | (bracket) "ls_current ls = chr (CHR '']'')"
    | (newline) "ls_current ls \<noteq> chr (CHR '']'')" "ls_current ls \<noteq> END_OF_STREAM" "currIsNewline ls"
    | (other) "ls_current ls \<noteq> chr (CHR '']'')" "ls_current ls \<noteq> END_OF_STREAM" "\<not> currIsNewline ls" by blast
  then show ?case
  proof cases
    case bracket
    then have ne: "ls_current ls \<noteq> END_OF_STREAM" by simp
    from bracket "1.prems"(1) obtain n ls1 where s: "skip_sep ls = Inr (n, ls1)"
      and r: "(if n = sep then save_and_next ls1 else long_string_loop tv sep ls1) = Inr ls'"
      by (subst (asm) long_string_loop.simps) (auto simp: lbind_Inr_iff)
    have lt: "lsize ls1 < lsize ls" using skip_sep_lsize [OF s ne] .
    show ?thesis
    proof (cases "n = sep")
      case True
      with r have "save_and_next ls1 = Inr ls'" by simp
      moreover have "ls_current ls1 \<noteq> END_OF_STREAM"
        using skip_sep_matches [OF s] True "1.prems"(2) ne by simp
      ultimately show ?thesis using lt save_and_next_lsize by fastforce
    next
      case False
      with 1(1) [OF ne bracket s, of "n" ls1] r lt "1.prems"(2) show ?thesis by simp
    qed
  next
    case newline
    with "1.prems"(1) obtain ls1 ls2 where s: "save ls (chr LF) = Inr ls1" "inclinenumber ls1 = Inr ls2"
      and r: "long_string_loop tv sep (if tv then ls2 else resetbuf ls2) = Inr ls'"
      by (subst (asm) long_string_loop.simps) (auto simp: lbind_Inr_iff)
    from newline_save_lsize [OF s newline(3)] 1(2) [OF newline(2,1,3) s] r "1.prems"(2) show ?thesis by (auto split: if_splits)
  next
    case other
    with "1.prems"(1) obtain ls1 where s: "(if tv then save_and_next ls else next_char ls) = Inr ls1"
      and r: "long_string_loop tv sep ls1 = Inr ls'"
      by (subst (asm) long_string_loop.simps) (auto simp: lbind_Inr_iff)
    have "lsize ls1 < lsize ls"
      using s other(2) save_and_next_lsize next_char_lsize by (auto split: if_splits)
    with 1(3) [OF other(2,1,3) s r "1.prems"(2)] show ?thesis by simp
  qed (use "1.prems"(1) in \<open>subst (asm) long_string_loop.simps, simp\<close>)
qed

lemma read_long_string_lsize:
  assumes "read_long_string tv sep ls = Inr (v, ls')" "0 \<le> sep" "ls_current ls \<noteq> END_OF_STREAM"
  shows "lsize ls' < lsize ls"
proof -
  from assms(1) obtain ls1 ls2 where 1: "save_and_next ls = Inr ls1"
    "(if currIsNewline ls1 then inclinenumber ls1 else Inr ls1) = Inr ls2" "long_string_loop tv sep ls2 = Inr ls'"
    by (auto simp: read_long_string_def lbind_Inr_iff Let_def)
  have "lsize ls2 \<le> lsize ls1" using 1(2) inclinenumber_lsize by (fastforce split: if_splits)
  with long_string_loop_lsize [OF 1(3) assms(2)] save_and_next_lsize [OF 1(1) assms(3)] show ?thesis by simp
qed

lemma lex_comment_lsize:
  assumes "lex_comment ls = Inr ls'"
  shows "lsize ls' \<le> lsize ls"
proof (cases "ls_current ls = chr (CHR ''['')")
  case True
  with assms obtain sep ls1 where s: "skip_sep ls = Inr (sep, ls1)"
    and r: "(if sep \<ge> 0 then lbind (read_long_string False sep (resetbuf ls1)) (\<lambda>(_, ls2). Inr (resetbuf ls2))
        else skip_line (resetbuf ls1)) = Inr ls'"
    by (auto simp: lex_comment_def lbind_Inr_iff)
  have lt: "lsize ls1 < lsize ls" using skip_sep_lsize [OF s] True by simp
  show ?thesis
  proof (cases "sep \<ge> 0")
    case sep: True
    with r obtain v ls2 where "read_long_string False sep (resetbuf ls1) = Inr (v, ls2)" "ls' = resetbuf ls2"
      by (auto simp: lbind_Inr_iff)
    moreover have "ls_current (resetbuf ls1) \<noteq> END_OF_STREAM"
      using skip_sep_matches [OF s sep] True by (simp add: resetbuf_def)
    ultimately show ?thesis using read_long_string_lsize [OF _ sep] lt by fastforce
  next
    case False
    with r lt skip_line_lsize [of "resetbuf ls1" ls'] show ?thesis by simp
  qed
qed (use assms skip_line_lsize in \<open>auto simp: lex_comment_def\<close>)

text \<open>The loop of \<open>llex\<close>; it starts over after white space and comments.\<close>

function llex_loop :: "lexstate \<Rightarrow> lex_outcome" where
  "llex_loop ls =
     (let c = ls_current ls in
      if c \<noteq> END_OF_STREAM \<and> lj_char_isident c then lex_word ls
      else if currIsNewline ls then lbind (inclinenumber ls) llex_loop
      else if c = 32 \<or> c = 9 \<or> c = 11 \<or> c = 12 then lbind (next_char ls) llex_loop
      else if c = chr (CHR ''-'') then
        lbind (next_char ls) (\<lambda>ls1.
        if ls_current ls1 \<noteq> chr (CHR ''-'') then Inr ((chr (CHR ''-''), TV_none), ls1)
        else lbind (next_char ls1) (\<lambda>ls2. lbind (lex_comment ls2) llex_loop))
      else if c = chr (CHR ''['') then lex_bracket ls
      else if c = chr (CHR ''='') then one_or_two ls (CHR ''='') TK_eq
      else if c = chr (CHR ''<'') then one_or_two ls (CHR ''='') TK_le
      else if c = chr (CHR ''>'') then one_or_two ls (CHR ''='') TK_ge
      else if c = chr (CHR ''~'') then one_or_two ls (CHR ''='') TK_ne
      else if c = chr (CHR '':'') then one_or_two ls (CHR '':'') TK_label
      else if c = chr DQUOTE \<or> c = chr SQUOTE then
        lbind (read_string c ls) (\<lambda>(v, ls1). Inr ((TK_string, v), ls1))
      else if c = chr (CHR ''.'') then lex_dot ls
      else if c = END_OF_STREAM then Inr ((TK_eof, TV_none), ls)
      else lbind (next_char ls) (\<lambda>ls1. Inr ((c, TV_none), ls1)))"
  by auto
termination
proof (relation "measure lsize")
  show "(y, ls) \<in> measure lsize" if "c = ls_current ls" "c = 32 \<or> c = 9 \<or> c = 11 \<or> c = 12" "next_char ls = Inr y"
    for ls c y using that next_char_lsize [of ls y] by auto
  show "(z, ls) \<in> measure lsize" if "c = ls_current ls" "c = chr (CHR ''-'')" "next_char ls = Inr x"
    "\<not> ls_current x \<noteq> chr (CHR ''-'')" "next_char x = Inr y" "lex_comment y = Inr z" for ls c x y z
    using that next_char_lsize [of ls x] next_char_lsize [of x y] lex_comment_lsize [of y z] by simp
qed (auto intro: inclinenumber_lsize)

declare llex_loop.simps [simp del]

definition llex :: "lexstate \<Rightarrow> lex_outcome" where
  "llex ls = llex_loop (resetbuf ls)"

subsection \<open>Lexer API\<close>

function skip_header :: "lexstate \<Rightarrow> lex_error + lexstate" where
  "skip_header ls =
     lbind (next_char ls) (\<lambda>ls1.
     if ls_current ls1 = END_OF_STREAM \<or> ls_current ls = END_OF_STREAM \<or> currIsNewline ls1
     then Inr ls1 else skip_header ls1)"
  by auto
termination by (relation "measure lsize") (auto intro: next_char_lsize)

declare skip_header.simps [simp del]

definition initial_lexstate :: "string list \<Rightarrow> lexstate" where
  "initial_lexstate chunks =
     \<lparr>ls_current = 0, ls_buf = [], ls_wrapped = False, ls_chunks = chunks, ls_sb = [], ls_sbsz = LJ_MIN_SBUF,
      ls_line = 1, ls_lastline = 1, ls_token = 0, ls_tokenval = TV_none,
      ls_lookahead = TK_eof, ls_lookaheadval = TV_none\<rparr>"

text \<open>
  The value tells whether the input is bytecode; a byte order mark or a header line before bytecode
  is an error.
\<close>

definition skip_bom :: "lexstate \<Rightarrow> lex_error + bool \<times> lexstate" where
  "skip_bom ls =
     (case ls_buf ls of
        b0 # b1 # rest \<Rightarrow>
          if ls_current ls = 0xEF \<and> chr b0 = 0xBB \<and> chr b1 = 0xBF
          then lbind (next_char (ls\<lparr>ls_buf := rest\<rparr>)) (\<lambda>ls1. Inr (True, ls1)) else Inr (False, ls)
      | _ \<Rightarrow> Inr (False, ls))"

definition lj_lex_setup :: "string list \<Rightarrow> lex_error + bool \<times> lexstate" where
  "lj_lex_setup chunks =
     lbind (next_char (initial_lexstate chunks)) (\<lambda>ls1.
     lbind (skip_bom ls1) (\<lambda>(header, ls2).
     lbind (if ls_current ls2 = chr (CHR ''#'') then skip_header ls2 else Inr ls2) (\<lambda>ls3.
     if ls_current ls2 = chr (CHR ''#'') \<and> ls_current ls3 = END_OF_STREAM then Inr (False, ls3)
     else
       lbind (if ls_current ls2 = chr (CHR ''#'') then inclinenumber ls3 else Inr ls3) (\<lambda>ls4.
       if ls_current ls4 = 27 then
         if header \<or> ls_current ls2 = chr (CHR ''#'')
         then Inl (Lex_error 0 None (ls_line ls4) ERR_BCBAD) else Inr (True, ls4)
       else Inr (False, ls4)))))"

definition lj_lex_next :: "lexstate \<Rightarrow> lex_error + lexstate" where
  "lj_lex_next ls =
     (let ls0 = ls\<lparr>ls_lastline := ls_line ls\<rparr> in
      if ls_lookahead ls0 = TK_eof then
        lbind (llex ls0) (\<lambda>((tok, v), ls1). Inr (ls1\<lparr>ls_token := tok, ls_tokenval := v\<rparr>))
      else Inr (ls0\<lparr>ls_token := ls_lookahead ls0, ls_lookahead := TK_eof, ls_tokenval := ls_lookaheadval ls0\<rparr>))"

definition lj_lex_lookahead :: "lexstate \<Rightarrow> lex_error + int \<times> lexstate" where
  "lj_lex_lookahead ls =
     lbind (llex ls) (\<lambda>((tok, v), ls1).
       Inr (tok, ls1\<lparr>ls_lookahead := tok, ls_lookaheadval := v\<rparr>))"

end
