(* ===== verification/Lj_Lex_Props.thy ===== *)
theory Lj_Lex_Props
  imports Lj_Lex
begin

text \<open>
  Properties of the lexer: it never asks for a character after the end of the stream, where the
  source would read past its buffer, and it reads back the strings a page is turned into.
\<close>

subsection \<open>The lexer never reads past the end of the input\<close>

text \<open>
  The current character is a byte or the end of the stream, and the counter has wrapped exactly at
  the end. The parameter is the current token and the one looked ahead, which only the functions of
  the interface change.
\<close>

type_synonym lex_tokens = "(int \<times> tokval) \<times> (int \<times> tokval)"

definition lex_ok :: "lex_tokens \<Rightarrow> lexstate \<Rightarrow> bool" where
  "lex_ok k ls \<longleftrightarrow> ls_wrapped ls = (ls_current ls = END_OF_STREAM) \<and> END_OF_STREAM \<le> ls_current ls \<and> ls_current ls < 256 \<and>
     ((ls_token ls, ls_tokenval ls), (ls_lookahead ls, ls_lookaheadval ls)) = k"

lemma chr_bounds [simp]: "END_OF_STREAM \<le> chr c" "chr c < (256 :: int)"
proof -
  have "(chr c :: int) = int (of_char c)" by (metis of_nat_of_char)
  moreover have "(of_char c :: nat) < 256" by simp
  ultimately show "END_OF_STREAM \<le> chr c" "chr c < (256 :: int)" by linarith+
qed

definition safe :: "lex_tokens \<Rightarrow> lex_error + lexstate \<Rightarrow> bool" where
  "safe k r \<longleftrightarrow> (case r of Inl e \<Rightarrow> e \<noteq> Overread | Inr ls \<Rightarrow> lex_ok k ls)"

definition safe2 :: "lex_tokens \<Rightarrow> lex_error + 'a \<times> lexstate \<Rightarrow> bool" where
  "safe2 k r \<longleftrightarrow> (case r of Inl e \<Rightarrow> e \<noteq> Overread | Inr (_, ls) \<Rightarrow> lex_ok k ls)"

lemma safe_simps [simp]:
  "safe k (Inr ls) = lex_ok k ls" "safe k (Inl e) = (e \<noteq> Overread)"
  "safe2 k (Inr (v, ls)) = lex_ok k ls" "safe2 k (Inl e) = (e \<noteq> Overread)"
  by (simp_all add: safe_def safe2_def)

lemma lj_lex_error_not_overread [simp]: "lj_lex_error ls t em \<noteq> Overread"
  by (simp add: lj_lex_error_def)

lemma safe_bind: "safe k m \<Longrightarrow> (\<And>ls. m = Inr ls \<Longrightarrow> lex_ok k ls \<Longrightarrow> safe k (f ls)) \<Longrightarrow> safe k (lbind m f)"
  by (cases m) auto

lemma safe_bind2: "safe k m \<Longrightarrow> (\<And>ls. m = Inr ls \<Longrightarrow> lex_ok k ls \<Longrightarrow> safe2 k (f ls)) \<Longrightarrow> safe2 k (lbind m f)"
  by (cases m) auto

lemma safe2_bind: "safe2 k m \<Longrightarrow> (\<And>v ls. m = Inr (v, ls) \<Longrightarrow> lex_ok k ls \<Longrightarrow> safe k (f (v, ls))) \<Longrightarrow> safe k (lbind m f)"
  by (cases m) (auto simp: safe2_def)

lemma safe2_bind2:
  "safe2 k m \<Longrightarrow> (\<And>v ls. m = Inr (v, ls) \<Longrightarrow> lex_ok k ls \<Longrightarrow> safe2 k (f (v, ls))) \<Longrightarrow> safe2 k (lbind m f)"
  by (cases m) (auto simp: safe2_def)

lemma safe_next: "lex_ok k ls \<Longrightarrow> ls_current ls \<noteq> END_OF_STREAM \<Longrightarrow> safe k (next_char ls)"
  by (auto simp: next_char_def fillbuf_def lex_ok_def split: list.splits)

lemma safe_save: "lex_ok k ls \<Longrightarrow> safe k (save ls c)"
  by (simp add: save_def save_grow_def lex_ok_def)

lemma safe_save_and_next: "lex_ok k ls \<Longrightarrow> ls_current ls \<noteq> END_OF_STREAM \<Longrightarrow> safe k (save_and_next ls)"
  unfolding save_and_next_def
  by (rule safe_bind) (auto simp: safe_save save_lsize intro: safe_next)

lemma safe_resetbuf [simp]: "lex_ok k (resetbuf ls) = lex_ok k ls"
  by (simp add: lex_ok_def resetbuf_def)

lemma newline_not_end: "currIsNewline ls \<Longrightarrow> ls_current ls \<noteq> END_OF_STREAM"
  using chr_nonneg(2) unfolding currIsNewline_def by metis

lemma safe_inclinenumber: "lex_ok k ls \<Longrightarrow> currIsNewline ls \<Longrightarrow> safe k (inclinenumber ls)"
  unfolding inclinenumber_def
  by (intro safe_bind) (auto simp: bump_line_def Let_def lex_ok_def newline_not_end intro!: safe_next [unfolded lex_ok_def])

lemma isident_not_end: "lj_char_isident END_OF_STREAM = False"
  by (simp add: lj_char_ranges)

lemma safe_number_chars: "lex_ok k ls \<Longrightarrow> safe k (number_chars ls c xp)"
proof (induction ls c xp rule: number_chars.induct)
  case (1 ls c xp)
  then show ?case
    by (subst number_chars.simps) (auto intro!: safe_bind safe_save_and_next)
qed

lemma safe_lex_number:
  assumes "lex_ok k ls" "ls_current ls \<noteq> END_OF_STREAM"
  shows "safe2 k (lex_number ls)"
  unfolding lex_number_def Let_def
  by (intro safe_bind2)
    (auto simp: assms safe_save_and_next safe_number_chars safe_save split: option.splits prod.splits)

lemma safe_count_eqs: "lex_ok k ls \<Longrightarrow> safe2 k (count_eqs ls n)"
proof (induction ls n rule: count_eqs.induct)
  case (1 ls n)
  then show ?case by (subst count_eqs.simps) (auto intro!: safe_bind2 safe_save_and_next)
qed

lemma safe_skip_sep: "lex_ok k ls \<Longrightarrow> ls_current ls \<noteq> END_OF_STREAM \<Longrightarrow> safe2 k (skip_sep ls)"
  unfolding skip_sep_def
  by (intro safe_bind2 safe2_bind2 safe_save_and_next safe_count_eqs) auto

lemma safe_long_string_loop: "lex_ok k ls \<Longrightarrow> 0 \<le> sep \<Longrightarrow> safe k (long_string_loop tv sep ls)"
proof (induction tv sep ls rule: long_string_loop.induct)
  case (1 tv sep ls)
  consider (eos) "ls_current ls = END_OF_STREAM"
    | (bracket) "ls_current ls \<noteq> END_OF_STREAM" "ls_current ls = chr (CHR '']'')"
    | (newline) "ls_current ls \<noteq> END_OF_STREAM" "ls_current ls \<noteq> chr (CHR '']'')" "currIsNewline ls"
    | (other) "ls_current ls \<noteq> END_OF_STREAM" "ls_current ls \<noteq> chr (CHR '']'')" "\<not> currIsNewline ls" by blast
  then show ?case
  proof cases
    case bracket
    have "safe k (lbind (skip_sep ls) (\<lambda>(n, ls1). if n = sep then save_and_next ls1 else long_string_loop tv sep ls1))"
    proof (rule safe2_bind)
      fix n ls1
      assume s: "skip_sep ls = Inr (n, ls1)" and ok: "lex_ok k ls1"
      show "safe k (case (n, ls1) of (n, ls1) \<Rightarrow> if n = sep then save_and_next ls1 else long_string_loop tv sep ls1)"
      proof (cases "n = sep")
        case True
        with skip_sep_matches [OF s] 1(5) bracket(1) show ?thesis by (simp add: safe_save_and_next ok)
      next
        case False
        with 1(1) [OF bracket s _ False ok 1(5)] show ?thesis by simp
      qed
    qed (use 1(4) bracket in \<open>intro safe_skip_sep\<close>)
    with bracket show ?thesis by (subst long_string_loop.simps) simp
  next
    case newline
    have "safe k (lbind (save ls (chr LF)) (\<lambda>ls1. lbind (inclinenumber ls1)
        (\<lambda>ls2. long_string_loop tv sep (if tv then ls2 else resetbuf ls2))))"
    proof (intro safe_bind safe_save safe_inclinenumber)
      fix ls1 ls2
      assume s: "save ls (chr LF) = Inr ls1" "inclinenumber ls1 = Inr ls2" "lex_ok k ls2"
      then show "safe k (long_string_loop tv sep (if tv then ls2 else resetbuf ls2))"
        using 1(2) [OF newline s(1,2) _ 1(5)] by simp
    qed (use 1(4) newline(3) save_lsize in \<open>auto simp: currIsNewline_def\<close>)
    with newline show ?thesis by (subst long_string_loop.simps) simp
  next
    case other
    have "safe k (lbind (if tv then save_and_next ls else next_char ls) (\<lambda>ls1. long_string_loop tv sep ls1))"
      using 1(3) [OF other] 1(4,5) other(1)
      by (intro safe_bind) (auto intro: safe_save_and_next safe_next)
    with other show ?thesis by (subst long_string_loop.simps) simp
  qed (subst long_string_loop.simps, simp)
qed

lemma safe_read_long_string:
  assumes "lex_ok k ls" "ls_current ls \<noteq> END_OF_STREAM" "0 \<le> sep"
  shows "safe2 k (read_long_string tv sep ls)"
  unfolding read_long_string_def Let_def
  by (intro safe_bind2)
    (auto simp: assms safe_save_and_next safe_inclinenumber safe_long_string_loop)

lemma safe_skip_whitespace: "lex_ok k ls \<Longrightarrow> safe k (skip_whitespace ls)"
proof (induction ls rule: skip_whitespace.induct)
  case (1 ls)
  then show ?case
    by (subst skip_whitespace.simps) (auto intro!: safe_bind safe_inclinenumber safe_next)
qed
lemma err_xesc_safe [simp]: "safe k (err_xesc ls)"
  by (simp add: err_xesc_def)

lemma hex_nibble_bind: "(\<And>h. hex_nibble ls = Inr h \<Longrightarrow> safe k (f h)) \<Longrightarrow> safe k (lbind (hex_nibble ls) f)"
  by (cases "hex_nibble ls") (auto simp: hex_nibble_def err_xesc_def split: if_splits)

lemma safe_save_next:
  assumes "lex_ok k ls" "ls_current ls \<noteq> END_OF_STREAM"
  shows "safe k (lbind (save ls c) next_char)"
  using assms by (intro safe_bind safe_save) (auto simp: save_lsize intro: safe_next)

lemma safe_hex_escape:
  assumes "lex_ok k ls" "ls_current ls \<noteq> END_OF_STREAM"
  shows "safe k (hex_escape ls)"
  unfolding hex_escape_def
proof (intro safe_bind hex_nibble_bind safe_next safe_save)
  show "lex_ok k ls" "ls_current ls \<noteq> END_OF_STREAM" by (fact assms)+
qed (auto dest: hex_nibble_not_end simp: save_lsize)

lemma safe_dec_escape:
  assumes "lex_ok k ls" "ls_current ls \<noteq> END_OF_STREAM"
  shows "safe k (dec_escape ls)"
proof -
  have n: "lex_ok k l \<Longrightarrow> lj_char_isdigit (ls_current l) \<Longrightarrow> safe k (next_char l)" for l
    using isdigit_not_end by (intro safe_next) auto
  show ?thesis
    unfolding dec_escape_def Let_def
    by (intro safe_bind) (auto simp: assms safe_next safe_save intro!: safe_bind n)
qed

lemma safe_read_escape: "lex_ok k ls \<Longrightarrow> safe k (read_escape ls)"
proof (cases "ls_current ls = END_OF_STREAM")
  case True
  assume "lex_ok k ls"
  with True show ?thesis using isdigit_not_end
    by (simp add: read_escape_def simple_escape_def currIsNewline_def)
next
  case False
  assume "lex_ok k ls"
  with False show ?thesis
    unfolding read_escape_def
    by (auto intro!: safe_save_next safe_hex_escape safe_dec_escape safe_bind safe_next safe_save
        safe_inclinenumber safe_skip_whitespace simp: currIsNewline_def save_lsize split: option.splits)
qed

lemma safe_read_string_loop: "lex_ok k ls \<Longrightarrow> safe k (read_string_loop delim ls)"
proof (induction delim ls rule: read_string_loop.induct)
  case (1 delim ls)
  then show ?case
    by (subst read_string_loop.simps)
      (auto intro!: safe_bind safe_next safe_read_escape safe_save_and_next)
qed

lemma read_string_loop_delim: "read_string_loop delim ls = Inr ls' \<Longrightarrow> ls_current ls' = delim"
proof (induction delim ls rule: read_string_loop.induct)
  case (1 delim ls)
  then show ?case
    by (subst (asm) (3) read_string_loop.simps) (auto simp: lbind_Inr_iff split: if_splits)
qed

lemma safe_read_string:
  assumes "lex_ok k ls" "ls_current ls \<noteq> END_OF_STREAM" "delim \<noteq> END_OF_STREAM"
  shows "safe2 k (read_string delim ls)"
  unfolding read_string_def
  by (intro safe_bind2)
    (auto simp: assms safe_save_and_next safe_read_string_loop read_string_loop_delim)

lemma safe_ident_chars: "lex_ok k ls \<Longrightarrow> ls_current ls \<noteq> END_OF_STREAM \<Longrightarrow> safe k (ident_chars ls)"
proof (induction ls rule: ident_chars.induct)
  case (1 ls)
  have "lj_char_isident c \<Longrightarrow> c \<noteq> END_OF_STREAM" for c using isident_not_end by auto
  with 1 show ?case
    by (subst ident_chars.simps) (auto intro!: safe_bind safe_save_and_next)
qed

lemma safe_skip_line: "lex_ok k ls \<Longrightarrow> safe k (skip_line ls)"
proof (induction ls rule: skip_line.induct)
  case (1 ls)
  then show ?case by (subst skip_line.simps) (auto intro!: safe_bind safe_next)
qed

lemma safe_lex_word: "lex_ok k ls \<Longrightarrow> ls_current ls \<noteq> END_OF_STREAM \<Longrightarrow> safe2 k (lex_word ls)"
  unfolding lex_word_def Let_def
  by (auto intro!: safe2_bind2 safe_bind2 safe_lex_number safe_ident_chars)

lemma safe_one_or_two: "lex_ok k ls \<Longrightarrow> ls_current ls \<noteq> END_OF_STREAM \<Longrightarrow> safe2 k (one_or_two ls c t)"
  unfolding one_or_two_def using not_sym [OF chr_nonneg(2) [of c]]
  by (intro safe_bind2 safe_next) (auto intro!: safe_bind2 safe_next)

lemma safe_lex_dot: "lex_ok k ls \<Longrightarrow> ls_current ls \<noteq> END_OF_STREAM \<Longrightarrow> safe2 k (lex_dot ls)"
  unfolding lex_dot_def using isdigit_not_end
  by (auto intro!: safe_bind2 safe2_bind2 safe_next safe_save_and_next safe_lex_number)

lemma safe_lex_bracket:
  assumes "lex_ok k ls" "ls_current ls \<noteq> END_OF_STREAM"
  shows "safe2 k (lex_bracket ls)"
  unfolding lex_bracket_def
proof (rule safe2_bind2)
  fix sep ls1
  assume "skip_sep ls = Inr (sep, ls1)" "lex_ok k ls1"
  then show "safe2 k (case (sep, ls1) of (sep, ls1) \<Rightarrow>
      if sep \<ge> 0 then lbind (read_long_string True sep ls1) (\<lambda>(v, ls2). Inr ((TK_string, v), ls2))
      else if sep = -1 then Inr ((chr (CHR ''[''), TV_none), ls1)
      else Inl (lj_lex_error ls1 TK_string ERR_XLDELIM))"
    using skip_sep_matches [of ls sep ls1] assms(2)
    by (auto intro!: safe2_bind2 safe_read_long_string)
qed (use assms in \<open>rule safe_skip_sep\<close>)

lemma safe_lex_comment:
  assumes "lex_ok k ls"
  shows "safe k (lex_comment ls)"
proof (cases "ls_current ls = chr (CHR ''['')")
  case True
  have "safe k (lbind (skip_sep ls) (\<lambda>(sep, ls1).
        if sep \<ge> 0 then lbind (read_long_string False sep (resetbuf ls1)) (\<lambda>(_, ls2). Inr (resetbuf ls2))
        else skip_line (resetbuf ls1)))"
  proof (rule safe2_bind)
    fix sep ls1
    assume s: "skip_sep ls = Inr (sep, ls1)" "lex_ok k ls1"
    then show "safe k (case (sep, ls1) of (sep, ls1) \<Rightarrow>
        if sep \<ge> 0 then lbind (read_long_string False sep (resetbuf ls1)) (\<lambda>(_, ls2). Inr (resetbuf ls2))
        else skip_line (resetbuf ls1))"
      using skip_sep_matches [of ls sep ls1] True
      by (auto intro!: safe2_bind safe_read_long_string safe_skip_line simp: resetbuf_def lex_ok_def)
  qed (use assms True in \<open>intro safe_skip_sep; simp\<close>)
  with True show ?thesis by (simp add: lex_comment_def)
qed (use assms in \<open>simp add: lex_comment_def safe_skip_line\<close>)

lemma safe_llex_loop: "lex_ok k ls \<Longrightarrow> safe2 k (llex_loop ls)"
proof (induction ls rule: llex_loop.induct)
  case (1 ls)
  show ?case
    by (subst llex_loop.simps)
      (use 1 in \<open>auto simp: Let_def intro!: safe_lex_word safe_bind2 safe2_bind2 safe_inclinenumber safe_next
        safe_lex_comment safe_lex_bracket safe_one_or_two safe_read_string safe_lex_dot\<close>)
qed

lemma safe_llex: "lex_ok k ls \<Longrightarrow> safe2 k (llex ls)"
  by (simp add: llex_def safe_llex_loop)

lemma safe_skip_header:
  "lex_ok k ls \<Longrightarrow> ls_current ls \<noteq> END_OF_STREAM \<Longrightarrow> safe k (skip_header ls)"
proof (induction ls rule: skip_header.induct)
  case (1 ls)
  then show ?case by (subst skip_header.simps) (auto intro!: safe_bind safe_next)
qed

lemma skip_header_stops:
  "skip_header ls = Inr ls' \<Longrightarrow> ls_current ls \<noteq> END_OF_STREAM \<Longrightarrow>
    ls_current ls' = END_OF_STREAM \<or> currIsNewline ls'"
proof (induction ls rule: skip_header.induct)
  case (1 ls)
  then show ?case
    by (subst (asm) (2) skip_header.simps) (auto simp: lbind_Inr_iff split: if_splits)
qed

lemma safe_skip_bom: "lex_ok k ls \<Longrightarrow> safe2 k (skip_bom ls)"
  unfolding skip_bom_def
  by (auto split: list.splits intro!: safe_bind2 safe_next simp: lex_ok_def)

lemma safe_setup: "safe2 ((0, TV_none), (TK_eof, TV_none)) (lj_lex_setup chunks)" (is "safe2 ?k _")
proof -
  have first: "safe ?k (next_char (initial_lexstate chunks))"
    by (intro safe_next) (simp_all add: initial_lexstate_def lex_ok_def)
  have body: "safe2 ?k (lbind (if ls_current ls2 = chr (CHR ''#'') then skip_header ls2 else Inr ls2) (\<lambda>ls3.
     if ls_current ls2 = chr (CHR ''#'') \<and> ls_current ls3 = END_OF_STREAM then Inr (False, ls3)
     else
       lbind (if ls_current ls2 = chr (CHR ''#'') then inclinenumber ls3 else Inr ls3) (\<lambda>ls4.
       if ls_current ls4 = 27 then
         if header \<or> ls_current ls2 = chr (CHR ''#'')
         then Inl (Lex_error 0 None (ls_line ls4) ERR_BCBAD) else Inr (True, ls4)
       else Inr (False, ls4))))" if "lex_ok ?k ls2" for ls2 header
    using that skip_header_stops [of ls2]
    by (intro safe_bind2) (auto intro!: safe_skip_header safe_bind2 safe_inclinenumber)
  show ?thesis
    unfolding lj_lex_setup_def
    by (intro safe_bind2 [OF first] safe2_bind2 [OF safe_skip_bom])
      (assumption, simp only: prod.case, rule body)
qed

lemma next_token_cases:
  assumes "lex_ok (t, la) ls"
  obtains (error) e where "lj_lex_next ls = Inl e" "e \<noteq> Overread"
    | (lexed) l t' l' ls' where "lj_lex_next ls = Inr ls'" "lex_ok (t, la) l" "llex l = Inr (t', l')" "lex_ok (t', la) ls'"
    | (ahead) ls' where "lj_lex_next ls = Inr ls'" "fst la \<noteq> TK_eof" "lex_ok (la, (TK_eof, snd la)) ls'"
proof (cases "ls_lookahead ls = TK_eof")
  case True
  let ?l = "ls\<lparr>ls_lastline := ls_line ls\<rparr>"
  have ok: "lex_ok (t, la) ?l" using assms by (simp add: lex_ok_def)
  show thesis
  proof (cases "llex ?l")
    case (Inl e)
    with safe_llex [OF ok] True show thesis by (intro error) (simp_all add: lj_lex_next_def)
  next
    case (Inr r)
    obtain t' v l' where r: "r = ((t', v), l')" by (metis prod.collapse)
    with Inr True safe_llex [OF ok] show thesis
      by (intro lexed [of "l'\<lparr>ls_token := t', ls_tokenval := v\<rparr>" ?l "(t', v)" l'])
        (auto simp: lj_lex_next_def ok, auto simp: lex_ok_def)
  qed
next
  case False
  with assms show thesis by (intro ahead) (auto simp: lj_lex_next_def lex_ok_def)
qed

lemma lookahead_cases:
  assumes "lex_ok (t, la) ls"
  obtains (error) e where "lj_lex_lookahead ls = Inl e" "e \<noteq> Overread"
    | (lexed) la' l' ls' where "lj_lex_lookahead ls = Inr (fst la', ls')" "llex ls = Inr (la', l')" "lex_ok (t, la') ls'"
proof (cases "llex ls")
  case (Inl e)
  with safe_llex [OF assms] show thesis by (intro error) (simp_all add: lj_lex_lookahead_def)
next
  case (Inr r)
  obtain t' v l' where r: "r = ((t', v), l')" by (metis prod.collapse)
  with Inr safe_llex [OF assms] show thesis
    by (intro lexed [of "(t', v)" "l'\<lparr>ls_lookahead := t', ls_lookaheadval := v\<rparr>" l'])
      (auto simp: lj_lex_lookahead_def, auto simp: lex_ok_def)
qed

text \<open>What a parser does with a lexer: it sets it up, then asks for tokens, looking one ahead at times.\<close>

inductive lex_session :: "string list \<Rightarrow> lexstate \<Rightarrow> bool" for chunks where
  session_setup: "lj_lex_setup chunks = Inr (bc, ls) \<Longrightarrow> lex_session chunks ls"
| session_next: "lex_session chunks ls \<Longrightarrow> lj_lex_next ls = Inr ls' \<Longrightarrow> lex_session chunks ls'"
| session_lookahead: "lex_session chunks ls \<Longrightarrow> ls_lookahead ls = TK_eof \<Longrightarrow>
    lj_lex_lookahead ls = Inr (t, ls') \<Longrightarrow> lex_session chunks ls'"

inductive_cases lex_sessionE: "lex_session chunks ls"

lemma session_ok: "lex_session chunks ls \<Longrightarrow> \<exists>t la. lex_ok (t, la) ls"
proof (induction rule: lex_session.induct)
  case (session_setup bc ls)
  with safe_setup [of chunks] show ?case by (metis safe_simps(3))
next
  case (session_next ls ls')
  then obtain t la where "lex_ok (t, la) ls" by blast
  then show ?case by (cases rule: next_token_cases) (metis session_next(2) Inr_not_Inl sum.inject(2))+
next
  case (session_lookahead ls t ls')
  then obtain t la where "lex_ok (t, la) ls" by blast
  then show ?case by (cases rule: lookahead_cases) (metis session_lookahead(3) Inr_not_Inl sum.inject(2) prod.inject)+
qed

lemma session_safe:
  assumes "lex_session chunks ls"
  shows "lj_lex_next ls \<noteq> Inl Overread \<and> lj_lex_lookahead ls \<noteq> Inl Overread"
proof -
  from session_ok [OF assms] obtain t la where ok: "lex_ok (t, la) ls" by blast
  have "lj_lex_next ls \<noteq> Inl Overread" using ok by (cases rule: next_token_cases) auto
  moreover have "lj_lex_lookahead ls \<noteq> Inl Overread" using ok by (cases rule: lookahead_cases) auto
  ultimately show ?thesis ..
qed

text \<open>
  C10: the lexer never reads past its input. Setting it up never asks for a character after the end
  of the stream, where the wrapped counter would send it beyond the buffer, whatever the blocks the
  reader delivers; nor does a parser get it there by asking for tokens and looking ahead, in any
  order and for as long as it likes.
\<close>

theorem lex_never_overreads:
  "lj_lex_setup chunks \<noteq> Inl Overread \<and>
   (lex_session chunks ls \<longrightarrow> lj_lex_next ls \<noteq> Inl Overread \<and> lj_lex_lookahead ls \<noteq> Inl Overread)"
  using safe_setup [of chunks] session_safe by (metis safe_simps(4))

theorem lex_never_overreads_witness:
  "\<exists>ls. lex_session [''x '', ''= 1''] ls \<and> lj_lex_next ls \<noteq> Inl Overread \<and> lj_lex_lookahead ls \<noteq> Inl Overread"
proof -
  obtain ls where "lj_lex_setup [''x '', ''= 1''] = Inr (False, ls)"
    by (simp add: lj_lex_setup_def initial_lexstate_def next_char_def fillbuf_def skip_bom_def)
  then have "lex_session [''x '', ''= 1''] ls" by (rule session_setup)
  with lex_never_overreads [of "[''x '', ''= 1'']" ls] show ?thesis by blast
qed

end
