(* ===== verification/Lj_Strscan_Props.thy ===== *)
theory Lj_Strscan_Props
  imports Lj_Strscan Web_Prelude
begin

text \<open>
  Properties of the number scanner: scanning the decimal text of a 32-bit integer gives the
  integer back, in the integer and in the double format, for every integer of the type.
\<close>

subsection \<open>Digits\<close>

lemma of_char_digit_char_int: "n < 10 \<Longrightarrow> of_char (digit_char n) = (48 + int n :: int)"
  using of_char_digit_char [of n] by (metis of_nat_add of_nat_numeral of_nat_of_char)

lemma digit_nibble: "n < 10 \<Longrightarrow> (48 + int n) AND 15 = int n"
proof -
  assume "n < 10"
  then have "n \<in> {0, 1, 2, 3, 4, 5, 6, 7, 8, 9}" by (simp add: less_Suc_eq numeral_eq_Suc)
  then show ?thesis by auto
qed

lemma set_nat_digits: "c \<in> set (nat_digits n) \<Longrightarrow> \<exists>d < 10. c = digit_char d"
proof (induction n rule: nat_digits.induct)
  case (1 n)
  have "\<exists>d < 10. digit_char (n mod 10) = digit_char d" by (intro exI [of _ "n mod 10"]) simp
  with 1 show ?case by (subst (asm) (2) nat_digits.simps) (auto split: if_splits)
qed

lemma at_simps [strscan_simps]:
  "at (c # s) 0 = of_char c" "at (c # s) (Suc i) = at s i" "at [] i = 0"
  by (simp_all add: at_def)

lemma at_append_length: "at (xs @ ys) (length xs + i) = at ys i"
  by (simp add: at_def nth_append)

lemma of_char_range: "0 \<le> (of_char c :: int) \<and> (of_char c :: int) \<le> 255"
proof -
  have "(of_char c :: int) = int (of_char c)" by (metis of_nat_of_char)
  moreover have "(of_char c :: nat) < 256" by (rule nat_of_char_less_256)
  ultimately show ?thesis by linarith
qed

lemma at_range: "0 \<le> at s i \<and> at s i \<le> 255"
  using of_char_range by (simp add: at_def)

lemma isdigit_at: "lj_char_isdigit (at s i) \<longleftrightarrow> 48 \<le> at s i \<and> at s i \<le> 57"
  using at_range [of s i] by (simp add: lj_char_ranges)

lemma isspace_at: "lj_char_isspace (at s i) \<longleftrightarrow> (9 \<le> at s i \<and> at s i \<le> 13) \<or> at s i = 32"
  using at_range [of s i] by (simp add: lj_char_ranges)

lemma fold_digits_word:
  "fold (\<lambda>c x. x * 10 + word_of_int (of_char c AND 15)) (nat_digits n) 0 = (of_nat n :: 32 word)"
proof (induction n rule: nat_digits.induct)
  case (1 n)
  have step: "word_of_int (of_char (digit_char d) AND 15) = (of_nat d :: 32 word)" if "d < 10" for d
    using that by (simp add: of_char_digit_char_int digit_nibble)
  show ?case
  proof (cases "n < 10")
    case True
    then show ?thesis by (subst nat_digits.simps) (simp add: step)
  next
    case False
    have "of_nat (n div 10) * 10 + of_nat (n mod 10) = (of_nat (n div 10 * 10 + n mod 10) :: 32 word)"
      by (simp only: of_nat_add of_nat_mult of_nat_numeral)
    with False 1 show ?thesis by (subst nat_digits.simps) (simp add: step)
  qed
qed

lemma length_nat_digits_le: "n < 10 ^ Suc k \<Longrightarrow> length (nat_digits n) \<le> Suc k"
proof (induction k arbitrary: n)
  case 0
  then show ?case by (subst nat_digits.simps) simp
next
  case (Suc k)
  then have "n div 10 < 10 ^ Suc k" by (simp add: less_mult_imp_div_less mult.commute)
  from Suc.IH [OF this] show ?case by (subst nat_digits.simps) simp
qed

lemma hd_nat_digits:
  "0 < n \<Longrightarrow> \<exists>d. 0 < d \<and> d < 10 \<and> hd (nat_digits n) = digit_char d \<and> d * 10 ^ (length (nat_digits n) - 1) \<le> n"
proof (induction n rule: nat_digits.induct)
  case (1 n)
  show ?case
  proof (cases "n < 10")
    case True
    with "1.prems" show ?thesis by (subst nat_digits.simps, intro exI [of _ n]) (simp add: nat_digits.simps [of n])
  next
    case False
    then have "0 < n div 10" by simp
    from 1(1) [OF False this] obtain d where d: "0 < d" "d < 10" "hd (nat_digits (n div 10)) = digit_char d"
      "d * 10 ^ (length (nat_digits (n div 10)) - 1) \<le> n div 10" by blast
    have eq: "nat_digits n = nat_digits (n div 10) @ [digit_char (n mod 10)]"
      using False by (subst nat_digits.simps) simp
    have len: "length (nat_digits n) - 1 = Suc (length (nat_digits (n div 10)) - 1)"
      using eq nat_digits_nonempty [of "n div 10"] by (cases "nat_digits (n div 10)") auto
    have "d * 10 ^ (length (nat_digits n) - 1) = 10 * (d * 10 ^ (length (nat_digits (n div 10)) - 1))"
      by (simp only: len power_Suc ac_simps)
    also have "\<dots> \<le> 10 * (n div 10)" using d(4) by simp
    also have "\<dots> \<le> n" by simp
    finally show ?thesis using d eq by (intro exI [of _ d]) simp
  qed
qed

subsection \<open>The scan of a digit string\<close>

lemma scan_digits_run:
  assumes "\<And>c. c \<in> set ds \<Longrightarrow> \<exists>d < 10. c = digit_char d"
  shows "scan_digits (pre @ ds) LJ_CHAR_DIGIT (length pre) x dig None =
    Some (length pre + length ds, fold (\<lambda>c x. x * 10 + word_of_int (of_char c AND 15)) ds x,
      dig + length ds, None)"
  using assms
proof (induction ds arbitrary: pre x dig)
  case Nil
  then show ?case by (simp add: scan_digits.simps)
next
  case (Cons c ds)
  from Cons.prems [of c] obtain d where d: "d < 10" "c = digit_char d" by auto
  have at: "at (pre @ c # ds) (length pre) = of_char c"
    using at_append_length [of pre "c # ds" 0] by (simp add: at_simps)
  have "lj_char_isa (of_char c) LJ_CHAR_DIGIT \<noteq> 0"
    using isdigit_at [of "pre @ c # ds" "length pre"] d
    unfolding at by (simp add: of_char_digit_char_int lj_char_isdigit_def)
  moreover have "scan_digits ((pre @ [c]) @ ds) LJ_CHAR_DIGIT (length (pre @ [c]))
      (x * 10 + word_of_int (of_char c AND 15)) (Suc dig) None =
    Some (length (pre @ [c]) + length ds, fold (\<lambda>c x. x * 10 + word_of_int (of_char c AND 15)) ds
      (x * 10 + word_of_int (of_char c AND 15)), Suc dig + length ds, None)"
    using Cons.prems by (intro Cons.IH) auto
  ultimately show ?case by (subst scan_digits.simps) (simp add: at)
qed

lemma regular_digits:
  assumes n: "n < 2 ^ 31 + neg_int neg" and s: "s = pre @ nat_digits n" and c: "\<not> opt_c opt"
  shows "strscan_regular num2int s opt (length pre) neg =
    Some (let y = (if neg then - of_nat n else of_nat n) :: 32 word
      in if opt_tonum opt then (STRSCAN_NUM, V_n (dbl_of_int (sint y))) else (STRSCAN_INT, V_i y))"
proof (cases "n = 0")
  case True
  have "nat_digits 0 = ''0''" by (simp add: nat_digits.simps digit_char_def)
  then have s0: "s = pre @ ''0''" using s True by simp
  have at: "at s (length pre) = 0x30" "at s (Suc (length pre)) = 0"
    using at_append_length [of pre "''0''" 0] at_append_length [of pre "''0''" 1] s0 by (simp_all add: at_simps)
  have "scan_zeros s (length pre) False None = Some (Suc (length pre), True, None)"
    using s0 at by (subst scan_zeros.simps, simp, subst scan_zeros.simps) simp
  moreover have "scan_digits s LJ_CHAR_DIGIT (Suc (length pre)) 0 0 None = Some (Suc (length pre), 0, 0, None)"
    using s0 by (subst scan_digits.simps) simp
  ultimately show ?thesis
    using True c at by (simp add: strscan_regular_def casecmp_def scan_exponent_def scan_suffix_def
        scan_dispatch_def)
next
  case False
  from hd_nat_digits [of n] False obtain d where d: "0 < d" "d < 10" "hd (nat_digits n) = digit_char d"
    "d * 10 ^ (length (nat_digits n) - 1) \<le> n" by auto
  have at0: "at s (length pre) = 48 + int d"
    using at_append_length [of pre "nat_digits n" 0] s d(2,3) nat_digits_nonempty [of n]
    by (cases "nat_digits n") (auto simp: at_simps of_char_digit_char_int)
  have dig: "scan_digits s LJ_CHAR_DIGIT (length pre) 0 0 None
      = Some (length s, of_nat n, length (nat_digits n), None)"
    using scan_digits_run [of "nat_digits n" pre 0 0] set_nat_digits s by (simp add: fold_digits_word)
  have atend: "at s (length s) = 0" by (simp add: at_def)
  have "n < 10 ^ Suc 9" using n by (auto split: if_splits)
  from length_nat_digits_le [OF this] have le: "length (nat_digits n) \<le> 10" by simp
  have fast: "length (nat_digits n) < 10 \<or> (length (nat_digits n) = 10 \<and> at s (length pre) \<le> of_char (CHR ''2'')
      \<and> unat (of_nat n :: 32 word) < 0x80000000 + neg_int neg)"
  proof (cases "length (nat_digits n) = 10")
    case True
    with d(4) have "d * 10 ^ 9 \<le> n" by simp
    with n have "d \<le> 2" by (auto split: if_splits)
    moreover have "unat (of_nat n :: 32 word) = n"
      using n by (simp add: unsigned_of_nat take_bit_nat_eq_self split: if_splits)
    ultimately show ?thesis using True at0 n by simp
  qed (use le in simp)
  show ?thesis
    using d(1) at0 c dig atend fast nat_digits_nonempty [of n]
    by (simp add: strscan_regular_def casecmp_def scan_exponent_def scan_suffix_def scan_dispatch_def Let_def)
qed

lemma sint_32: "- (2 ^ 31) \<le> i \<Longrightarrow> i < 2 ^ 31 \<Longrightarrow> sint (word_of_int i :: 32 word) = i"
  by (simp add: sint_sbintrunc' signed_take_bit_int_eq_self)

text \<open>
  Scanning the decimal text of a 32-bit integer, as \<open>std::to_string\<close> and Lua print it, gives
  back the integer itself when integers are asked for and the double of the same value when
  doubles are, for every integer of the type, the most negative one included.
\<close>

theorem lj_strscan_scan_int:
  assumes "- (2 ^ 31) \<le> i" and "i < 2 ^ 31" and "\<not> opt_c opt"
  shows "lj_strscan_scan num2int (to_string_int i) opt =
    Some (if opt_tonum opt then (STRSCAN_NUM, V_n (dbl_of_int i)) else (STRSCAN_INT, V_i (word_of_int i)))"
proof (cases "i < 0")
  case True
  let ?s = "[CHR ''-''] @ nat_digits (nat (- i))"
  have s: "to_string_int i = ?s" using True by (simp add: to_string_int_def)
  have a0: "at ?s 0 = 45" by (simp add: at_def)
  have a1: "at ?s 1 < 65"
  proof -
    have "nat (- i) > 0" using True by simp
    from hd_nat_digits [OF this] obtain d where "d < 10" "hd (nat_digits (nat (- i))) = digit_char d" by blast
    then show ?thesis
      by (cases "nat_digits (nat (- i))") (auto simp: at_def of_char_digit_char_int)
  qed
  have sp: "skip_space ?s 0 = 0" using a0 isspace_at [of ?s 0] by (subst skip_space.simps) simp
  have "sint (- of_nat (nat (- i)) :: 32 word) = i"
  proof -
    have "(- of_nat (nat (- i)) :: 32 word) = word_of_int i"
      using True by simp
    then show ?thesis using assms by (simp add: sint_32)
  qed
  moreover have "(- of_nat (nat (- i)) :: 32 word) = word_of_int i" using True by simp
  moreover have "lj_strscan_scan num2int ?s opt = strscan_regular num2int ?s opt (length [CHR ''-'']) True"
    using a0 a1 sp isdigit_at [of ?s 0] by (simp add: lj_strscan_scan_def)
  ultimately show ?thesis
    using regular_digits [of "nat (- i)" True ?s "[CHR ''-'']" opt num2int] assms s True by simp
next
  case False
  let ?s = "nat_digits (nat i)"
  have s: "to_string_int i = ?s" using False by (simp add: to_string_int_def)
  have "hd ?s \<in> set ?s" by simp
  then obtain d where d: "d < 10" "hd ?s = digit_char d" using set_nat_digits by blast
  then have "at ?s 0 = 48 + int d" by (cases ?s) (auto simp: at_def of_char_digit_char_int)
  then have "lj_char_isdigit (at ?s 0)" using d(1) isdigit_at [of ?s 0] by simp
  then have "lj_strscan_scan num2int ?s opt = strscan_regular num2int ?s opt (length []) False"
    by (simp add: lj_strscan_scan_def)
  moreover have "(of_nat (nat i) :: 32 word) = word_of_int i" using False by simp
  moreover have "sint (word_of_int i :: 32 word) = i" using assms by (simp add: sint_32)
  ultimately show ?thesis
    using regular_digits [of "nat i" False ?s "[]" opt num2int] assms s False by simp
qed

theorem lj_strscan_scan_int_witness:
  "lj_strscan_scan (\<lambda>_. None) (to_string_int (- 2147483648))
      \<lparr>opt_toint = False, opt_tonum = False, opt_imag = False, opt_ll = False, opt_c = False\<rparr> =
    Some (if opt_tonum \<lparr>opt_toint = False, opt_tonum = False, opt_imag = False, opt_ll = False, opt_c = False\<rparr>
      then (STRSCAN_NUM, V_n (dbl_of_int (- 2147483648))) else (STRSCAN_INT, V_i (word_of_int (- 2147483648))))"
  by (rule lj_strscan_scan_int) simp_all
subsection \<open>The format of a scanned number\<close>

text \<open>The member of the \<open>TValue\<close> union that goes with each format.\<close>

fun fmt_typed :: "StrScanFmt \<Rightarrow> tvalue \<Rightarrow> bool" where
  "fmt_typed STRSCAN_ERROR v = True"
| "fmt_typed STRSCAN_NUM v = (\<exists>d. v = V_n d)"
| "fmt_typed STRSCAN_IMAG v = (\<exists>d. v = V_n d)"
| "fmt_typed STRSCAN_INT v = (\<exists>i. v = V_i i)"
| "fmt_typed STRSCAN_U32 v = (\<exists>i. v = V_i i)"
| "fmt_typed STRSCAN_I64 v = (\<exists>u. v = V_u64 u)"
| "fmt_typed STRSCAN_U64 v = (\<exists>u. v = V_u64 u)"

text \<open>The formats the options allow.\<close>

fun fmt_allowed :: "scan_opt \<Rightarrow> StrScanFmt \<Rightarrow> bool" where
  "fmt_allowed opt STRSCAN_ERROR = True"
| "fmt_allowed opt STRSCAN_NUM = True"
| "fmt_allowed opt STRSCAN_IMAG = opt_imag opt"
| "fmt_allowed opt STRSCAN_INT = (\<not> opt_tonum opt \<or> opt_c opt \<or> opt_toint opt)"
| "fmt_allowed opt STRSCAN_U32 = opt_c opt"
| "fmt_allowed opt STRSCAN_I64 = opt_ll opt"
| "fmt_allowed opt STRSCAN_U64 = opt_ll opt"

definition scanned :: "scan_opt \<Rightarrow> StrScanFmt \<times> tvalue \<Rightarrow> bool" where
  "scanned opt r \<longleftrightarrow> fmt_typed (fst r) (snd r) \<and> fmt_allowed opt (fst r)"

text \<open>The formats a suffix may leave: the integer format stands for any that the digits decide.\<close>

definition suffix_ok :: "scan_opt \<Rightarrow> StrScanFmt \<Rightarrow> bool" where
  "suffix_ok opt fmt \<longleftrightarrow> fmt \<noteq> STRSCAN_ERROR \<and> (fmt = STRSCAN_INT \<or> fmt_allowed opt fmt)"

lemma scan_int_suffix_ok: "scan_int_suffix s opt p = Some (fmt, q) \<Longrightarrow> suffix_ok opt fmt"
  by (auto simp: scan_int_suffix_def suffix_ok_def Let_def split: if_splits option.splits prod.splits)

lemma scan_suffix_ok:
  "scan_suffix s opt fmt p = Some fmt' \<Longrightarrow> fmt = STRSCAN_INT \<or> fmt = STRSCAN_NUM \<Longrightarrow> suffix_ok opt fmt'"
  by (auto simp: scan_suffix_def suffix_ok_def split: if_splits option.splits
      dest!: scan_int_suffix_ok)

lemma scan_exponent_fmt:
  "scan_exponent s base p ex fmt = Some (ex', fmt', q) \<Longrightarrow> fmt' = STRSCAN_NUM \<or> fmt' = fmt"
  by (auto simp: scan_exponent_def Let_def split: if_splits prod.splits)

lemma strscan_hex_scanned: "suffix_ok opt fmt \<Longrightarrow> scanned opt (strscan_hex s p fmt opt ex neg dig)"
  by (cases fmt) (auto simp: strscan_hex_def scanned_def suffix_ok_def Let_def split: prod.splits)

lemma strscan_oct_scanned:
  "suffix_ok opt fmt \<Longrightarrow> opt_c opt \<Longrightarrow> fmt \<noteq> STRSCAN_NUM \<Longrightarrow> fmt \<noteq> STRSCAN_IMAG \<Longrightarrow>
    scanned opt (strscan_oct s p fmt neg dig)"
  by (cases fmt) (auto simp: strscan_oct_def scanned_def suffix_ok_def Let_def split: option.splits)

lemma dec_fast_scanned: "dec_fast xi dig fmt opt neg = Some r \<Longrightarrow> suffix_ok opt fmt \<Longrightarrow> scanned opt r"
  by (cases fmt) (auto simp: dec_fast_def scanned_def suffix_ok_def Let_def split: if_splits)

lemma strscan_dec_scanned:
  assumes "strscan_dec s p fmt opt ex neg dig = Some r" "suffix_ok opt fmt"
  shows "scanned opt r"
proof -
  obtain xi e g where dc: "dec_collect s p ex dig = (xi, e, g)" by (cases "dec_collect s p ex dig")
  show ?thesis
  proof (cases "if g \<le> 20 \<and> e = 0 then dec_fast xi g fmt opt neg else None")
    case None
    with assms dc show ?thesis
      by (cases fmt) (auto simp: strscan_dec_def scanned_def suffix_ok_def Let_def split: if_splits)
  next
    case (Some q)
    with assms dc have "r = q" by (simp add: strscan_dec_def Let_def)
    with Some assms(2) show ?thesis using dec_fast_scanned by (auto split: if_splits)
  qed
qed

lemma try_toint_scanned: "scanned opt r \<Longrightarrow> scanned opt (try_toint f opt r)"
  by (cases r rule: prod.exhaust, cases "fst r"; cases "snd r")
    (auto simp: try_toint_def scanned_def split: option.splits)

lemma scan_dispatch_scanned:
  assumes "scan_dispatch f s opt neg base sp fmt ex dig x = Some r" "suffix_ok opt fmt" "base = 0 \<Longrightarrow> opt_c opt"
  shows "scanned opt r"
  using assms unfolding scan_dispatch_def Let_def
  by (auto simp: scanned_def [of opt "(_, _)"] strscan_oct_scanned strscan_hex_scanned
      intro: try_toint_scanned strscan_dec_scanned split: if_splits)

lemma strscan_regular_scanned:
  assumes "strscan_regular f s opt p neg = Some r"
  shows "scanned opt r"
  using assms unfolding strscan_regular_def Let_def
  by (auto simp: scanned_def [of opt "(STRSCAN_ERROR, _)"] split: option.splits prod.splits if_splits
      dest!: scan_suffix_ok dest: scan_exponent_fmt elim!: scan_dispatch_scanned)

lemma strscan_nonnumber_scanned: "strscan_nonnumber s p neg = r \<Longrightarrow> scanned opt r"
  by (auto simp: strscan_nonnumber_def scanned_def Let_def split: prod.splits if_splits)

lemma lj_strscan_scan_scanned: "lj_strscan_scan f s opt = Some r \<Longrightarrow> scanned opt r"
  by (auto simp: lj_strscan_scan_def Let_def split: if_splits
      intro: strscan_nonnumber_scanned strscan_regular_scanned)

text \<open>
  The format that scanning a string returns always tells which member of the union holds the
  value, and it is one that the options ask for: an imaginary number, a 64-bit integer or an
  unsigned one only when allowed, a 32-bit integer never when doubles are requested. The lexer and
  \<open>lj_strscan_num\<close> assert this of the result.
\<close>

theorem lj_strscan_scan_typed:
  assumes "lj_strscan_scan num2int s opt = Some (fmt, v)"
  shows "fmt_typed fmt v \<and> fmt_allowed opt fmt"
  using lj_strscan_scan_scanned [OF assms] by (simp add: scanned_def)

theorem lj_strscan_scan_typed_witness:
  "lj_strscan_scan (\<lambda>_. None) ''0x1fLL''
      \<lparr>opt_toint = False, opt_tonum = True, opt_imag = True, opt_ll = True, opt_c = False\<rparr> =
      Some (STRSCAN_I64, V_u64 31) \<and>
   fmt_typed STRSCAN_I64 (V_u64 31) \<and>
   fmt_allowed \<lparr>opt_toint = False, opt_tonum = True, opt_imag = True, opt_ll = True, opt_c = False\<rparr> STRSCAN_I64"
proof -
  let ?opt = "\<lparr>opt_toint = False, opt_tonum = True, opt_imag = True, opt_ll = True, opt_c = False\<rparr>"
  have "lj_strscan_scan (\<lambda>_. None) ''0x1fLL'' ?opt = Some (STRSCAN_I64, V_u64 31)" by code_simp
  with lj_strscan_scan_typed [of "\<lambda>_. None" "''0x1fLL''" ?opt STRSCAN_I64 "V_u64 31"] show ?thesis by blast
qed

end
