(* ===== verification/Lj_Lex_Tokens.thy ===== *)
theory Lj_Lex_Tokens
  imports Lj_Lex_Props Lj_Strscan_Props
begin

text \<open>
  The tokens of the lexer and their values: which member of the value goes with which token, and
  what the strings of names and reserved words look like.
\<close>

subsection \<open>Well-typed tokens\<close>

definition lua_identifier :: "string \<Rightarrow> bool" where
  "lua_identifier s \<longleftrightarrow> s \<noteq> [] \<and> (\<forall>c \<in> set s. lj_char_isident (chr c)) \<and> \<not> lj_char_isdigit (chr (hd s))"

fun tok_ok :: "int \<Rightarrow> tokval \<Rightarrow> bool" where
  "tok_ok t TV_none \<longleftrightarrow>
     (0 \<le> t \<and> t < 256 \<and> \<not> lj_char_isident t) \<or> (TK_concat \<le> t \<and> t \<le> TK_label) \<or> t = TK_eof"
| "tok_ok t (TV_str s) \<longleftrightarrow>
     t = TK_string \<or> (t = TK_name \<and> lua_identifier s \<and> s \<notin> set (take TK_RESERVED tokennames)) \<or>
     (TK_OFS < t \<and> t \<le> TK_OFS + int TK_RESERVED \<and> s = tokennames ! nat (t - TK_OFS - 1))"
| "tok_ok t (TV_num v) \<longleftrightarrow> t = TK_number \<and> fmt_typed STRSCAN_NUM v"
| "tok_ok t (TV_cdata fmt v) \<longleftrightarrow>
     t = TK_number \<and> fmt \<in> {STRSCAN_IMAG, STRSCAN_I64, STRSCAN_U64} \<and> fmt_typed fmt v"

definition typed :: "lex_outcome \<Rightarrow> bool" where
  "typed r \<longleftrightarrow> (case r of Inl _ \<Rightarrow> True | Inr ((t, v), _) \<Rightarrow> tok_ok t v)"

lemma typed_simps [simp]: "typed (Inl e)" "typed (Inr ((t, v), ls)) = tok_ok t v"
  by (simp_all add: typed_def)

lemma typed_bind: "(\<And>x. m = Inr x \<Longrightarrow> typed (f x)) \<Longrightarrow> typed (lbind m f)"
  by (cases m) auto

lemma next_char_sb: "next_char ls = Inr ls' \<Longrightarrow> ls_sb ls' = ls_sb ls"
  by (auto simp: next_char_def fillbuf_def split: if_splits list.splits)

lemma next_char_ok: "next_char ls = Inr ls' \<Longrightarrow> lex_ok k ls \<Longrightarrow> ls_current ls \<noteq> END_OF_STREAM \<Longrightarrow> lex_ok k ls'"
  using safe_next [of k ls] by simp

lemma inclinenumber_sb: "inclinenumber ls = Inr ls' \<Longrightarrow> ls_sb ls' = ls_sb ls"
  by (auto simp: inclinenumber_def lbind_Inr_iff bump_line_def Let_def next_char_sb split: if_splits)

lemma save_and_next_sb:
  assumes "save_and_next ls = Inr ls'"
  shows "ls_sb ls' = ls_sb ls @ [char_of (nat (ls_current ls mod 256))]"
  using assms unfolding save_and_next_def lbind_Inr_iff by (auto dest!: save_same next_char_sb)

lemma char_of_current:
  "lex_ok k ls \<Longrightarrow> ls_current ls \<noteq> END_OF_STREAM \<Longrightarrow> (chr (char_of (nat (ls_current ls mod 256))) :: int) = ls_current ls"
proof -
  assume ok: "lex_ok k ls" and ne: "ls_current ls \<noteq> END_OF_STREAM"
  then have b: "0 \<le> ls_current ls" "ls_current ls < 256" by (auto simp: lex_ok_def)
  then have "(of_char (char_of (nat (ls_current ls)) :: char) :: nat) = nat (ls_current ls)" by (simp add: nat_less_iff)
  then show ?thesis using b by (metis mod_pos_pos_trivial nat_0_le of_nat_of_char)
qed

subsection \<open>Identifiers and reserved words\<close>

lemma ident_chars_word:
  "ident_chars ls = Inr ls' \<Longrightarrow> lex_ok k ls \<Longrightarrow> lj_char_isident (ls_current ls) \<Longrightarrow>
    \<exists>w. ls_sb ls' = ls_sb ls @ char_of (nat (ls_current ls mod 256)) # w \<and> (\<forall>c \<in> set w. lj_char_isident (chr c))"
proof (induction ls rule: ident_chars.induct)
  case (1 ls)
  have ne: "ls_current ls \<noteq> END_OF_STREAM" using 1(4) isident_not_end by auto
  from 1(2) obtain ls1 where s: "save_and_next ls = Inr ls1"
    and r: "(if ls_current ls \<noteq> END_OF_STREAM \<and> lj_char_isident (ls_current ls1) then ident_chars ls1 else Inr ls1) = Inr ls'"
    by (subst (asm) ident_chars.simps) (auto simp: lbind_Inr_iff)
  have ok: "lex_ok k ls1" using safe_save_and_next [OF 1(3) ne] s by simp
  show ?case
  proof (cases "lj_char_isident (ls_current ls1)")
    case True
    with r ne have "ident_chars ls1 = Inr ls'" by simp
    from 1(1) [OF s _ this ok True] ne True obtain w where
      "ls_sb ls' = ls_sb ls1 @ char_of (nat (ls_current ls1 mod 256)) # w" "\<forall>c \<in> set w. lj_char_isident (chr c)" by auto
    moreover have "lj_char_isident (chr (char_of (nat (ls_current ls1 mod 256))))"
      using True char_of_current [OF ok] isident_not_end by metis
    ultimately show ?thesis
      using save_and_next_sb [OF s]
      by (intro exI [of _ "char_of (nat (ls_current ls1 mod 256)) # w"]) simp
  qed (use r save_and_next_sb [OF s] in simp)
qed

lemma tokennames_length: "length tokennames = 33"
  by (simp add: tokennames_def)

lemma reserved_cases:
  "(reserved s = 0 \<and> (\<forall>i < TK_RESERVED. tokennames ! i \<noteq> s)) \<or>
   (\<exists>i < TK_RESERVED. reserved s = Suc i \<and> tokennames ! i = s)"
proof (cases "find (\<lambda>i. tokennames ! i = s) [0..<TK_RESERVED]")
  case None
  then have "reserved s = 0" by (simp add: reserved_def)
  moreover from None have "\<forall>i < TK_RESERVED. tokennames ! i \<noteq> s" by (auto simp: find_None_iff)
  ultimately show ?thesis by blast
next
  case (Some i)
  then have "reserved s = Suc i" by (simp add: reserved_def)
  moreover from Some have "i < TK_RESERVED" "tokennames ! i = s" by (auto simp: find_Some_iff)
  ultimately show ?thesis by blast
qed

lemma reserved_range: "reserved s > 0 \<Longrightarrow> reserved s \<le> TK_RESERVED \<and> tokennames ! (reserved s - 1) = s"
  using reserved_cases [of s] by auto

lemma reserved_none: "reserved s = 0 \<longleftrightarrow> s \<notin> set (take TK_RESERVED tokennames)"
proof -
  have "s \<in> set (take TK_RESERVED tokennames) \<longleftrightarrow> (\<exists>i < TK_RESERVED. tokennames ! i = s)"
    by (auto simp: in_set_conv_nth tokennames_length)
  with reserved_cases [of s] show ?thesis by auto
qed

lemma reserved_tok_ok: "reserved s > 0 \<Longrightarrow> tok_ok (TK_OFS + int (reserved s)) (TV_str s)"
  using reserved_range [of s] by (simp add: nat_diff_distrib)

lemma lex_number_typed:
  assumes "lex_number ls = Inr (v, ls')"
  shows "tok_ok TK_number v"
proof -
  from assms obtain s fmt x where scan: "lj_strscan_scan (\<lambda>_. None) s lex_scan_opt = Some (fmt, x)"
    and v: "(fmt = STRSCAN_NUM \<and> v = TV_num x) \<or> (fmt \<noteq> STRSCAN_NUM \<and> fmt \<noteq> STRSCAN_ERROR \<and> v = TV_cdata fmt x)"
    by (auto simp: lex_number_def lbind_Inr_iff Let_def split: option.splits if_splits)
  from lj_strscan_scan_scanned [OF scan] v show ?thesis
    by (cases fmt) (auto simp: scanned_def lex_scan_opt_def)
qed

lemma lex_word_typed:
  assumes "lex_ok k ls" "ls_sb ls = []" "lj_char_isident (ls_current ls)"
  shows "typed (lex_word ls)"
proof (cases "lj_char_isdigit (ls_current ls)")
  case True
  then show ?thesis by (auto simp: lex_word_def lex_number_typed intro!: typed_bind)
next
  case False
  have ne: "ls_current ls \<noteq> END_OF_STREAM" using assms(3) isident_not_end by auto
  have "lua_identifier (ls_sb ls1)" if "ident_chars ls = Inr ls1" for ls1
    using ident_chars_word [OF that assms(1,3)] assms(2,3) False char_of_current [OF assms(1) ne]
    by (auto simp: lua_identifier_def)
  with False show ?thesis
    using reserved_tok_ok reserved_none
    by (auto simp: lex_word_def Let_def simp del: tok_ok.simps(2) intro!: typed_bind)
      (simp add: reserved_none)
qed

subsection \<open>The tokens of a session\<close>

lemma one_or_two_typed:
  assumes "tok_ok (ls_current ls) TV_none" "tok_ok two TV_none"
  shows "typed (one_or_two ls second two)"
  using assms unfolding one_or_two_def by (auto simp del: tok_ok.simps intro!: typed_bind)

lemma lex_dot_typed: "typed (lex_dot ls)"
proof -
  have "tok_ok (chr (CHR ''.'')) TV_none" by (simp add: lj_char_ranges)
  then show ?thesis
    unfolding lex_dot_def by (auto simp: lex_number_typed simp del: of_char_Char intro!: typed_bind)
qed

lemma lex_bracket_typed: "typed (lex_bracket ls)"
proof -
  have "tok_ok (chr (CHR ''['')) TV_none" by (simp add: lj_char_ranges)
  moreover have "tok_ok TK_string v" if "read_long_string True sep l = Inr (v, l')" for sep l v l'
    using that by (auto simp: read_long_string_def lbind_Inr_iff Let_def)
  ultimately show ?thesis
    unfolding lex_bracket_def by (auto simp del: of_char_Char tok_ok.simps intro!: typed_bind)
qed

lemma read_string_typed: "read_string delim ls = Inr (v, ls') \<Longrightarrow> tok_ok TK_string v"
  by (auto simp: read_string_def lbind_Inr_iff)

lemma skip_line_sb: "skip_line ls = Inr ls' \<Longrightarrow> ls_sb ls' = ls_sb ls"
proof (induction ls rule: skip_line.induct)
  case (1 ls)
  then show ?case
    by (subst (asm) (2) skip_line.simps) (auto simp: lbind_Inr_iff next_char_sb split: if_splits)
qed

lemma lex_comment_sb: "lex_comment ls = Inr ls' \<Longrightarrow> ls_sb ls = [] \<Longrightarrow> ls_sb ls' = []"
  by (auto simp: lex_comment_def lbind_Inr_iff resetbuf_def skip_line_sb split: if_splits)

lemma lex_comment_ok: "lex_comment ls = Inr ls' \<Longrightarrow> lex_ok k ls \<Longrightarrow> lex_ok k ls'"
  using safe_lex_comment [of k ls] by simp

lemma inclinenumber_ok: "inclinenumber ls = Inr ls' \<Longrightarrow> lex_ok k ls \<Longrightarrow> currIsNewline ls \<Longrightarrow> lex_ok k ls'"
  using safe_inclinenumber [of k ls] by simp

lemma punct_typed: "lex_ok k ls \<Longrightarrow> ls_current ls \<noteq> END_OF_STREAM \<Longrightarrow> \<not> lj_char_isident (ls_current ls) \<Longrightarrow>
  tok_ok (ls_current ls) TV_none"
  by (auto simp: lex_ok_def)

lemma llex_loop_typed: "lex_ok k ls \<Longrightarrow> ls_sb ls = [] \<Longrightarrow> typed (llex_loop ls)"
proof (induction ls rule: llex_loop.induct)
  case (1 ls)
  let ?c = "ls_current ls"
  consider (word) "?c \<noteq> END_OF_STREAM" "lj_char_isident ?c"
    | (newline) "\<not> lj_char_isident ?c" "currIsNewline ls"
    | (space) "\<not> lj_char_isident ?c" "\<not> currIsNewline ls" "?c = 32 \<or> ?c = 9 \<or> ?c = 11 \<or> ?c = 12"
    | (dash) "\<not> lj_char_isident ?c" "\<not> currIsNewline ls" "\<not> (?c = 32 \<or> ?c = 9 \<or> ?c = 11 \<or> ?c = 12)" "?c = chr (CHR ''-'')"
    | (eof) "?c = END_OF_STREAM"
    | (other) "?c \<noteq> END_OF_STREAM" "\<not> lj_char_isident ?c" "\<not> currIsNewline ls" "\<not> (?c = 32 \<or> ?c = 9 \<or> ?c = 11 \<or> ?c = 12)" "?c \<noteq> chr (CHR ''-'')"
    using isident_not_end by metis
  then show ?case
  proof cases
    case word
    with 1(4,5) show ?thesis by (subst llex_loop.simps) (simp add: lex_word_typed)
  next
    case newline
    have "typed (lbind (inclinenumber ls) llex_loop)"
      using 1(1) [OF refl _ newline(2)] newline 1(4,5)
      by (intro typed_bind) (auto intro: inclinenumber_ok simp: inclinenumber_sb)
    with newline show ?thesis by (subst llex_loop.simps) simp
  next
    case space
    then have ne: "?c \<noteq> END_OF_STREAM" by auto
    have "typed (lbind (next_char ls) llex_loop)"
      using 1(2) [OF refl _ space(2,3)] space(1) ne 1(4,5)
      by (intro typed_bind) (auto intro: next_char_ok simp: next_char_sb)
    with space show ?thesis by (subst llex_loop.simps) (simp add: Let_def)
  next
    case dash
    then have ne: "?c \<noteq> END_OF_STREAM" by simp
    have "typed (lbind (next_char ls) (\<lambda>ls1.
        if ls_current ls1 \<noteq> chr (CHR ''-'') then Inr ((chr (CHR ''-''), TV_none), ls1)
        else lbind (next_char ls1) (\<lambda>ls2. lbind (lex_comment ls2) llex_loop)))"
    proof (intro typed_bind)
      fix ls1
      assume n: "next_char ls = Inr ls1"
      note ok1 = next_char_ok [OF n 1(4) ne]
      show "typed (if ls_current ls1 \<noteq> chr (CHR ''-'') then Inr ((chr (CHR ''-''), TV_none), ls1)
        else lbind (next_char ls1) (\<lambda>ls2. lbind (lex_comment ls2) llex_loop))"
      proof (cases "ls_current ls1 = chr (CHR ''-'')")
        case True
        have "typed (llex_loop ls3)" if n2: "next_char ls1 = Inr ls2" and c: "lex_comment ls2 = Inr ls3" for ls2 ls3
        proof (rule 1(3) [OF refl _ dash(2,3,4) n _ n2 c])
          have "lex_ok k ls2" using next_char_ok [OF n2 ok1] True by simp
          with c show "lex_ok k ls3" by (rule lex_comment_ok)
          show "ls_sb ls3 = []" using lex_comment_sb [OF c] next_char_sb [OF n] next_char_sb [OF n2] 1(5) by simp
        qed (use dash True in auto)
        with True show ?thesis by (auto intro!: typed_bind)
      qed (simp add: lj_char_ranges)
    qed
    with dash show ?thesis by (subst llex_loop.simps) (simp add: Let_def)
  next
    case eof
    then show ?thesis by (subst llex_loop.simps) (simp add: currIsNewline_def)
  next
    case other
    have p: "tok_ok ?c TV_none" by (rule punct_typed [OF 1(4) other(1,2)])
    have two: "typed (one_or_two ls c t)" if "t \<in> {TK_eq, TK_le, TK_ge, TK_ne, TK_label}" for c t
      using that by (intro one_or_two_typed p) auto
    from other show ?thesis
      by (subst llex_loop.simps)
        (auto simp: Let_def p two lex_bracket_typed lex_dot_typed read_string_typed simp del: tok_ok.simps of_char_Char
          intro!: typed_bind)
  qed
qed

lemma llex_typed: "llex ls = Inr (t, ls') \<Longrightarrow> lex_ok k ls \<Longrightarrow> tok_ok (fst t) (snd t)"
  using llex_loop_typed [of k "resetbuf ls"] by (cases t) (simp add: llex_def resetbuf_def lex_ok_def)

lemma session_typed:
  "lex_session chunks ls \<Longrightarrow> \<exists>t la. lex_ok (t, la) ls \<and> tok_ok (fst t) (snd t) \<and> (fst la \<noteq> TK_eof \<longrightarrow> tok_ok (fst la) (snd la))"
proof (induction rule: lex_session.induct)
  case (session_setup bc ls)
  have "tok_ok 0 TV_none" by (simp add: lj_char_ranges)
  moreover have "lex_ok ((0, TV_none), (TK_eof, TV_none)) ls"
    using safe_setup [of chunks] session_setup by simp
  ultimately show ?case by (metis fst_conv snd_conv)
next
  case (session_next ls ls')
  then obtain t la where ok: "lex_ok (t, la) ls" and la: "fst la \<noteq> TK_eof \<longrightarrow> tok_ok (fst la) (snd la)" by blast
  from ok show ?case
  proof (cases rule: next_token_cases)
    case (lexed l t' l' ls1)
    with llex_typed [OF lexed(3,2)] la session_next(2) show ?thesis
      by (intro exI [of _ t'] exI [of _ la]) simp
  next
    case (ahead ls1)
    with la session_next(2) show ?thesis by (intro exI [of _ la] exI [of _ "(TK_eof, snd la)"]) simp
  qed (use session_next(2) in simp)
next
  case (session_lookahead ls t0 ls')
  then obtain t la where ok: "lex_ok (t, la) ls" and t: "tok_ok (fst t) (snd t)" by blast
  from ok show ?case
  proof (cases rule: lookahead_cases)
    case (lexed la' l' ls1)
    with llex_typed [OF lexed(2) ok] t session_lookahead(3) show ?thesis
      by (intro exI [of _ t] exI [of _ la']) simp
  qed (use session_lookahead(3) in simp)
qed

text \<open>
  C11: tokens are well typed. In every state a parser can bring the lexer to, the value of the
  current token is the one its kind calls for: a string for names, strings and reserved words, a
  double or a boxed 64-bit or complex number for numbers, none for the rest; a name is an
  identifier that is no reserved word, a reserved word is spelled as in the table, and a token of
  one character is a byte that cannot start a word. The same holds of the token looked ahead.
\<close>

theorem lex_tokens_typed:
  assumes "lex_session chunks ls"
  shows "tok_ok (ls_token ls) (ls_tokenval ls) \<and>
    (ls_lookahead ls = TK_eof \<or> tok_ok (ls_lookahead ls) (ls_lookaheadval ls))"
  using session_typed [OF assms] by (auto simp: lex_ok_def)

theorem lex_tokens_typed_witness:
  "\<exists>ls. lex_session [''if''] ls \<and> ls_token ls = 267 \<and> tok_ok (ls_token ls) (ls_tokenval ls) \<and>
     (ls_lookahead ls = TK_eof \<or> tok_ok (ls_lookahead ls) (ls_lookaheadval ls))"
proof -
  let ?r = "lbind (lj_lex_setup [''if'']) (\<lambda>(_, ls). lj_lex_next ls)"
  have "(case ?r of Inr ls \<Rightarrow> ls_token ls = 267 | Inl _ \<Rightarrow> False)" by code_simp
  then obtain ls where "?r = Inr ls" and t: "ls_token ls = 267" by (auto split: sum.splits)
  then obtain bc l0 where "lj_lex_setup [''if''] = Inr (bc, l0)" "lj_lex_next l0 = Inr ls"
    by (auto simp: lbind_Inr_iff)
  then have "lex_session [''if''] ls" by (blast intro: lex_session.intros)
  with lex_tokens_typed [OF this] t show ?thesis by blast
qed

end
