(* ===== verification/Lua_Page.thy ===== *)
theory Lua_Page
  imports Lj_Lex Lua_Template
begin

text \<open>
  From a page to the tokens of its script: the text that \<open>do_lua\<close> puts between the brackets of a
  long string, read back by the lexer it is handed to.
\<close>

subsection \<open>Where the lexer stands\<close>

text \<open>
  The lexer has \<open>xs\<close> left to read, in one block, \<open>sb\<close> in its buffer, is at line \<open>n\<close> and has looked
  at no token ahead.
\<close>

definition lx :: "string \<Rightarrow> string \<Rightarrow> int \<Rightarrow> lexstate \<Rightarrow> bool" where
  "lx xs sb n ls \<longleftrightarrow> ls_chunks ls = [] \<and> ls_sb ls = sb \<and> ls_line ls = n \<and> ls_lookahead ls = TK_eof \<and>
     ls_wrapped ls = (xs = []) \<and> ls_buf ls = tl xs \<and>
     ls_current ls = (if xs = [] then END_OF_STREAM else chr (hd xs))"

abbreviation buf_room :: "string \<Rightarrow> bool" where
  "buf_room sb \<equiv> length sb < LJ_MAX_STR div 2"

lemma chr_eq: "(chr c :: int) = chr d \<longleftrightarrow> c = d"
  by (metis of_char_eq_iff)

lemma lx_current: "lx (c # xs) sb n ls \<Longrightarrow> ls_current ls = chr c" "lx [] sb n ls \<Longrightarrow> ls_current ls = END_OF_STREAM"
  by (simp_all add: lx_def)

lemma lx_next:
  assumes "lx (c # xs) sb n ls"
  obtains ls' where "next_char ls = Inr ls'" "lx xs sb n ls'"
  using assms by (cases xs) (auto simp: lx_def next_char_def fillbuf_def)

lemma lx_save:
  assumes "lx xs sb n ls" "buf_room sb"
  obtains ls' where "save ls (chr c) = Inr ls'" "lx xs (sb @ [c]) n ls'"
proof -
  have c: "char_of (nat (chr c mod 256)) = c"
  proof -
    have "(chr c :: int) = int (of_char c)" by (metis of_nat_of_char)
    then have "nat (chr c mod 256) = (of_char c :: nat)" by (simp add: nat_mod_as_int)
    then show ?thesis by simp
  qed
  show thesis
  proof (cases "length (ls_sb ls) + 1 > ls_sbsz ls")
    case True
    have "ls_sbsz ls < LJ_MAX_STR div 2" using True assms by (simp add: lx_def)
    with True c assms show thesis
      by (intro that [of "ls\<lparr>ls_sbsz := ls_sbsz ls * 2, ls_sb := ls_sb ls @ [c]\<rparr>"])
        (simp_all add: save_def save_grow_def lx_def)
  next
    case False
    with c assms show thesis
      by (intro that [of "ls\<lparr>ls_sb := ls_sb ls @ [c]\<rparr>"]) (simp_all add: save_def lx_def)
  qed
qed

lemma lx_save_and_next:
  assumes "lx (c # xs) sb n ls" "buf_room sb"
  obtains ls' where "save_and_next ls = Inr ls'" "lx xs (sb @ [c]) n ls'"
proof -
  obtain l where l: "save ls (chr c) = Inr l" "lx (c # xs) (sb @ [c]) n l" using lx_save [OF assms] .
  obtain ls' where "next_char l = Inr ls'" "lx xs (sb @ [c]) n ls'" using lx_next [OF l(2)] .
  with l(1) assms(1) show thesis by (intro that) (auto simp: save_and_next_def lx_current)
qed

lemma lx_resetbuf: "lx xs sb n ls \<Longrightarrow> lx xs [] n (resetbuf ls)"
  by (simp add: lx_def resetbuf_def)

lemma currIsNewline_lx: "lx (c # xs) sb n ls \<Longrightarrow> currIsNewline ls \<longleftrightarrow> c = LF \<or> c = CR"
  by (simp add: currIsNewline_def lx_current chr_eq del: of_char_Char)

lemma lx_inclinenumber:
  assumes "lx (LF # c # xs) sb n ls" "c \<noteq> CR" "n + 1 < LJ_MAX_LINE"
  obtains ls' where "inclinenumber ls = Inr ls'" "lx (c # xs) sb (n + 1) ls'"
proof -
  obtain l where l: "next_char ls = Inr l" "lx (c # xs) sb n l" using lx_next [OF assms(1)] .
  have "\<not> (currIsNewline l \<and> ls_current l \<noteq> ls_current ls)"
    using currIsNewline_lx [OF l(2)] assms(2) lx_current(1) [OF l(2)] lx_current(1) [OF assms(1)] by auto
  with l assms(3) show thesis
    by (intro that [of "l\<lparr>ls_line := ls_line l + 1\<rparr>"]) (auto simp: inclinenumber_def bump_line_def lx_def)
qed

subsection \<open>Words and long strings\<close>

lemma ident_chars_lx:
  assumes "lx (w @ c # xs) sb n ls" "w \<noteq> []" "\<forall>d \<in> set w. lj_char_isident (chr d)" "\<not> lj_char_isident (chr c)"
    "length sb + length w \<le> LJ_MAX_STR div 2"
  shows "\<exists>ls'. ident_chars ls = Inr ls' \<and> lx (c # xs) (sb @ w) n ls'"
  using assms
proof (induction w arbitrary: sb ls)
  case (Cons d w)
  obtain l where l: "save_and_next ls = Inr l" "lx (w @ c # xs) (sb @ [d]) n l"
    using lx_save_and_next [of d "w @ c # xs" sb n ls] Cons.prems by auto
  show ?case
  proof (cases "w = []")
    case True
    with l Cons.prems show ?thesis by (subst ident_chars.simps) (auto simp: lx_current)
  next
    case False
    with Cons.IH [OF l(2) False] Cons.prems obtain ls' where
      ls': "ident_chars l = Inr ls'" "lx (c # xs) ((sb @ [d]) @ w) n ls'" by auto
    moreover have "lj_char_isident (ls_current l)"
      using False l(2) Cons.prems(3) by (cases w) (auto simp: lx_current)
    ultimately show ?thesis
      using l(1) Cons.prems(1) by (subst ident_chars.simps) (auto simp: lx_current)
  qed
qed simp

lemma count_eqs_lx:
  assumes "lx (replicate k (CHR ''='') @ c # xs) sb n ls" "c \<noteq> CHR ''=''" "length sb + k \<le> LJ_MAX_STR div 2"
  shows "\<exists>ls'. count_eqs ls m = Inr (m + int k, ls') \<and> lx (c # xs) (sb @ replicate k (CHR ''='')) n ls'"
  using assms
proof (induction k arbitrary: sb ls m)
  case 0
  then show ?case
    by (subst count_eqs.simps) (auto simp: lx_current chr_eq simp del: of_char_Char)
next
  case (Suc k)
  obtain l where l: "save_and_next ls = Inr l"
    "lx (replicate k (CHR ''='') @ c # xs) (sb @ [CHR ''='']) n l"
    using lx_save_and_next [of "CHR ''=''" "replicate k (CHR ''='') @ c # xs" sb n ls] Suc.prems by auto
  from Suc.IH [OF l(2), of "m + 1"] Suc.prems obtain ls' where
    "count_eqs l (m + 1) = Inr (m + 1 + int k, ls')"
    "lx (c # xs) ((sb @ [CHR ''='']) @ replicate k (CHR ''='')) n ls'" by auto
  with l(1) Suc.prems(1) show ?case
    by (subst count_eqs.simps) (auto simp: lx_current)
qed

lemma skip_sep_lx:
  assumes "lx (b # replicate k (CHR ''='') @ c # xs) sb n ls" "c \<noteq> CHR ''=''" "length sb + k + 1 \<le> LJ_MAX_STR div 2"
  shows "\<exists>ls'. skip_sep ls = Inr (if c = b then int k else - int k - 1, ls') \<and>
    lx (c # xs) (sb @ b # replicate k (CHR ''='')) n ls'"
proof -
  obtain l where l: "save_and_next ls = Inr l" "lx (replicate k (CHR ''='') @ c # xs) (sb @ [b]) n l"
    using lx_save_and_next [OF assms(1)] assms(3) by auto
  from count_eqs_lx [OF l(2) assms(2), of 0] assms(3) obtain ls' where
    "count_eqs l 0 = Inr (int k, ls')" "lx (c # xs) ((sb @ [b]) @ replicate k (CHR ''='')) n ls'" by auto
  with l(1) assms(1) show ?thesis by (auto simp: skip_sep_def lx_current chr_eq)
qed

subsection \<open>The text of a page\<close>

lemma escape_text_append: "escape_text (s @ t) = escape_text s @ escape_text t"
  by (induction s) auto

lemma escape_text_eqs: "escape_text (replicate k (CHR ''='')) = replicate k (CHR ''='')"
  by (induction k) auto

lemma escape_text_hd: "escape_text (c # s) = BACKSLASH # c # escape_text s \<or>
    c \<noteq> CHR ''['' \<and> c \<noteq> CHR '']'' \<and> escape_text (c # s) = c # escape_text s"
  by auto

lemma leading_eqs:
  obtains k u where "t = replicate k (CHR ''='') @ u" "u = [] \<or> hd u \<noteq> CHR ''=''"
proof -
  let ?w = "takeWhile (\<lambda>c. c = CHR ''='') t" and ?u = "dropWhile (\<lambda>c. c = CHR ''='') t"
  have "?w = replicate (length ?w) (CHR ''='')"
    by (rule replicate_length_same [symmetric]) (auto dest: set_takeWhileD)
  then have t: "t = replicate (length ?w) (CHR ''='') @ ?u"
    using takeWhile_dropWhile_id [of "\<lambda>c. c = CHR ''=''" t] by simp
  have "?u = [] \<or> hd ?u \<noteq> CHR ''=''"
    using hd_dropWhile [of "\<lambda>c. c = CHR ''=''" t] by blast
  with t show thesis by (rule that)
qed

lemma lx_plain:
  assumes "lx (c # xs) sb n ls" "buf_room sb" "c \<noteq> CHR '']''" "c \<noteq> LF" "c \<noteq> CR"
  obtains ls' where "long_string_loop True sep ls = long_string_loop True sep ls'" "lx xs (sb @ [c]) n ls'"
proof -
  obtain l where l: "save_and_next ls = Inr l" "lx xs (sb @ [c]) n l" using lx_save_and_next [OF assms(1,2)] .
  have "long_string_loop True sep ls = long_string_loop True sep l"
    using assms l(1) currIsNewline_lx [OF assms(1)]
    by (subst long_string_loop.simps) (auto simp: lx_current chr_eq simp del: of_char_Char)
  from this l(2) show thesis by (rule that)
qed

lemma lx_newline:
  assumes "lx (LF # c # xs) sb n ls" "buf_room sb" "c \<noteq> CR" "n + 1 < LJ_MAX_LINE"
  obtains ls' where "long_string_loop True sep ls = long_string_loop True sep ls'" "lx (c # xs) (sb @ [LF]) (n + 1) ls'"
proof -
  obtain l where l: "save ls (chr LF) = Inr l" "lx (LF # c # xs) (sb @ [LF]) n l" using lx_save [OF assms(1,2)] .
  obtain l' where l': "inclinenumber l = Inr l'" "lx (c # xs) (sb @ [LF]) (n + 1) l'"
    using lx_inclinenumber [OF l(2) assms(3,4)] .
  have "long_string_loop True sep ls = long_string_loop True sep l'"
    using l(1) l'(1) currIsNewline_lx [OF assms(1)] lx_current(1) [OF assms(1)]
    by (subst long_string_loop.simps) simp
  from this l'(2) show thesis by (rule that)
qed

lemma lx_bracket:
  assumes "lx (CHR '']'' # replicate k (CHR ''='') @ c # xs) sb n ls" "c \<noteq> CHR ''=''" "k > 0 \<or> c \<noteq> CHR '']''"
    "length sb + k + 1 \<le> LJ_MAX_STR div 2"
  obtains ls' where "long_string_loop True 0 ls = long_string_loop True 0 ls'"
    "lx (c # xs) (sb @ CHR '']'' # replicate k (CHR ''='')) n ls'"
proof -
  obtain l where l: "skip_sep ls = Inr (if c = CHR '']'' then int k else - int k - 1, l)"
    "lx (c # xs) (sb @ CHR '']'' # replicate k (CHR ''='')) n l"
    using skip_sep_lx [OF assms(1,2,4)] by blast
  have "long_string_loop True 0 ls = long_string_loop True 0 l"
    using l(1) assms(3) lx_current(1) [OF assms(1)]
    by (subst long_string_loop.simps) auto
  from this l(2) show thesis by (rule that)
qed

lemma lx_closes:
  assumes "lx ('']]'' @ xs) sb n ls" "length sb + 2 \<le> LJ_MAX_STR div 2"
  shows "\<exists>ls'. long_string_loop True 0 ls = Inr ls' \<and> lx xs (sb @ '']]'') n ls'"
proof -
  obtain l where l: "skip_sep ls = Inr (0, l)" "lx (CHR '']'' # xs) (sb @ '']'') n l"
    using skip_sep_lx [of "CHR '']''" 0 "CHR '']''" xs sb n ls] assms by auto
  obtain l' where l': "save_and_next l = Inr l'" "lx xs ((sb @ '']'') @ '']'') n l'"
    using lx_save_and_next [OF l(2)] assms(2) by auto
  have "long_string_loop True 0 ls = Inr l'"
    using l(1) l'(1) lx_current(1) [of "CHR '']''" "CHR '']'' # xs" sb n ls] assms(1)
    by (subst long_string_loop.simps) simp
  with l'(2) show ?thesis by auto
qed
lemma lx_escaped_open:
  assumes "lx (escape_text (CHR ''['' # u) @ ys) sb n ls" "length sb + 2 \<le> LJ_MAX_STR div 2"
  obtains ls' where "long_string_loop True 0 ls = long_string_loop True 0 ls'"
    "lx (escape_text u @ ys) (sb @ [BACKSLASH, CHR ''['']) n ls'"
proof -
  have "lx (BACKSLASH # CHR ''['' # escape_text u @ ys) sb n ls" using assms(1) by simp
  from lx_plain [OF this] obtain l where l: "long_string_loop True 0 ls = long_string_loop True 0 l"
    "lx (CHR ''['' # escape_text u @ ys) (sb @ [BACKSLASH]) n l" using assms(2) by auto
  from lx_plain [OF l(2)] obtain l' where "long_string_loop True 0 l = long_string_loop True 0 l'"
    "lx (escape_text u @ ys) (sb @ [BACKSLASH, CHR ''['']) n l'" using assms(2) by auto
  with l(1) show thesis by (intro that) auto
qed

lemma lx_escaped_close:
  assumes "lx (escape_text (CHR '']'' # u) @ d # xs) sb n ls" "d \<noteq> CHR ''=''" "u \<noteq> [] \<or> d \<noteq> CHR '']''"
    "length sb + length (escape_text (CHR '']'' # u)) \<le> LJ_MAX_STR div 2"
  obtains k v ls' where "u = replicate k (CHR ''='') @ v"
    "long_string_loop True 0 ls = long_string_loop True 0 ls'"
    "lx (escape_text v @ d # xs) (sb @ BACKSLASH # CHR '']'' # replicate k (CHR ''='')) n ls'"
proof -
  obtain k v where v: "u = replicate k (CHR ''='') @ v" "v = [] \<or> hd v \<noteq> CHR ''=''" by (rule leading_eqs)
  have esc: "escape_text (CHR '']'' # u) = BACKSLASH # CHR '']'' # replicate k (CHR ''='') @ escape_text v"
    using v(1) by (simp add: escape_text_append escape_text_eqs)
  have "\<exists>e ys. escape_text v @ d # xs = e # ys \<and> e \<noteq> CHR ''='' \<and> (k > 0 \<or> e \<noteq> CHR '']'')"
    using v assms(2,3) by (cases v) auto
  then obtain e ys where e: "escape_text v @ d # xs = e # ys" "e \<noteq> CHR ''=''" "k > 0 \<or> e \<noteq> CHR '']''" by blast
  have "lx (BACKSLASH # CHR '']'' # replicate k (CHR ''='') @ e # ys) sb n ls"
    using assms(1) esc e(1) by simp
  from lx_plain [OF this] obtain l where l: "long_string_loop True 0 ls = long_string_loop True 0 l"
    "lx (CHR '']'' # replicate k (CHR ''='') @ e # ys) (sb @ [BACKSLASH]) n l" using assms(4) esc by auto
  from lx_bracket [OF l(2) e(2,3)] obtain l' where "long_string_loop True 0 l = long_string_loop True 0 l'"
    "lx (escape_text v @ d # xs) (sb @ BACKSLASH # CHR '']'' # replicate k (CHR ''='')) n l'"
    using assms(4) esc e(1) by auto
  with v(1) l(1) show thesis by (intro that) auto
qed

text \<open>The loop gets through any text, up to a character that does not close it.\<close>

lemma long_string_text:
  assumes "lx (escape_text t @ d # xs) sb n ls" "CR \<notin> set t" "d \<noteq> CR" "d \<noteq> CHR ''=''"
    "t = [] \<or> last t \<noteq> CHR '']'' \<or> d \<noteq> CHR '']''"
    "length sb + length (escape_text t) \<le> LJ_MAX_STR div 2" "n + int (count_list t LF) < LJ_MAX_LINE"
  shows "\<exists>ls'. long_string_loop True 0 ls = long_string_loop True 0 ls' \<and>
    lx (d # xs) (sb @ escape_text t) (n + int (count_list t LF)) ls'"
  using assms
proof (induction t arbitrary: sb n ls rule: length_induct)
  case (1 t)
  note IH = "1.IH" [rule_format]
  show ?case
  proof (cases t)
    case (Cons c u)
    have hd: "\<exists>e ys. escape_text u @ d # xs = e # ys \<and> e \<noteq> CR"
      using "1.prems"(2,3) Cons by (cases u) auto
    consider (open_b) "c = CHR ''[''" | (close_b) "c = CHR '']''" | (nl) "c = LF"
      | (plain) "c \<noteq> CHR ''[''" "c \<noteq> CHR '']''" "c \<noteq> LF" "c \<noteq> CR"
      using "1.prems"(2) Cons by auto
    then show ?thesis
    proof cases
      case open_b
      from lx_escaped_open [of u "d # xs" sb n ls] obtain l where "long_string_loop True 0 ls = long_string_loop True 0 l"
        and l: "lx (escape_text u @ d # xs) (sb @ [BACKSLASH, CHR ''['']) n l"
        using "1.prems"(1,6) Cons open_b by auto
      with IH [OF _ l] "1.prems" Cons open_b show ?thesis by (auto split: if_splits)
    next
      case nl
      obtain e ys where e: "escape_text u @ d # xs = e # ys" "e \<noteq> CR" using hd by blast
      have "lx (LF # e # ys) sb n ls" using "1.prems"(1) Cons nl e by simp
      from lx_newline [OF this] obtain l where l: "long_string_loop True 0 ls = long_string_loop True 0 l"
        "lx (escape_text u @ d # xs) (sb @ [LF]) (n + 1) l" using "1.prems"(6,7) Cons nl e by auto
      from IH [OF _ l(2)] "1.prems" Cons nl l show ?thesis by (auto split: if_splits simp: algebra_simps)
    next
      case plain
      have "lx (c # escape_text u @ d # xs) sb n ls" using "1.prems"(1) Cons plain by simp
      from lx_plain [OF this] obtain l where l: "long_string_loop True 0 ls = long_string_loop True 0 l"
        "lx (escape_text u @ d # xs) (sb @ [c]) n l" using "1.prems"(6) Cons plain by auto
      from IH [OF _ l(2)] "1.prems" Cons plain l show ?thesis by (auto split: if_splits)
    next
      case close_b
      obtain k v l where v: "u = replicate k (CHR ''='') @ v" and ls: "long_string_loop True 0 ls = long_string_loop True 0 l"
        and l: "lx (escape_text v @ d # xs) (sb @ BACKSLASH # CHR '']'' # replicate k (CHR ''='')) n l"
        using lx_escaped_close [of u d xs sb n ls] "1.prems" Cons close_b by (auto split: if_splits)
      have "v = [] \<or> last v \<noteq> CHR '']'' \<or> d \<noteq> CHR '']''" using "1.prems"(5) Cons close_b v by auto
      moreover have "count_list t LF = count_list v LF"
        using Cons close_b v by (induction k arbitrary: u t) (auto simp: count_list_append)
      ultimately show ?thesis
        using IH [OF _ l] "1.prems" Cons close_b v ls by (auto simp: escape_text_append escape_text_eqs)
    qed
  qed (use "1.prems"(1) in auto)
qed

subsection \<open>The tokens of a page without tags\<close>

text \<open>The next tokens a parser sees.\<close>

fun next_tokens :: "nat \<Rightarrow> lexstate \<Rightarrow> lex_error + (int \<times> tokval) list" where
  "next_tokens 0 ls = Inr []"
| "next_tokens (Suc n) ls =
     lbind (lj_lex_next ls) (\<lambda>ls1. lbind (next_tokens n ls1) (\<lambda>ts. Inr ((ls_token ls1, ls_tokenval ls1) # ts)))"

lemma next_tokens_llex:
  assumes "lx xs sb n ls" "\<And>l. lx xs [] n l \<Longrightarrow> \<exists>l'. llex_loop l = Inr (tok, l') \<and> lx ys sb' m l'"
    "\<And>l. lx ys sb' m l \<Longrightarrow> next_tokens i l = Inr ts"
  shows "next_tokens (Suc i) ls = Inr (tok # ts)"
proof -
  let ?l = "resetbuf (ls\<lparr>ls_lastline := ls_line ls\<rparr>)"
  have "lx xs [] n ?l" using assms(1) by (simp add: lx_def resetbuf_def)
  from assms(2) [OF this] obtain l' where l': "llex_loop ?l = Inr (tok, l')" "lx ys sb' m l'" by blast
  obtain t v where tok: "tok = (t, v)" by fastforce
  have "lx ys sb' m (l'\<lparr>ls_token := t, ls_tokenval := v\<rparr>)" using l'(2) by (simp add: lx_def)
  from assms(3) [OF this] l'(1) assms(1) tok show ?thesis
    by (simp add: lj_lex_next_def llex_def lx_def [of xs])
qed

lemma llex_put:
  assumes "lx (''put('' @ xs) [] n l"
  shows "\<exists>l'. llex_loop l = Inr ((TK_name, TV_str ''put''), l') \<and> lx (''('' @ xs) ''put'' n l'"
proof -
  have id: "lj_char_isident (chr (CHR ''p''))" "lj_char_isident (chr (CHR ''u''))" "lj_char_isident (chr (CHR ''t''))"
    "\<not> lj_char_isident (chr (CHR ''(''))" "\<not> lj_char_isdigit (chr (CHR ''p''))"
    by (simp_all add: lj_char_ranges)
  with ident_chars_lx [of "''put''" "CHR ''(''" xs "[]" n l] assms obtain l' where
    l': "ident_chars l = Inr l'" "lx (''('' @ xs) ''put'' n l'" by auto
  have "reserved ''put'' = 0" by code_simp
  then show ?thesis
    using l' id lx_current(1) [of "CHR ''p''" "''ut('' @ xs" "[]" n l] assms
    by (subst llex_loop.simps) (auto simp: lex_word_def Let_def lx_def)
qed

lemma llex_punct:
  assumes "lx (c # xs) [] n l" "c = CHR ''('' \<or> c = CHR '')'' \<or> c = CHR '']''"
  shows "\<exists>l'. llex_loop l = Inr ((chr c, TV_none), l') \<and> lx xs [] n l'"
proof -
  have "\<not> lj_char_isident (chr c)" using assms(2) by (auto simp: lj_char_ranges)
  moreover obtain l' where "next_char l = Inr l'" "lx xs [] n l'" using lx_next [OF assms(1)] .
  ultimately show ?thesis
    using assms by (subst llex_loop.simps) (auto simp: Let_def lx_current currIsNewline_def)
qed

lemma llex_eof: "lx [] [] n l \<Longrightarrow> llex_loop l = Inr ((TK_eof, TV_none), l)"
  by (subst llex_loop.simps) (simp add: lx_current currIsNewline_def)
text \<open>Lua drops a newline at the very start of a long string.\<close>

definition skip_first_newline :: "string \<Rightarrow> string" where
  "skip_first_newline t = (if t \<noteq> [] \<and> hd t = LF then tl t else t)"

lemma lx_skip_first:
  assumes "lx (escape_text t @ d # xs) sb n l" "CR \<notin> set t" "d \<noteq> CR" "d \<noteq> LF" "n + 1 < LJ_MAX_LINE"
  obtains l' where "(if currIsNewline l then inclinenumber l else Inr l) = Inr l'"
    "lx (escape_text (skip_first_newline t) @ d # xs) sb
       (n + int (count_list t LF) - int (count_list (skip_first_newline t) LF)) l'"
proof (cases "t \<noteq> [] \<and> hd t = LF")
  case True
  then obtain u where t: "t = LF # u" by (cases t) auto
  have "\<exists>e ys. escape_text u @ d # xs = e # ys \<and> e \<noteq> CR" using assms(2,3) t by (cases u) auto
  then obtain e ys where e: "escape_text u @ d # xs = e # ys" "e \<noteq> CR" by blast
  have lx: "lx (LF # e # ys) sb n l" using assms(1) t e(1) by simp
  obtain l' where "inclinenumber l = Inr l'" "lx (e # ys) sb (n + 1) l'"
    using lx_inclinenumber [OF lx e(2) assms(5)] .
  with e(1) t currIsNewline_lx [OF lx] show thesis by (intro that) (auto simp: skip_first_newline_def)
next
  case False
  have "\<not> currIsNewline l"
    using assms False escape_text_hd [of "hd t" "tl t"] currIsNewline_lx [of _ _ sb n l]
    by (cases t) (auto split: if_splits)
  with False assms(1) show thesis by (intro that) (auto simp: skip_first_newline_def)
qed

lemma long_string_open:
  assumes "lx (''[['' @ escape_text t @ d # xs) [] n l" "CR \<notin> set t" "d \<noteq> CR" "d \<noteq> LF" "d \<noteq> CHR ''=''"
    "t = [] \<or> last t \<noteq> CHR '']'' \<or> d \<noteq> CHR '']''"
    "length (escape_text t) + 2 \<le> LJ_MAX_STR div 2" "n + int (count_list t LF) + 1 < LJ_MAX_LINE"
  obtains l' where "llex_loop l = lbind (long_string_loop True 0 l')
      (\<lambda>ls3. Inr ((TK_string, TV_str (take (length (ls_sb ls3) - 4) (drop 2 (ls_sb ls3)))), ls3))"
    "lx (d # xs) (''[['' @ escape_text (skip_first_newline t)) (n + int (count_list t LF)) l'"
proof -
  let ?t = "skip_first_newline t"
  have n1: "n + 1 < LJ_MAX_LINE" using assms(8) by linarith
  obtain l1 where l1: "skip_sep l = Inr (0, l1)" "lx (CHR ''['' # escape_text t @ d # xs) ''['' n l1"
    using skip_sep_lx [of "CHR ''[''" 0 "CHR ''[''" "escape_text t @ d # xs" "[]" n l] assms(1) by auto
  obtain l2 where l2: "save_and_next l1 = Inr l2" "lx (escape_text t @ d # xs) ''[['' n l2"
    using lx_save_and_next [OF l1(2)] by auto
  obtain l3 where l3: "(if currIsNewline l2 then inclinenumber l2 else Inr l2) = Inr l3"
    "lx (escape_text ?t @ d # xs) ''[['' (n + int (count_list t LF) - int (count_list ?t LF)) l3"
    using lx_skip_first [OF l2(2) assms(2-4) n1] .
  have t: "CR \<notin> set ?t" "?t = [] \<or> last ?t \<noteq> CHR '']'' \<or> d \<noteq> CHR '']''"
    "length (escape_text ?t) \<le> length (escape_text t)"
    using assms(2,6) by (cases t; auto simp: skip_first_newline_def)+
  obtain l4 where l4: "long_string_loop True 0 l3 = long_string_loop True 0 l4"
    "lx (d # xs) (''[['' @ escape_text ?t) (n + int (count_list t LF)) l4"
    using long_string_text [OF l3(2) t(1) assms(3,5) t(2)] t(3) assms(7,8) by auto
  have "ls_current l = chr (CHR ''['')" "\<not> currIsNewline l"
    using lx_current(1) [of "CHR ''[''"] currIsNewline_lx [of "CHR ''[''"] assms(1) by fastforce+
  moreover have "\<not> lj_char_isident (chr (CHR ''[''))" by (simp add: lj_char_ranges)
  ultimately have "llex_loop l = lex_bracket l" by (subst llex_loop.simps) (simp add: Let_def)
  also have "\<dots> = lbind (long_string_loop True 0 l4)
      (\<lambda>ls3. Inr ((TK_string, TV_str (take (length (ls_sb ls3) - 4) (drop 2 (ls_sb ls3)))), ls3))"
    using l1(1) l2(1) l3(1) l4(1)
    by (cases "long_string_loop True 0 l4") (simp_all add: lex_bracket_def read_long_string_def Let_def)
  finally show thesis using l4(2) by (rule that)
qed

lemma llex_page_text:
  assumes "lx (''[['' @ escape_text t @ '']]'' @ xs) [] n l" "CR \<notin> set t" "t = [] \<or> last t \<noteq> CHR '']''"
    "length (escape_text t) + 4 \<le> LJ_MAX_STR div 2" "n + int (count_list t LF) + 1 < LJ_MAX_LINE"
  shows "\<exists>l'. llex_loop l = Inr ((TK_string, TV_str (escape_text (skip_first_newline t))), l') \<and>
    lx xs (''[['' @ escape_text (skip_first_newline t) @ '']]'') (n + int (count_list t LF)) l'"
proof -
  let ?t = "skip_first_newline t"
  have len: "length (escape_text ?t) \<le> length (escape_text t)"
    by (cases t) (auto simp: skip_first_newline_def)
  obtain l1 where l1: "llex_loop l = lbind (long_string_loop True 0 l1)
      (\<lambda>ls3. Inr ((TK_string, TV_str (take (length (ls_sb ls3) - 4) (drop 2 (ls_sb ls3)))), ls3))"
    "lx ('']]'' @ xs) (''[['' @ escape_text ?t) (n + int (count_list t LF)) l1"
    using long_string_open [of t "CHR '']''" "'']'' @ xs" n l] assms by auto
  obtain l2 where "long_string_loop True 0 l1 = Inr l2"
    "lx xs ((''[['' @ escape_text ?t) @ '']]'') (n + int (count_list t LF)) l2"
    using lx_closes [OF l1(2)] len assms(4) by auto
  with l1(1) show ?thesis by (auto simp: lx_def [of xs])
qed
lemma llex_page_bracket:
  assumes "lx (''[['' @ escape_text t @ BACKSLASH # '']]'' @ xs) [] n l" "CR \<notin> set t"
    "length (escape_text t) + 5 \<le> LJ_MAX_STR div 2" "n + int (count_list t LF) + 1 < LJ_MAX_LINE"
  shows "\<exists>l'. llex_loop l = Inr ((TK_string, TV_str (escape_text (skip_first_newline t) @ [BACKSLASH])), l') \<and>
    lx xs (''[['' @ escape_text (skip_first_newline t) @ BACKSLASH # '']]'') (n + int (count_list t LF)) l'"
proof -
  let ?t = "skip_first_newline t"
  have len: "length (escape_text ?t) \<le> length (escape_text t)"
    by (cases t) (auto simp: skip_first_newline_def)
  obtain l1 where l1: "llex_loop l = lbind (long_string_loop True 0 l1)
      (\<lambda>ls3. Inr ((TK_string, TV_str (take (length (ls_sb ls3) - 4) (drop 2 (ls_sb ls3)))), ls3))"
    "lx (BACKSLASH # '']]'' @ xs) (''[['' @ escape_text ?t) (n + int (count_list t LF)) l1"
    using long_string_open [of t BACKSLASH "'']]'' @ xs" n l] assms by auto
  obtain l2 where l2: "long_string_loop True 0 l1 = long_string_loop True 0 l2"
    "lx ('']]'' @ xs) ((''[['' @ escape_text ?t) @ [BACKSLASH]) (n + int (count_list t LF)) l2"
    using lx_plain [OF l1(2)] len assms(3) by auto
  obtain l3 where "long_string_loop True 0 l2 = Inr l3"
    "lx xs (((''[['' @ escape_text ?t) @ [BACKSLASH]) @ '']]'') (n + int (count_list t LF)) l3"
    using lx_closes [OF l2(2)] len assms(3) by auto
  with l1(1) l2(1) show ?thesis by (auto simp: lx_def [of xs])
qed

lemma setup_script:
  obtains ls where "lj_lex_setup [''put('' @ xs] = Inr (False, ls)" "lx (''put('' @ xs) [] 1 ls"
  by (auto simp: lj_lex_setup_def initial_lexstate_def next_char_def fillbuf_def skip_bom_def lx_def)

text \<open>The tokens \<open>ts\<close> come next when \<open>xs\<close> is left to read at line \<open>n\<close>.\<close>

definition lexes :: "string \<Rightarrow> int \<Rightarrow> (int \<times> tokval) list \<Rightarrow> bool" where
  "lexes xs n ts \<longleftrightarrow> (\<forall>ls sb. lx xs sb n ls \<longrightarrow> next_tokens (length ts) ls = Inr ts)"

lemma lexes_Cons:
  assumes "\<And>l. lx xs [] n l \<Longrightarrow> \<exists>l'. llex_loop l = Inr (tok, l') \<and> lx ys sb' m l'" "lexes ys m ts"
  shows "lexes xs n (tok # ts)"
  unfolding lexes_def
proof (intro allI impI)
  fix ls sb
  assume "lx xs sb n ls"
  then have "next_tokens (Suc (length ts)) ls = Inr (tok # ts)"
    using assms(1) by (rule next_tokens_llex) (use assms(2) in \<open>auto simp: lexes_def\<close>)
  then show "next_tokens (length (tok # ts)) ls = Inr (tok # ts)" by simp
qed

lemma lexes_eof: "lexes [] n [(TK_eof, TV_none)]"
proof (rule lexes_Cons)
  show "\<exists>l'. llex_loop l = Inr ((TK_eof, TV_none), l') \<and> lx [] [] n l'" if "lx [] [] n l" for l
    using that llex_eof by blast
  show "lexes [] n []" by (simp add: lexes_def)
qed

lemma lexes_put: "lexes (''('' @ xs) n ts \<Longrightarrow> lexes (''put('' @ xs) n ((TK_name, TV_str ''put'') # ts)"
  by (rule lexes_Cons [OF llex_put])

lemma lexes_punct:
  "lexes xs n ts \<Longrightarrow> c = CHR ''('' \<or> c = CHR '')'' \<or> c = CHR '']'' \<Longrightarrow> lexes (c # xs) n ((chr c, TV_none) # ts)"
  by (rule lexes_Cons [OF llex_punct])

lemma script_tokens:
  assumes "lexes (''put([['' @ xs) 1 ts"
  shows "lbind (lj_lex_setup [''put([['' @ xs]) (\<lambda>(_, ls). next_tokens (length ts) ls) = Inr ts"
proof -
  obtain ls where "lj_lex_setup [''put('' @ ''[['' @ xs] = Inr (False, ls)" "lx (''put('' @ ''[['' @ xs) [] 1 ls"
    by (rule setup_script)
  with assms show ?thesis by (auto simp: lexes_def)
qed

lemma lua_script_text: "tagless t \<Longrightarrow> lua_script t = ''put([['' @ escape_text t @ '']])''"
  using template_loop_text [of t "[]" "''put([[''"] by (simp add: lua_script_def tagless_def text_script_escape)

lemma page_room:
  assumes "length t < 2 ^ 28"
  shows "length (escape_text t) + 5 \<le> LJ_MAX_STR div 2" "1 + int (count_list t LF) + 1 < LJ_MAX_LINE"
proof -
  have "length (escape_text t) \<le> 2 * length t" by (induction t) auto
  with assms show "length (escape_text t) + 5 \<le> LJ_MAX_STR div 2" by simp
  from assms count_le_length [of t LF] show "1 + int (count_list t LF) + 1 < LJ_MAX_LINE" by simp
qed

lemma lexes_page:
  assumes "CR \<notin> set t" "t = [] \<or> last t \<noteq> CHR '']''" "length t < 2 ^ 28"
    and "\<And>n. lexes xs n ts"
  shows "lexes (''put([['' @ escape_text t @ '']]'' @ xs) 1
    ((TK_name, TV_str ''put'') # (chr (CHR ''(''), TV_none) # (TK_string, TV_str (escape_text (skip_first_newline t))) # ts)"
proof -
  have "lexes (''[['' @ escape_text t @ '']]'' @ xs) 1 ((TK_string, TV_str (escape_text (skip_first_newline t))) # ts)"
    using page_room [OF assms(3)] assms by (intro lexes_Cons [OF llex_page_text]) auto
  then have "lexes (CHR ''('' # ''[['' @ escape_text t @ '']]'' @ xs) 1
      ((chr (CHR ''(''), TV_none) # (TK_string, TV_str (escape_text (skip_first_newline t))) # ts)"
    by (intro lexes_punct) auto
  then show ?thesis using lexes_put [of "''[['' @ escape_text t @ '']]'' @ xs" 1] by simp
qed

lemma lexes_page_bracket:
  assumes "CR \<notin> set t" "length t < 2 ^ 28" and "\<And>n. lexes xs n ts"
  shows "lexes (''put([['' @ escape_text t @ BACKSLASH # '']]'' @ xs) 1
    ((TK_name, TV_str ''put'') # (chr (CHR ''(''), TV_none) #
     (TK_string, TV_str (escape_text (skip_first_newline t) @ [BACKSLASH])) # ts)"
proof -
  have "lexes (''[['' @ escape_text t @ BACKSLASH # '']]'' @ xs) 1
      ((TK_string, TV_str (escape_text (skip_first_newline t) @ [BACKSLASH])) # ts)"
    using page_room [OF assms(2)] assms by (intro lexes_Cons [OF llex_page_bracket]) auto
  then have "lexes (CHR ''('' # ''[['' @ escape_text t @ BACKSLASH # '']]'' @ xs) 1
      ((chr (CHR ''(''), TV_none) # (TK_string, TV_str (escape_text (skip_first_newline t) @ [BACKSLASH])) # ts)"
    by (intro lexes_punct) auto
  then show ?thesis using lexes_put [of "''[['' @ escape_text t @ BACKSLASH # '']]'' @ xs" 1] by simp
qed

lemma page_plain_end:
  assumes "tagless t" "CR \<notin> set t" "t = [] \<or> last t \<noteq> CHR '']''" "length t < 2 ^ 28"
  shows "lbind (lj_lex_setup [lua_script t]) (\<lambda>(_, ls). next_tokens 5 ls) =
    Inr [(TK_name, TV_str ''put''), (chr (CHR ''(''), TV_none),
         (TK_string, TV_str (escape_text (skip_first_newline t))), (chr (CHR '')''), TV_none), (TK_eof, TV_none)]"
proof -
  have "lexes '')'' n [(chr (CHR '')''), TV_none), (TK_eof, TV_none)]" for n
    by (intro lexes_punct lexes_eof) auto
  from script_tokens [OF lexes_page [OF assms(2-4) this]] show ?thesis
    by (simp add: lua_script_text [OF assms(1)] eval_nat_numeral)
qed

text \<open>
  A page whose text ends in a closing bracket breaks its script. The bracket and the first of
  the two that the translation appends close the string, so a third bracket is left over between
  the string and the closing parenthesis of \<open>put\<close>, and the script is no Lua program.
\<close>

lemma page_final_bracket:
  assumes "tagless (t @ '']'')" "CR \<notin> set t" "length t < 2 ^ 28"
  shows "lbind (lj_lex_setup [lua_script (t @ '']'')]) (\<lambda>(_, ls). next_tokens 6 ls) =
    Inr [(TK_name, TV_str ''put''), (chr (CHR ''(''), TV_none),
         (TK_string, TV_str (escape_text (skip_first_newline t) @ [BACKSLASH])),
         (chr (CHR '']''), TV_none), (chr (CHR '')''), TV_none), (TK_eof, TV_none)]"
proof -
  have "lexes ''])'' n [(chr (CHR '']''), TV_none), (chr (CHR '')''), TV_none), (TK_eof, TV_none)]" for n
    by (intro lexes_punct lexes_eof) auto
  from script_tokens [OF lexes_page_bracket [OF assms(2,3) this]] show ?thesis
    using lua_script_text [OF assms(1)] by (simp add: escape_text_append eval_nat_numeral)
qed

text \<open>
  C12: the script of a page without Lua tags and carriage returns, as the lexer reads it. If the text does not
  end in a closing bracket, it is one call of \<open>put\<close> with one string. The string is not the text of the
  page: a long string knows no escapes, so the backslash the translation puts before each bracket stays in
  it, and a newline at the start is lost. If the text ends in a closing bracket, a bracket is left over
  behind the string, and the script is no Lua program.
\<close>

theorem page_text_tokens:
  assumes "tagless t" "CR \<notin> set t" "length t < 2 ^ 28"
  shows "lbind (lj_lex_setup [lua_script t]) (\<lambda>(_, ls). next_tokens (if suffix '']'' t then 6 else 5) ls) =
    Inr ([(TK_name, TV_str ''put''), (chr (CHR ''(''), TV_none)] @
         (if suffix '']'' t
          then [(TK_string, TV_str (escape_text (skip_first_newline (butlast t)) @ [BACKSLASH])), (chr (CHR '']''), TV_none)]
          else [(TK_string, TV_str (escape_text (skip_first_newline t)))]) @
         [(chr (CHR '')''), TV_none), (TK_eof, TV_none)])"
proof (cases "suffix '']'' t")
  case True
  then obtain u where u: "t = u @ '']''" by (auto simp: suffix_def)
  with page_final_bracket [of u] assms show ?thesis by (simp add: suffix_def)
next
  case False
  then have "t = [] \<or> last t \<noteq> CHR '']''" by (metis append_butlast_last_id suffix_def)
  with page_plain_end [OF assms(1,2) _ assms(3)] False show ?thesis by simp
qed

theorem page_text_tokens_witness:
  "lbind (lj_lex_setup [lua_script ''<p>a[1]</p>'']) (\<lambda>(_, ls). next_tokens 5 ls) =
    Inr [(TK_name, TV_str ''put''), (chr (CHR ''(''), TV_none),
         (TK_string, TV_str (''<p>a'' @ [BACKSLASH] @ ''[1'' @ [BACKSLASH] @ '']</p>'')),
         (chr (CHR '')''), TV_none), (TK_eof, TV_none)]"
  using page_text_tokens [of "''<p>a[1]</p>''"]
  by (simp add: skip_first_newline_def tagless_def no_tag_def no_tag_begun_def opening_tags_def begun_tags_def
      sublist_Cons_right suffix_Cons)

end
