(* ===== verification/Lj_Tab.thy ===== *)
theory Lj_Tab
  imports Lj_Strscan
begin

text \<open>
  \<open>lj_tab.c\<close>: the tables of the Lua virtual machine. A table has an array part for small integer keys
  and a hash part: a vector of nodes, chained through their \<open>next\<close> fields, in which a key hangs off the
  node its hash selects (its anchor). A pointer to a node is its index, a pointer to a value is a
  \<open>slot\<close>, and the values \<open>NULL\<close> and a pointer are an option. The one-element hash part that tables
  without one share (\<open>nilnode\<close>) is a list of one empty node. Strings are interned in the source and
  values here, so pointer equality is equality; a double is its 64 bits. Memory management is left
  out: no object is collected while a dead key still refers to it, and the array is one list
  whether it is colocated or not; so are metatables. An error is raised past the table operations, and
  the model does not follow a table further once it has raised one. The build is the one for x64,
  without dual numbers.

  A loop over a chain is a partial function, and a table operation has the type \<open>tres\<close>: \<open>None\<close> if a loop
  does not end, \<open>Some (Inl e)\<close> for a Lua error, \<open>Some (Inr x)\<close> for a result. \<open>lj_tab_newkey\<close> calls itself
  through the insertions of \<open>rehashtab\<close>; its first argument bounds the depth of this recursion, and
  depth two is shown to be enough.
\<close>

named_theorems tab_defs \<open>unfolding rules of the table operations\<close>

subsection \<open>Values\<close>

datatype TValue = T_nil | T_bool bool | T_lightud "64 word" | T_str string | T_gc nat "32 word" | T_num "64 word"

fun tvisstr :: "TValue \<Rightarrow> bool" where
  "tvisstr (T_str s) = True"
| "tvisstr _ = False"

abbreviation MZERO :: "64 word" where "MZERO \<equiv> 0x8000000000000000"

definition tvisnan :: "64 word \<Rightarrow> bool" where
  "tvisnan w \<longleftrightarrow> (let n = unat w mod 2 ^ 63 in n > 2047 * 2 ^ 52)"

text \<open>\<open>==\<close> on doubles.\<close>

definition num_eq :: "64 word \<Rightarrow> 64 word \<Rightarrow> bool" where
  "num_eq x y \<longleftrightarrow> \<not> tvisnan x \<and> \<not> tvisnan y \<and> (x = y \<or> (x = 0 \<or> x = MZERO) \<and> (y = 0 \<or> y = MZERO))"

text \<open>The double of a 32-bit integer, and the integer a double is equal to.\<close>

definition num_of_int :: "int \<Rightarrow> 64 word" where
  "num_of_int i =
     (if i = 0 then 0
      else let a = nat \<bar>i\<bar>; e = fls_nat a
           in of_nat ((if i < 0 then 2 ^ 63 else 0) + (1023 + e) * 2 ^ 52 + (a * 2 ^ (52 - e) - 2 ^ 52)))"

definition num2int :: "64 word \<Rightarrow> int option" where
  "num2int w =
     (let n = unat w; e = n div 2 ^ 52 mod 2048; m = n mod 2 ^ 52
      in if e = 0 \<and> m = 0 then Some 0
         else if 1023 \<le> e \<and> e \<le> 1054 \<and> (2 ^ 52 + m) mod 2 ^ (1075 - e) = 0 then
           let a = int ((2 ^ 52 + m) div 2 ^ (1075 - e)); v = (if n < 2 ^ 63 then a else - a)
           in if - (2 ^ 31) \<le> v \<and> v < 2 ^ 31 then Some v else None
         else None)"

definition lj_obj_equal :: "TValue \<Rightarrow> TValue \<Rightarrow> bool" where
  "lj_obj_equal o1 o2 = (case (o1, o2) of (T_num x, T_num y) \<Rightarrow> num_eq x y | _ \<Rightarrow> o1 = o2)"

subsection \<open>Object hashing\<close>

definition lj_rol :: "32 word \<Rightarrow> nat \<Rightarrow> 32 word" where
  "lj_rol x n = (push_bit n x OR drop_bit (32 - n) x)"

definition hashrot :: "32 word \<Rightarrow> 32 word \<Rightarrow> 32 word" where
  "hashrot lo0 hi0 =
     (let lo1 = lo0 XOR hi0; hi1 = lj_rol hi0 14;
          lo2 = lo1 - hi1; hi2 = lj_rol hi1 5;
          hi3 = hi2 XOR lo2
      in hi3 - lj_rol lo2 13)"

definition lj_getu32 :: "string \<Rightarrow> nat \<Rightarrow> 32 word" where
  "lj_getu32 s i =
     of_char (s ! i) + 0x100 * of_char (s ! (i + 1)) + 0x10000 * of_char (s ! (i + 2)) + 0x1000000 * of_char (s ! (i + 3))"

text \<open>The hash that \<open>lj_str_new\<close> stores in a string; the empty string has hash zero.\<close>

definition str_hash :: "string \<Rightarrow> 32 word" where
  "str_hash s =
     (let len = length s; h0 = of_nat len :: 32 word in
      if len = 0 then 0
      else
        let (a, b, h) =
          (if len \<ge> 4 then
             let b = lj_getu32 s (len div 2 - 2);
                 h = (h0 XOR lj_getu32 s (len - 4)) XOR b
             in (lj_getu32 s 0, b + lj_getu32 s (len div 4 - 1), h - lj_rol b 14)
           else
             let b = of_char (s ! (len div 2)) :: 32 word;
                 h = (h0 XOR of_char (s ! (len - 1))) XOR b
             in (of_char (s ! 0), b, h - lj_rol b 14));
            a1 = (a XOR h) - lj_rol h 11;
            b1 = (b XOR a1) - lj_rol a1 25
        in (h XOR b1) - lj_rol b1 16)"

record node =
  n_val :: TValue
  n_key :: TValue
  n_next :: "nat option"

record GCtab =
  t_nomm :: "8 word"
  t_array :: "TValue list"
  t_node :: "node list"
  t_freetop :: nat

definition asize :: "GCtab \<Rightarrow> nat" where "asize t = length (t_array t)"
definition hmask :: "GCtab \<Rightarrow> nat" where "hmask t = length (t_node t) - 1"

definition hashmask :: "GCtab \<Rightarrow> 32 word \<Rightarrow> nat" where
  "hashmask t hash = unat (hash AND of_nat (hmask t))"

abbreviation HASH_BIAS :: "32 word" where "HASH_BIAS \<equiv> - 0x04c11db7"

text \<open>The hash of a key, before it is masked. Nil is never hashed.\<close>

fun key_hash :: "TValue \<Rightarrow> 32 word" where
  "key_hash (T_str s) = str_hash s"
| "key_hash (T_num w) = hashrot (ucast w) (push_bit 1 (ucast (drop_bit 32 w)))"
| "key_hash (T_bool b) = (if b then 1 else 0)"
| "key_hash (T_lightud p) = hashrot (ucast p) (ucast p + HASH_BIAS)"
| "key_hash (T_gc _ r) = hashrot r (r + HASH_BIAS)"
| "key_hash T_nil = 0"

definition hashkey :: "GCtab \<Rightarrow> TValue \<Rightarrow> nat" where
  "hashkey t key = hashmask t (key_hash key)"

subsection \<open>Table creation\<close>

datatype tab_error = ERR_TABOV | ERR_NANIDX | ERR_NILIDX | ERR_NEXTIDX

type_synonym 'a tres = "(tab_error + 'a) option"

definition tbind :: "'a tres \<Rightarrow> ('a \<Rightarrow> 'b tres) \<Rightarrow> 'b tres" where
  "tbind m f = (case m of None \<Rightarrow> None | Some (Inl e) \<Rightarrow> Some (Inl e) | Some (Inr x) \<Rightarrow> f x)"

abbreviation tret :: "'a \<Rightarrow> 'a tres" where "tret x \<equiv> Some (Inr x)"
abbreviation terr :: "tab_error \<Rightarrow> 'a tres" where "terr e \<equiv> Some (Inl e)"

lemma tbind_simps [simp]: "tbind None f = None" "tbind (terr e) f = terr e" "tbind (tret x) f = f x"
  by (simp_all add: tbind_def)

lemma tbind_tret_iff: "tbind m f = tret y \<longleftrightarrow> (\<exists>x. m = tret x \<and> f x = tret y)"
  by (auto simp: tbind_def split: option.splits sum.splits)

abbreviation LJ_MAX_HBITS :: nat where "LJ_MAX_HBITS \<equiv> 26"
abbreviation LJ_MAX_ABITS :: nat where "LJ_MAX_ABITS \<equiv> 28"
abbreviation LJ_MAX_ASIZE :: nat where "LJ_MAX_ASIZE \<equiv> 134217729"

definition empty_node :: node where
  "empty_node = \<lparr>n_val = T_nil, n_key = T_nil, n_next = None\<rparr>"

text \<open>An empty hash part of \<open>2 ^ hbits\<close> nodes, \<open>newhpart\<close> and \<open>clearhpart\<close> together, or the shared empty node.\<close>

definition newhpart :: "GCtab \<Rightarrow> nat \<Rightarrow> GCtab tres" where
  "newhpart t hbits =
     (if hbits = 0 then tret (t\<lparr>t_node := [empty_node], t_freetop := 0\<rparr>)
      else if hbits > LJ_MAX_HBITS then terr ERR_TABOV
      else tret (t\<lparr>t_node := replicate (2 ^ hbits) empty_node, t_freetop := 2 ^ hbits\<rparr>))"

definition lj_tab_new :: "nat \<Rightarrow> nat \<Rightarrow> GCtab tres" where
  "lj_tab_new as hbits =
     (if as > LJ_MAX_ASIZE then terr ERR_TABOV
      else newhpart \<lparr>t_nomm = 0xFF, t_array = replicate as T_nil, t_node = [empty_node], t_freetop = 0\<rparr> hbits)"

text \<open>The entry for traces: the sizes packed into one word.\<close>

definition lj_tab_new1 :: "32 word \<Rightarrow> GCtab tres" where
  "lj_tab_new1 ahsize = lj_tab_new (unat (ahsize AND 0xffffff)) (unat (drop_bit 24 ahsize))"

text \<open>A new table of the same sizes, into which the parts that are there are copied; links are indices and need no offset.\<close>

definition lj_tab_dup :: "GCtab \<Rightarrow> GCtab tres" where
  "lj_tab_dup kt =
     tbind (lj_tab_new (asize kt) (if hmask kt > 0 then fls_nat (hmask kt) + 1 else 0)) (\<lambda>t0.
       let t1 = t0\<lparr>t_nomm := 0\<rparr>;
           t2 = (if asize kt > 0 then t1\<lparr>t_array := map (\<lambda>i. t_array kt ! i) [0..<asize kt]\<rparr> else t1)
       in tret (if hmask kt > 0 then t2\<lparr>t_node := map (\<lambda>i. t_node kt ! i) [0..<Suc (hmask kt)], t_freetop := t_freetop kt\<rparr> else t2))"

subsection \<open>Slots\<close>

datatype slot = Arr nat | Hsh nat

fun load :: "GCtab \<Rightarrow> slot \<Rightarrow> TValue" where
  "load t (Arr i) = t_array t ! i"
| "load t (Hsh i) = n_val (t_node t ! i)"

text \<open>\<open>copyTV(L, slot, v)\<close>: what the callers of the setters do with the slot they get.\<close>

fun store :: "slot \<Rightarrow> TValue \<Rightarrow> GCtab \<Rightarrow> GCtab" where
  "store (Arr i) v t = t\<lparr>t_array := (t_array t)[i := v]\<rparr>"
| "store (Hsh i) v t = t\<lparr>t_node := (t_node t)[i := (t_node t ! i)\<lparr>n_val := v\<rparr>]\<rparr>"

subsection \<open>Table getters\<close>

text \<open>The walk down a chain that all lookups share.\<close>

partial_function (option) chain_find :: "node list \<Rightarrow> (TValue \<Rightarrow> bool) \<Rightarrow> nat \<Rightarrow> nat option option" where
  "chain_find ns p n =
     (if p (n_key (ns ! n)) then Some (Some n)
      else case n_next (ns ! n) of None \<Rightarrow> Some None | Some n' \<Rightarrow> chain_find ns p n')"

declare chain_find.simps [code]

fun is_num :: "64 word \<Rightarrow> TValue \<Rightarrow> bool" where
  "is_num k (T_num w) = num_eq w k"
| "is_num k _ = False"

fun is_str :: "string \<Rightarrow> TValue \<Rightarrow> bool" where
  "is_str s (T_str s') = (s' = s)"
| "is_str s _ = False"

definition lj_tab_getinth :: "GCtab \<Rightarrow> int \<Rightarrow> slot option option" where
  "lj_tab_getinth t key =
     (let k = num_of_int key
      in map_option (map_option Hsh) (chain_find (t_node t) (is_num k) (hashkey t (T_num k))))"

definition lj_tab_getstr :: "GCtab \<Rightarrow> string \<Rightarrow> slot option option" where
  "lj_tab_getstr t key = map_option (map_option Hsh) (chain_find (t_node t) (is_str key) (hashkey t (T_str key)))"

definition inarray :: "GCtab \<Rightarrow> int \<Rightarrow> bool" where
  "inarray t key \<longleftrightarrow> unat (word_of_int key :: 32 word) < asize t"

definition lj_tab_getint :: "GCtab \<Rightarrow> int \<Rightarrow> slot option option" where
  "lj_tab_getint t key =
     (if inarray t key then Some (Some (Arr (unat (word_of_int key :: 32 word)))) else lj_tab_getinth t key)"

definition genlookup :: "GCtab \<Rightarrow> TValue \<Rightarrow> slot option option" where
  "genlookup t key = map_option (map_option Hsh) (chain_find (t_node t) (\<lambda>k. lj_obj_equal k key) (hashkey t key))"

text \<open>The slot a key has; \<open>lj_tab_get\<close> returns its contents, or nil.\<close>

definition get_slot :: "GCtab \<Rightarrow> TValue \<Rightarrow> slot option option" where
  "get_slot t key =
     (case key of
        T_str s \<Rightarrow> lj_tab_getstr t s
      | T_num w \<Rightarrow> (case num2int w of Some k \<Rightarrow> lj_tab_getint t k | None \<Rightarrow> genlookup t key)
      | T_nil \<Rightarrow> Some None
      | _ \<Rightarrow> genlookup t key)"

definition lj_tab_get :: "GCtab \<Rightarrow> TValue \<Rightarrow> TValue option" where
  "lj_tab_get t key = map_option (\<lambda>sl. case sl of Some x \<Rightarrow> load t x | None \<Rightarrow> T_nil) (get_slot t key)"

subsection \<open>Inserting a key\<close>

text \<open>
  The search for a free node goes down from \<open>freetop\<close>; a node is free if its key is nil.
\<close>

fun find_free :: "node list \<Rightarrow> nat \<Rightarrow> nat option" where
  "find_free ns 0 = None"
| "find_free ns (Suc i) = (if n_key (ns ! i) = T_nil then Some i else find_free ns i)"

partial_function (option) find_pred :: "node list \<Rightarrow> nat \<Rightarrow> nat \<Rightarrow> nat option" where
  "find_pred ns n c =
     (if n_next (ns ! c) = Some n then Some c
      else case n_next (ns ! c) of None \<Rightarrow> None | Some c' \<Rightarrow> find_pred ns n c')"

text \<open>Nodes behind the moved one whose string key has its anchor at the main node go to the main node's chain.\<close>

partial_function (option) rechain :: "(TValue \<Rightarrow> nat) \<Rightarrow> nat \<Rightarrow> node list \<Rightarrow> nat \<Rightarrow> node list option" where
  "rechain hash n ns fn =
     (case n_next (ns ! fn) of
        None \<Rightarrow> Some ns
      | Some nn \<Rightarrow>
          if tvisstr (n_key (ns ! nn)) \<and> n_val (ns ! nn) \<noteq> T_nil \<and> hash (n_key (ns ! nn)) = n then
            (let ns1 = ns[fn := (ns ! fn)\<lparr>n_next := n_next (ns ! nn)\<rparr>];
                 ns2 = ns1[nn := (ns1 ! nn)\<lparr>n_next := n_next (ns1 ! n)\<rparr>];
                 ns3 = ns2[n := (ns2 ! n)\<lparr>n_next := Some nn\<rparr>]
             in rechain hash n ns3 fn)
          else rechain hash n ns nn)"

declare find_pred.simps [code] rechain.simps [code]

text \<open>
  The main node \<open>n\<close> is taken by a key of another chain, which starts at \<open>c\<close>: its contents move to the free
  node \<open>f\<close>.
\<close>

definition move_node :: "(TValue \<Rightarrow> nat) \<Rightarrow> node list \<Rightarrow> nat \<Rightarrow> nat \<Rightarrow> nat \<Rightarrow> node list option" where
  "move_node hash ns n f c =
     (case find_pred ns n c of None \<Rightarrow> None
      | Some p \<Rightarrow>
          let ns1 = ns[p := (ns ! p)\<lparr>n_next := Some f\<rparr>];
              ns2 = ns1[f := ns1 ! n];
              ns3 = ns2[n := (ns2 ! n)\<lparr>n_next := None, n_val := T_nil\<rparr>]
          in rechain hash n ns3 f)"

text \<open>A free node \<open>f\<close> is put into the chain behind \<open>n\<close>.\<close>

definition link_node :: "node list \<Rightarrow> nat \<Rightarrow> nat \<Rightarrow> node list" where
  "link_node ns n f =
     (let ns1 = ns[f := (ns ! f)\<lparr>n_next := n_next (ns ! n)\<rparr>]
      in ns1[n := (ns1 ! n)\<lparr>n_next := Some f\<rparr>])"

definition norm_key :: "TValue \<Rightarrow> TValue" where
  "norm_key key = (if key = T_num MZERO then T_num 0 else key)"

definition put_key :: "GCtab \<Rightarrow> nat \<Rightarrow> TValue \<Rightarrow> slot \<times> GCtab" where
  "put_key t n key = (Hsh n, t\<lparr>t_node := (t_node t)[n := (t_node t ! n)\<lparr>n_key := norm_key key\<rparr>]\<rparr>)"

text \<open>
  \<open>lj_tab_newkey\<close>, with what happens when no node is free as a parameter: rehashing the table and setting
  the key again.
\<close>

definition newkey_step :: "(GCtab \<Rightarrow> TValue \<Rightarrow> (slot \<times> GCtab) tres) \<Rightarrow> GCtab \<Rightarrow> TValue \<Rightarrow> (slot \<times> GCtab) tres" where
  "newkey_step retry t key =
     (let n = hashkey t key; ns = t_node t in
      if n_val (ns ! n) \<noteq> T_nil \<or> hmask t = 0 then
        (case find_free ns (t_freetop t) of
           None \<Rightarrow> retry t key
         | Some f \<Rightarrow>
             let c = hashkey t (n_key (ns ! n)) in
             if c \<noteq> n then
               (case move_node (hashkey t) ns n f c of None \<Rightarrow> None
                | Some ns' \<Rightarrow> tret (put_key (t\<lparr>t_node := ns', t_freetop := f\<rparr>) n key))
             else tret (put_key (t\<lparr>t_node := link_node ns n f, t_freetop := f\<rparr>) f key))
      else tret (put_key t n key))"

subsection \<open>Table setters\<close>

type_synonym newkey = "GCtab \<Rightarrow> TValue \<Rightarrow> (slot \<times> GCtab) tres"

text \<open>The slot that a lookup found, or else a new key.\<close>

definition found_or :: "newkey \<Rightarrow> GCtab \<Rightarrow> TValue \<Rightarrow> slot option option \<Rightarrow> (slot \<times> GCtab) tres" where
  "found_or nk t key r = (case r of None \<Rightarrow> None | Some (Some sl) \<Rightarrow> tret (sl, t) | Some None \<Rightarrow> nk t key)"

definition lj_tab_setinth :: "newkey \<Rightarrow> GCtab \<Rightarrow> int \<Rightarrow> (slot \<times> GCtab) tres" where
  "lj_tab_setinth nk t key = found_or nk t (T_num (num_of_int key)) (lj_tab_getinth t key)"

definition lj_tab_setstr :: "newkey \<Rightarrow> GCtab \<Rightarrow> string \<Rightarrow> (slot \<times> GCtab) tres" where
  "lj_tab_setstr nk t key = found_or nk t (T_str key) (lj_tab_getstr t key)"

definition lj_tab_setint :: "newkey \<Rightarrow> GCtab \<Rightarrow> int \<Rightarrow> (slot \<times> GCtab) tres" where
  "lj_tab_setint nk t key =
     (if inarray t key then tret (Arr (unat (word_of_int key :: 32 word)), t) else lj_tab_setinth nk t key)"

definition lj_tab_set_with :: "newkey \<Rightarrow> GCtab \<Rightarrow> TValue \<Rightarrow> (slot \<times> GCtab) tres" where
  "lj_tab_set_with nk t0 key =
     (let t = t0\<lparr>t_nomm := 0\<rparr> in
      case key of
        T_str s \<Rightarrow> lj_tab_setstr nk t s
      | T_nil \<Rightarrow> terr ERR_NILIDX
      | T_num w \<Rightarrow>
          (case num2int w of
             Some k \<Rightarrow> lj_tab_setint nk t k
           | None \<Rightarrow> if tvisnan w then terr ERR_NANIDX else found_or nk t key (genlookup t key))
      | _ \<Rightarrow> found_or nk t key (genlookup t key))"

subsection \<open>Table resizing\<close>

text \<open>Storing a value through a setter.\<close>

definition set_and_store :: "(slot \<times> GCtab) tres \<Rightarrow> TValue \<Rightarrow> GCtab tres" where
  "set_and_store r v = tbind r (\<lambda>(sl, t). tret (store sl v t))"

fun reinsert_array :: "newkey \<Rightarrow> nat \<Rightarrow> TValue list \<Rightarrow> GCtab \<Rightarrow> GCtab tres" where
  "reinsert_array nk i [] t = tret t"
| "reinsert_array nk i (v # vs) t =
     (if v = T_nil then reinsert_array nk (Suc i) vs t
      else tbind (set_and_store (lj_tab_setinth nk t (int i)) v) (reinsert_array nk (Suc i) vs))"

fun reinsert_nodes :: "newkey \<Rightarrow> node list \<Rightarrow> GCtab \<Rightarrow> GCtab tres" where
  "reinsert_nodes nk [] t = tret t"
| "reinsert_nodes nk (n # ns) t =
     (if n_val n = T_nil then reinsert_nodes nk ns t
      else tbind (set_and_store (lj_tab_set_with nk t (n_key n)) (n_val n)) (reinsert_nodes nk ns))"

definition resizetab :: "newkey \<Rightarrow> GCtab \<Rightarrow> nat \<Rightarrow> nat \<Rightarrow> GCtab tres" where
  "resizetab nk t as hbits =
     (let old = asize t;
          t1 = (if as > old then t\<lparr>t_array := t_array t @ replicate (as - old) T_nil\<rparr> else t)
      in if as > old \<and> as > LJ_MAX_ASIZE then terr ERR_TABOV
         else
           tbind (newhpart t1 hbits) (\<lambda>t2.
           tbind (if as < old then reinsert_array nk as (drop as (t_array t)) (t2\<lparr>t_array := take as (t_array t)\<rparr>) else tret t2) (\<lambda>t3.
           if hmask t > 0 then reinsert_nodes nk (t_node t) t3 else tret t3)))"

text \<open>
  Counting integer keys by powers of two: bin \<open>b\<close> holds those above \<open>2 ^ b\<close> and up to \<open>2 ^ (b + 1)\<close>, bin zero all up to two.
\<close>

definition bin_of :: "nat \<Rightarrow> nat" where
  "bin_of k = (if k > 2 then fls_nat (k - 1) else 0)"

fun countint :: "TValue \<Rightarrow> nat list \<Rightarrow> nat \<times> nat list" where
  "countint (T_num w) bins =
     (case num2int w of
        Some k \<Rightarrow>
          if unat (word_of_int k :: 32 word) < LJ_MAX_ASIZE
          then (1, bins[bin_of (unat (word_of_int k :: 32 word)) := Suc (bins ! bin_of (unat (word_of_int k :: 32 word)))])
          else (0, bins)
      | None \<Rightarrow> (0, bins))"
| "countint _ bins = (0, bins)"

text \<open>The non-nil values of the array between two indices, bin by bin.\<close>

function countarray_loop :: "TValue list \<Rightarrow> nat \<Rightarrow> nat \<Rightarrow> nat \<Rightarrow> nat list \<Rightarrow> nat \<times> nat list" where
  "countarray_loop arr b i na bins =
     (if b < LJ_MAX_ABITS then
        let top = (if 2 * 2 ^ b \<ge> length arr then length arr - 1 else 2 * 2 ^ b)
        in if 2 * 2 ^ b \<ge> length arr \<and> i > top then (na, bins)
           else let n = length (filter (\<lambda>j. arr ! j \<noteq> T_nil) [i..<Suc top])
                in countarray_loop arr (Suc b) (max i (Suc top)) (na + n) (bins[b := bins ! b + n])
      else (na, bins))"
  by auto
termination by (relation "measure (\<lambda>(_, b, _). LJ_MAX_ABITS - b)") auto

declare countarray_loop.simps [simp del]

definition countarray :: "GCtab \<Rightarrow> nat list \<Rightarrow> nat \<times> nat list" where
  "countarray t bins = (if asize t = 0 then (0, bins) else countarray_loop (t_array t) 0 0 0 bins)"

text \<open>The live nodes, those among them with a key for the array, and the bins.\<close>

fun counthash :: "node list \<Rightarrow> nat list \<Rightarrow> nat \<times> nat \<times> nat list" where
  "counthash [] bins = (0, 0, bins)"
| "counthash (n # ns) bins =
     (if n_val n = T_nil then counthash ns bins
      else case countint (n_key n) bins of (c, bins1) \<Rightarrow>
        (case counthash ns bins1 of (live, na, bins2) \<Rightarrow> (Suc live, c + na, bins2)))"

lemma exp_bound_decreases: "2 ^ b < 2 * nn \<Longrightarrow> 2 * nn - Suc b < 2 * nn - b" for nn :: nat
  using less_exp [of b] by linarith

text \<open>The best array size for the counts: the number of keys that go to the array, and its size.\<close>

function bestasize_loop :: "nat list \<Rightarrow> nat \<Rightarrow> nat \<Rightarrow> nat \<Rightarrow> nat \<Rightarrow> nat \<Rightarrow> nat \<times> nat" where
  "bestasize_loop bins nn b acc na sz =
     (if 2 * nn > 2 ^ b \<and> acc \<noteq> nn then
        let acc' = acc + bins ! b
        in if bins ! b > 0 \<and> 2 * acc' > 2 ^ b then bestasize_loop bins nn (Suc b) acc' acc' (2 * 2 ^ b + 1)
           else bestasize_loop bins nn (Suc b) acc' na sz
      else (na, sz))"
  by auto
termination
  by (relation "measure (\<lambda>(_, nn, b, _). 2 * nn - b)") (auto intro: exp_bound_decreases)

declare bestasize_loop.simps [simp del]

definition bestasize :: "nat list \<Rightarrow> nat \<Rightarrow> nat \<times> nat" where
  "bestasize bins nn = bestasize_loop bins nn 0 0 0 0"

definition hsize2hbits :: "nat \<Rightarrow> nat" where
  "hsize2hbits s = (if s = 0 then 0 else if s = 1 then 1 else 1 + fls_nat (s - 1))"

definition rehashtab :: "newkey \<Rightarrow> GCtab \<Rightarrow> TValue \<Rightarrow> GCtab tres" where
  "rehashtab nk t ek =
     (case countarray t (replicate LJ_MAX_ABITS 0) of (ca, bins1) \<Rightarrow>
      case counthash (t_node t) bins1 of (ch, chi, bins2) \<Rightarrow>
      case countint ek bins2 of (ci, bins3) \<Rightarrow>
      case bestasize bins3 (ca + chi + ci) of (na, sz) \<Rightarrow>
        resizetab nk t sz (hsize2hbits (1 + ca + ch - na)))"

primrec lj_tab_newkey :: "nat \<Rightarrow> newkey" where
  "lj_tab_newkey 0 = (\<lambda>t key. None)"
| "lj_tab_newkey (Suc depth) =
     newkey_step (\<lambda>t key. tbind (rehashtab (lj_tab_newkey depth) t key)
       (\<lambda>t'. lj_tab_set_with (lj_tab_newkey depth) t' key))"

definition lj_tab_set :: "nat \<Rightarrow> GCtab \<Rightarrow> TValue \<Rightarrow> (slot \<times> GCtab) tres" where
  "lj_tab_set depth = lj_tab_set_with (lj_tab_newkey depth)"

definition lj_tab_rehash :: "nat \<Rightarrow> GCtab \<Rightarrow> GCtab tres" where
  "lj_tab_rehash depth t = rehashtab (lj_tab_newkey depth) t T_nil"

definition lj_tab_reasize :: "nat \<Rightarrow> GCtab \<Rightarrow> nat \<Rightarrow> GCtab tres" where
  "lj_tab_reasize depth t nasize =
     resizetab (lj_tab_newkey depth) t (nasize + 1) (if hmask t > 0 then fls_nat (hmask t) + 1 else 0)"

subsection \<open>Table traversal\<close>

definition keyindex :: "GCtab \<Rightarrow> TValue \<Rightarrow> nat tres" where
  "keyindex t key =
     (let hash = (case genlookup t key of
          None \<Rightarrow> None
        | Some (Some (Hsh n)) \<Rightarrow> tret (asize t + n)
        | Some _ \<Rightarrow>
            (case key of
               T_num w \<Rightarrow> if drop_bit 32 w = 0xfffe7fff then tret (unat (ucast w - 1 :: 32 word)) else terr ERR_NEXTIDX
             | _ \<Rightarrow> terr ERR_NEXTIDX))
      in case key of
           T_nil \<Rightarrow> tret 0xFFFFFFFF
         | T_num w \<Rightarrow>
             (case num2int w of
                Some k \<Rightarrow> if inarray t k then tret (unat (word_of_int k :: 32 word)) else hash
              | None \<Rightarrow> hash)
         | _ \<Rightarrow> hash)"

text \<open>The first entry at or after an index, in the array and then in the hash part.\<close>

definition next_entry :: "GCtab \<Rightarrow> nat \<Rightarrow> (TValue \<times> TValue) option" where
  "next_entry t i =
     (case find (\<lambda>j. t_array t ! j \<noteq> T_nil) [i..<asize t] of
        Some j \<Rightarrow> Some (T_num (num_of_int (int j)), t_array t ! j)
      | None \<Rightarrow>
          (case find (\<lambda>j. n_val (t_node t ! j) \<noteq> T_nil) [max i (asize t) - asize t..<Suc (hmask t)] of
             Some j \<Rightarrow> Some (n_key (t_node t ! j), n_val (t_node t ! j))
           | None \<Rightarrow> None))"

definition lj_tab_next :: "GCtab \<Rightarrow> TValue \<Rightarrow> (TValue \<times> TValue) option tres" where
  "lj_tab_next t key = tbind (keyindex t key) (\<lambda>i. tret (next_entry t ((i + 1) mod 2 ^ 32)))"

subsection \<open>Table length\<close>

definition int_present :: "GCtab \<Rightarrow> nat \<Rightarrow> bool option" where
  "int_present t j =
     map_option (\<lambda>sl. case sl of Some x \<Rightarrow> load t x \<noteq> T_nil | None \<Rightarrow> False)
       (lj_tab_getint t (sint (of_nat j :: 32 word)))"

partial_function (option) linear_search :: "GCtab \<Rightarrow> nat \<Rightarrow> nat option" where
  "linear_search t i =
     (case int_present t i of None \<Rightarrow> None
      | Some b \<Rightarrow> if b then linear_search t ((i + 1) mod 2 ^ 32) else Some (i - 1))"

function binary_search :: "(nat \<Rightarrow> bool option) \<Rightarrow> nat \<Rightarrow> nat \<Rightarrow> nat option" where
  "binary_search p i j =
     (if j - i > 1 then
        let m = (i + j) div 2
        in case p m of None \<Rightarrow> None | Some b \<Rightarrow> if b then binary_search p m j else binary_search p i m
      else Some i)"
  by auto
termination by (relation "measure (\<lambda>(_, i, j). j - i)") auto

declare linear_search.simps [code] binary_search.simps [simp del]

abbreviation INT_MAX :: nat where "INT_MAX \<equiv> 2147483647"

partial_function (option) unbound_search_loop :: "GCtab \<Rightarrow> nat \<Rightarrow> nat \<Rightarrow> nat option" where
  "unbound_search_loop t i j =
     (case int_present t j of None \<Rightarrow> None
      | Some b \<Rightarrow>
          if b then
            if j * 2 > INT_MAX - 2 then linear_search t 1 else unbound_search_loop t j (j * 2)
          else binary_search (int_present t) i j)"

declare unbound_search_loop.simps [code]

definition unbound_search :: "GCtab \<Rightarrow> nat \<Rightarrow> nat option" where
  "unbound_search t j = unbound_search_loop t j (j + 1)"

definition lj_tab_len :: "GCtab \<Rightarrow> nat option" where
  "lj_tab_len t =
     (let j = asize t
      in if j > 1 \<and> t_array t ! (j - 1) = T_nil then
           map_option (\<lambda>i. i - 1) (binary_search (\<lambda>m. Some (t_array t ! (m - 1) \<noteq> T_nil)) 1 j)
         else if hmask t = 0 then Some (j - 1)
         else unbound_search t (j - 1))"

end
