(* ===== verification/Lj_Tab_Nodes.thy ===== *)
theory Lj_Tab_Nodes
  imports Lj_Tab
begin

text \<open>
  The hash part of a table on its own: the invariant of the node chains, the lookup along a chain,
  and the three ways in which a new key gets its node. The anchor of a key is given by a function,
  the hash of the table.
\<close>

subsection \<open>Chains\<close>

definition linked :: "node list \<Rightarrow> nat \<Rightarrow> nat \<Rightarrow> bool" where
  "linked ns i j \<longleftrightarrow> i < length ns \<and> n_next (ns ! i) = Some j"

abbreviation reach :: "node list \<Rightarrow> nat \<Rightarrow> nat \<Rightarrow> bool" where
  "reach ns \<equiv> (linked ns)\<^sup>*\<^sup>*"

text \<open>Chains have no cycle: the position in the chain grows along it.\<close>

definition ranked :: "node list \<Rightarrow> bool" where
  "ranked ns \<longleftrightarrow> (\<exists>rk :: nat \<Rightarrow> nat. \<forall>i j. linked ns i j \<longrightarrow> rk i < rk j)"

text \<open>
  Links lead to nodes with keys; a node without a key is empty and unlinked; a key is reached from
  its anchor, which holds a key of its own; a node has one predecessor at most; no key occurs twice.
\<close>

definition links_ok :: "node list \<Rightarrow> bool" where
  "links_ok ns \<longleftrightarrow> (\<forall>i j. linked ns i j \<longrightarrow> j < length ns \<and> n_key (ns ! j) \<noteq> T_nil)"

definition empties_ok :: "node list \<Rightarrow> bool" where
  "empties_ok ns \<longleftrightarrow> (\<forall>i < length ns. n_key (ns ! i) = T_nil \<longrightarrow> n_val (ns ! i) = T_nil \<and> n_next (ns ! i) = None)"

definition anchored :: "(TValue \<Rightarrow> nat) \<Rightarrow> node list \<Rightarrow> bool" where
  "anchored h ns \<longleftrightarrow> (\<forall>i < length ns. n_key (ns ! i) \<noteq> T_nil \<longrightarrow>
     (let a = h (n_key (ns ! i)) in a < length ns \<and> n_key (ns ! a) \<noteq> T_nil \<and> h (n_key (ns ! a)) = a \<and> reach ns a i))"

definition one_pred :: "node list \<Rightarrow> bool" where
  "one_pred ns \<longleftrightarrow> (\<forall>i j k. linked ns i k \<longrightarrow> linked ns j k \<longrightarrow> i = j)"

definition keys_distinct :: "node list \<Rightarrow> bool" where
  "keys_distinct ns \<longleftrightarrow> (\<forall>i < length ns. \<forall>j < length ns.
     n_key (ns ! i) \<noteq> T_nil \<longrightarrow> n_key (ns ! i) = n_key (ns ! j) \<longrightarrow> i = j)"

definition nodes_ok :: "(TValue \<Rightarrow> nat) \<Rightarrow> node list \<Rightarrow> bool" where
  "nodes_ok h ns \<longleftrightarrow> ranked ns \<and> links_ok ns \<and> empties_ok ns \<and> anchored h ns \<and> one_pred ns \<and> keys_distinct ns"

lemma links_okD: "links_ok ns \<Longrightarrow> linked ns i j \<Longrightarrow> j < length ns \<and> n_key (ns ! j) \<noteq> T_nil"
  by (simp add: links_ok_def)

lemma empties_okD: "empties_ok ns \<Longrightarrow> i < length ns \<Longrightarrow> n_key (ns ! i) = T_nil \<Longrightarrow> n_val (ns ! i) = T_nil \<and> n_next (ns ! i) = None"
  by (simp add: empties_ok_def)

lemma anchoredD:
  assumes "anchored h ns" "i < length ns" "n_key (ns ! i) \<noteq> T_nil"
  shows "h (n_key (ns ! i)) < length ns" "n_key (ns ! h (n_key (ns ! i))) \<noteq> T_nil"
    "h (n_key (ns ! h (n_key (ns ! i)))) = h (n_key (ns ! i))" "reach ns (h (n_key (ns ! i))) i"
  using assms by (simp_all add: anchored_def Let_def)

definition has_key :: "node list \<Rightarrow> TValue \<Rightarrow> bool" where
  "has_key ns k \<longleftrightarrow> (\<exists>i < length ns. n_key (ns ! i) = k)"

text \<open>The value stored under a key.\<close>

definition val_of :: "node list \<Rightarrow> TValue \<Rightarrow> TValue" where
  "val_of ns k = (case find (\<lambda>n. n_key n = k) ns of Some n \<Rightarrow> n_val n | None \<Rightarrow> T_nil)"

lemma val_of_node:
  assumes "keys_distinct ns" "i < length ns" "n_key (ns ! i) = k" "k \<noteq> T_nil"
  shows "val_of ns k = n_val (ns ! i)"
proof (cases "find (\<lambda>n. n_key n = k) ns")
  case None
  then show ?thesis using assms(2,3) by (auto simp: find_None_iff)
next
  case (Some n)
  then obtain j where "j < length ns" "n_key (ns ! j) = k" "n = ns ! j" by (auto simp: find_Some_iff)
  moreover from this have "i = j" using assms by (auto simp: keys_distinct_def)
  ultimately show ?thesis using Some by (simp add: val_of_def)
qed

lemma val_of_none: "\<not> has_key ns k \<Longrightarrow> val_of ns k = T_nil"
proof -
  assume "\<not> has_key ns k"
  then have "find (\<lambda>n. n_key n = k) ns = None" by (auto simp: has_key_def find_None_iff in_set_conv_nth)
  then show ?thesis by (simp add: val_of_def)
qed

lemma empty_nodes_ok: "nodes_ok h (replicate n empty_node)"
proof -
  have "linked (replicate n empty_node) i j \<longleftrightarrow> False" for i j
    by (auto simp: linked_def empty_node_def)
  then show ?thesis
    by (auto simp: nodes_ok_def ranked_def links_ok_def empties_ok_def anchored_def one_pred_def keys_distinct_def)
      (simp_all add: empty_node_def)
qed

subsection \<open>Lookup\<close>

text \<open>Induction along a chain, from its end.\<close>

lemma chain_induct:
  assumes "ranked ns" "links_ok ns" "a < length ns"
    and step: "\<And>a. a < length ns \<Longrightarrow> (\<And>b. linked ns a b \<Longrightarrow> b < length ns \<Longrightarrow> P b) \<Longrightarrow> P a"
  shows "P a"
proof -
  from assms(1) obtain rk :: "nat \<Rightarrow> nat" where rk: "linked ns i j \<Longrightarrow> rk i < rk j" for i j
    by (auto simp: ranked_def)
  let ?m = "Max (rk ` {..<length ns})"
  have le: "i < length ns \<Longrightarrow> rk i \<le> ?m" for i by simp
  from assms(3) show ?thesis
  proof (induction "?m - rk a" arbitrary: a rule: less_induct)
    case less
    show ?case
    proof (rule step [OF less.prems])
      fix b
      assume b: "linked ns a b" "b < length ns"
      have "?m - rk b < ?m - rk a" using rk [OF b(1)] le [OF b(2)] by linarith
      from less.hyps [OF this b(2)] show "P b" .
    qed
  qed
qed

lemma reach_cases: "reach ns a i \<Longrightarrow> i = a \<or> (\<exists>b. linked ns a b \<and> reach ns b i)"
  by (auto elim: converse_rtranclpE)

lemma chain_find_walk:
  assumes "ranked ns" "links_ok ns" "a < length ns"
  shows "\<exists>r. chain_find ns p a = Some r \<and>
    (\<forall>i. r = Some i \<longrightarrow> reach ns a i \<and> i < length ns \<and> p (n_key (ns ! i))) \<and>
    (r = None \<longrightarrow> (\<forall>i. reach ns a i \<longrightarrow> \<not> p (n_key (ns ! i))))"
  using assms
proof (rule chain_induct)
  fix a
  assume a: "a < length ns"
    and IH: "\<And>b. linked ns a b \<Longrightarrow> b < length ns \<Longrightarrow> \<exists>r. chain_find ns p b = Some r \<and>
      (\<forall>i. r = Some i \<longrightarrow> reach ns b i \<and> i < length ns \<and> p (n_key (ns ! i))) \<and>
      (r = None \<longrightarrow> (\<forall>i. reach ns b i \<longrightarrow> \<not> p (n_key (ns ! i))))"
  show "\<exists>r. chain_find ns p a = Some r \<and>
      (\<forall>i. r = Some i \<longrightarrow> reach ns a i \<and> i < length ns \<and> p (n_key (ns ! i))) \<and>
      (r = None \<longrightarrow> (\<forall>i. reach ns a i \<longrightarrow> \<not> p (n_key (ns ! i))))"
  proof (cases "p (n_key (ns ! a)) \<or> n_next (ns ! a) = None")
    case True
    have "i = a" if "reach ns a i" "n_next (ns ! a) = None" for i
      using reach_cases [OF that(1)] that(2) by (auto simp: linked_def)
    with True a show ?thesis by (subst chain_find.simps) (auto, metis)
  next
    case False
    then obtain b where b: "linked ns a b" "n_next (ns ! a) = Some b" using a by (auto simp: linked_def)
    then have lt: "b < length ns" using assms(2) links_okD by blast
    from IH [OF b(1) lt] obtain r where r: "chain_find ns p b = Some r"
      "\<forall>i. r = Some i \<longrightarrow> reach ns b i \<and> i < length ns \<and> p (n_key (ns ! i))"
      "r = None \<longrightarrow> (\<forall>i. reach ns b i \<longrightarrow> \<not> p (n_key (ns ! i)))" by blast
    have "chain_find ns p a = Some r" using False b(2) r(1) by (subst chain_find.simps) simp
    moreover have "reach ns a i \<Longrightarrow> i = a \<or> reach ns b i" for i
      using reach_cases [of ns a i] b(2) by (auto simp: linked_def)
    moreover have "reach ns b i \<Longrightarrow> reach ns a i" for i using b(1) by (rule converse_rtranclp_into_rtranclp)
    ultimately show ?thesis using r(2,3) False by blast
  qed
qed

text \<open>A key is found from its anchor if and only if some node has it.\<close>

lemma chain_find_key:
  assumes "nodes_ok h ns" "h k < length ns" "k \<noteq> T_nil"
    and "\<And>i. i < length ns \<Longrightarrow> n_key (ns ! i) \<noteq> T_nil \<Longrightarrow> p (n_key (ns ! i)) \<longleftrightarrow> n_key (ns ! i) = k" and "\<not> p T_nil"
  shows "(\<exists>i < length ns. n_key (ns ! i) = k \<and> chain_find ns p (h k) = Some (Some i)) \<or>
    (\<not> has_key ns k \<and> chain_find ns p (h k) = Some None)"
proof -
  have "ranked ns" "links_ok ns" "anchored h ns" using assms(1) by (auto simp: nodes_ok_def)
  from chain_find_walk [OF this(1,2) assms(2), of p] obtain r where r: "chain_find ns p (h k) = Some r"
    "\<forall>i. r = Some i \<longrightarrow> reach ns (h k) i \<and> i < length ns \<and> p (n_key (ns ! i))"
    "r = None \<longrightarrow> (\<forall>i. reach ns (h k) i \<longrightarrow> \<not> p (n_key (ns ! i)))" by blast
  show ?thesis
  proof (cases r)
    case (Some i)
    then have "i < length ns" "p (n_key (ns ! i))" using r(2) by auto
    moreover from this have "n_key (ns ! i) = k" using assms(4,5) by metis
    ultimately show ?thesis using r(1) Some by blast
  next
    case None
    have "\<not> has_key ns k"
    proof
      assume "has_key ns k"
      then obtain i where i: "i < length ns" "n_key (ns ! i) = k" by (auto simp: has_key_def)
      with \<open>anchored h ns\<close> assms(3) have "reach ns (h k) i" by (auto simp: anchored_def Let_def)
      with r(3) None have "\<not> p (n_key (ns ! i))" by blast
      with assms(3,4) i show False by blast
    qed
    with r(1) None show ?thesis by blast
  qed
qed

subsection \<open>A new key in its own, unused main node\<close>

lemma linked_key_update:
  "n < length ns \<Longrightarrow> linked (ns[n := (ns ! n)\<lparr>n_key := k\<rparr>]) i j \<longleftrightarrow> linked ns i j"
  by (cases "i = n") (auto simp: linked_def)

lemma reach_mono:
  assumes "reach ns a b" "\<And>i j. linked ns i j \<Longrightarrow> reach ns' i j"
  shows "reach ns' a b"
  using assms(1) by (induction rule: rtranclp_induct) (auto intro: rtranclp_trans assms(2))

lemma put_main_ok:
  assumes ok: "nodes_ok h ns" and n: "n < length ns" "h k = n" and k: "k \<noteq> T_nil" "\<not> has_key ns k"
    and v: "n_val (ns ! n) = T_nil"
  shows "nodes_ok h (ns[n := (ns ! n)\<lparr>n_key := k\<rparr>])" (is "nodes_ok h ?ns")
proof -
  have l: "linked ?ns = linked ns" using n(1) by (intro ext) (simp add: linked_key_update)
  have key: "i < length ns \<Longrightarrow> n_key (?ns ! i) = (if i = n then k else n_key (ns ! i))" for i by simp
  have "anchored h ?ns"
    unfolding anchored_def Let_def l
  proof (intro allI impI)
    fix i
    assume i: "i < length ?ns" "n_key (?ns ! i) \<noteq> T_nil"
    show "h (n_key (?ns ! i)) < length ?ns \<and> n_key (?ns ! h (n_key (?ns ! i))) \<noteq> T_nil \<and>
        h (n_key (?ns ! h (n_key (?ns ! i)))) = h (n_key (?ns ! i)) \<and> reach ns (h (n_key (?ns ! i))) i"
    proof (cases "i = n")
      case True
      with n k show ?thesis by simp
    next
      case False
      with i have "n_key (ns ! i) \<noteq> T_nil" by simp
      with ok i have "h (n_key (ns ! i)) < length ns" "n_key (ns ! h (n_key (ns ! i))) \<noteq> T_nil"
        "h (n_key (ns ! h (n_key (ns ! i)))) = h (n_key (ns ! i))" "reach ns (h (n_key (ns ! i))) i"
        by (auto simp: nodes_ok_def anchored_def Let_def)
      with False n k show ?thesis by (cases "h (n_key (ns ! i)) = n") auto
    qed
  qed
  moreover have "keys_distinct ?ns"
    using ok k key by (auto simp: nodes_ok_def keys_distinct_def has_key_def)
  moreover have "empties_ok ?ns" using ok k n(1) by (auto simp: nodes_ok_def empties_ok_def nth_list_update)
  moreover have "links_ok ?ns"
    using ok k key links_okD [of ns] by (auto simp: nodes_ok_def links_ok_def [of ?ns] l)
  ultimately show ?thesis using ok by (simp add: nodes_ok_def ranked_def one_pred_def l)
qed

subsection \<open>A new key in a free node behind its main node\<close>

lemma free_unlinked:
  assumes "nodes_ok h ns" "f < length ns" "n_key (ns ! f) = T_nil"
  shows "\<not> linked ns f j" "\<not> linked ns i f" "n_val (ns ! f) = T_nil"
proof -
  have l: "links_ok ns" and e: "empties_ok ns" using assms(1) by (auto simp: nodes_ok_def)
  from empties_okD [OF e assms(2,3)] show "\<not> linked ns f j" "n_val (ns ! f) = T_nil" by (simp_all add: linked_def)
  from links_okD [OF l, of i f] assms(3) show "\<not> linked ns i f" by blast
qed

definition link_key :: "node list \<Rightarrow> nat \<Rightarrow> nat \<Rightarrow> TValue \<Rightarrow> node list" where
  "link_key ns n f k = (link_node ns n f)[f := (link_node ns n f ! f)\<lparr>n_key := k\<rparr>]"

lemma link_key_nth:
  assumes "n \<noteq> f" "n < length ns" "f < length ns" "i < length ns"
  shows "link_key ns n f k ! i = (if i = n then (ns ! n)\<lparr>n_next := Some f\<rparr>
    else if i = f then (ns ! f)\<lparr>n_next := n_next (ns ! n), n_key := k\<rparr> else ns ! i)"
  using assms by (auto simp: link_key_def link_node_def Let_def nth_list_update)

lemma link_key_length [simp]: "length (link_key ns n f k) = length ns"
  by (simp add: link_key_def link_node_def Let_def)

lemma linked_link_key:
  assumes "n \<noteq> f" "n < length ns" "f < length ns"
  shows "linked (link_key ns n f k) i j \<longleftrightarrow>
    (i = n \<and> j = f) \<or> (i = f \<and> linked ns n j) \<or> (i \<noteq> n \<and> i \<noteq> f \<and> linked ns i j)"
  using assms by (cases "i < length ns") (auto simp: linked_def link_key_nth)

lemma ranked_link_key:
  assumes "ranked ns" "n \<noteq> f" "n < length ns" "f < length ns" "\<And>i. \<not> linked ns i f"
  shows "ranked (link_key ns n f k)"
proof -
  from assms(1) obtain rk :: "nat \<Rightarrow> nat" where rk: "linked ns i j \<Longrightarrow> rk i < rk j" for i j
    by (auto simp: ranked_def)
  let ?rk = "\<lambda>i. if i = f then 2 * rk n + 1 else 2 * rk i"
  have "linked (link_key ns n f k) i j \<Longrightarrow> ?rk i < ?rk j" for i j
    using assms rk [of n j] rk [of i j] by (auto simp: linked_link_key)
  then show ?thesis unfolding ranked_def by (intro exI [of _ ?rk]) blast
qed

lemma put_free_ok:
  assumes ok: "nodes_ok h ns" and n: "n < length ns" "h k = n" "n_key (ns ! n) \<noteq> T_nil" "h (n_key (ns ! n)) = n"
    and f: "f < length ns" "n_key (ns ! f) = T_nil" and k: "k \<noteq> T_nil" "\<not> has_key ns k"
  shows "nodes_ok h (link_key ns n f k)" (is "nodes_ok h ?ns")
proof -
  have nf: "n \<noteq> f" using n f by auto
  note free = free_unlinked [OF ok f]
  note L = linked_link_key [OF nf n(1) f(1), of k] and N = link_key_nth [OF nf n(1) f(1), of _ k]
  have key: "i < length ns \<Longrightarrow> n_key (?ns ! i) = (if i = f then k else n_key (ns ! i))" for i
    using nf by (simp add: N)
  have "linked ns i j \<Longrightarrow> reach ?ns i j" for i j
  proof (cases "i = n")
    case True
    assume "linked ns i j"
    with True have "linked ?ns n f" "linked ?ns f j" by (auto simp: L)
    with True show ?thesis by (meson converse_rtranclp_into_rtranclp r_into_rtranclp)
  next
    case False
    assume "linked ns i j"
    with False free have "linked ?ns i j" by (auto simp: L)
    then show ?thesis by blast
  qed
  then have R: "reach ns a b \<Longrightarrow> reach ?ns a b" for a b using reach_mono [of ns a b ?ns] by blast
  have nf_reach: "reach ?ns n f" using L by blast
  have "anchored h ?ns"
    unfolding anchored_def Let_def
  proof (intro allI impI)
    fix i
    assume i: "i < length ?ns" "n_key (?ns ! i) \<noteq> T_nil"
    show "h (n_key (?ns ! i)) < length ?ns \<and> n_key (?ns ! h (n_key (?ns ! i))) \<noteq> T_nil \<and>
        h (n_key (?ns ! h (n_key (?ns ! i)))) = h (n_key (?ns ! i)) \<and> reach ?ns (h (n_key (?ns ! i))) i"
    proof (cases "i = f")
      case True
      with n nf nf_reach key f(1) show ?thesis by simp
    next
      case False
      with i key have "n_key (ns ! i) \<noteq> T_nil" by simp
      with ok i have a: "h (n_key (ns ! i)) < length ns" "n_key (ns ! h (n_key (ns ! i))) \<noteq> T_nil"
        "h (n_key (ns ! h (n_key (ns ! i)))) = h (n_key (ns ! i))" "reach ns (h (n_key (ns ! i))) i"
        by (auto simp: nodes_ok_def anchored_def Let_def)
      moreover have "h (n_key (ns ! i)) \<noteq> f" using a(2) f(2) by auto
      ultimately show ?thesis using False i key R by simp
    qed
  qed
  moreover have "ranked ?ns" using ok nf n(1) f(1) free by (intro ranked_link_key) (auto simp: nodes_ok_def)
  moreover have "links_ok ?ns"
    unfolding links_ok_def L using ok key k(1) f(1) by (metis link_key_length links_okD nodes_ok_def)
  moreover have "empties_ok ?ns" using ok key k nf n by (auto simp: nodes_ok_def empties_ok_def N)
  moreover have "one_pred ?ns" using ok free unfolding nodes_ok_def one_pred_def L by metis
  moreover have "keys_distinct ?ns" using ok k key by (auto simp: nodes_ok_def keys_distinct_def has_key_def)
  ultimately show ?thesis by (simp add: nodes_ok_def)
qed

subsection \<open>A new key in its main node, after the key there has moved to a free node\<close>

lemma find_pred_reach:
  assumes "reach ns c n" "c \<noteq> n"
  shows "\<exists>p. find_pred ns n c = Some p \<and> linked ns p n"
  using assms
proof (induction rule: converse_rtranclp_induct)
  case (step c c')
  show ?case
  proof (cases "c' = n")
    case True
    with step.hyps(1) show ?thesis by (subst find_pred.simps) (auto simp: linked_def)
  next
    case False
    with step.IH obtain p where "find_pred ns n c' = Some p" "linked ns p n" by blast
    with step.hyps(1) False show ?thesis by (subst find_pred.simps) (auto simp: linked_def)
  qed
qed simp

text \<open>With an intact invariant there is nothing to rechain: no key behind the moved one has its anchor at the main node.\<close>

lemma rechain_nothing:
  assumes "ranked ns" "links_ok ns" "f < length ns"
    and "\<And>i. i < length ns \<Longrightarrow> n_key (ns ! i) \<noteq> T_nil \<Longrightarrow> h (n_key (ns ! i)) \<noteq> n"
  shows "rechain h n ns f = Some ns"
  using assms(1-3)
proof (rule chain_induct)
  fix a
  assume a: "a < length ns" and IH: "\<And>b. linked ns a b \<Longrightarrow> b < length ns \<Longrightarrow> rechain h n ns b = Some ns"
  show "rechain h n ns a = Some ns"
  proof (cases "n_next (ns ! a)")
    case None
    then show ?thesis by (subst rechain.simps) simp
  next
    case (Some b)
    then have b: "linked ns a b" using a by (simp add: linked_def)
    with assms(2) have "b < length ns" "n_key (ns ! b) \<noteq> T_nil" using links_okD by blast+
    with IH [OF b] assms(4) Some show ?thesis by (subst rechain.simps) simp
  qed
qed

definition moved :: "node list \<Rightarrow> nat \<Rightarrow> nat \<Rightarrow> nat \<Rightarrow> TValue \<Rightarrow> node list" where
  "moved ns n f p k =
     (ns[p := (ns ! p)\<lparr>n_next := Some f\<rparr>, f := ns ! n, n := \<lparr>n_val = T_nil, n_key = k, n_next = None\<rparr>])"

lemma moved_length [simp]: "length (moved ns n f p k) = length ns"
  by (simp add: moved_def)

lemma moved_nth:
  assumes "p \<noteq> n" "p \<noteq> f" "n \<noteq> f" "p < length ns" "n < length ns" "f < length ns" "i < length ns"
  shows "moved ns n f p k ! i = (if i = n then \<lparr>n_val = T_nil, n_key = k, n_next = None\<rparr>
    else if i = f then ns ! n else if i = p then (ns ! p)\<lparr>n_next := Some f\<rparr> else ns ! i)"
  using assms by (simp add: moved_def nth_list_update)

lemma linked_moved:
  assumes "p \<noteq> n" "p \<noteq> f" "n \<noteq> f" "p < length ns" "n < length ns" "f < length ns"
  shows "linked (moved ns n f p k) i j \<longleftrightarrow>
    (i = p \<and> j = f) \<or> (i = f \<and> linked ns n j) \<or> (i \<noteq> p \<and> i \<noteq> f \<and> i \<noteq> n \<and> linked ns i j)"
  using assms by (cases "i < length ns") (auto simp: linked_def moved_nth)

lemma ranked_moved:
  assumes "ranked ns" "p \<noteq> n" "p \<noteq> f" "n \<noteq> f" "p < length ns" "n < length ns" "f < length ns"
    "linked ns p n" "\<And>i. \<not> linked ns i f" "one_pred ns"
  shows "ranked (moved ns n f p k)"
proof -
  from assms(1) obtain rk :: "nat \<Rightarrow> nat" where rk: "linked ns i j \<Longrightarrow> rk i < rk j" for i j
    by (auto simp: ranked_def)
  let ?rk = "\<lambda>i. if i = f then rk n else rk i"
  have "linked (moved ns n f p k) i j \<Longrightarrow> ?rk i < ?rk j" for i j
    using assms rk [of n j] rk [of i j] rk [of p n] by (auto simp: linked_moved)
  then show ?thesis unfolding ranked_def by (intro exI [of _ ?rk]) blast
qed

lemma reach_moved:
  assumes "reach ns a b" "p \<noteq> n" "p \<noteq> f" "n \<noteq> f" "p < length ns" "n < length ns" "f < length ns"
    "linked ns p n" "\<And>i j. \<not> linked ns i f \<and> \<not> linked ns f j" "one_pred ns" "\<not> linked ns n n"
  shows "reach (moved ns n f p k) (if a = n then f else a) (if b = n then f else b)"
  using assms(1)
proof (induction rule: rtranclp_induct)
  case (step b c)
  have "linked (moved ns n f p k) (if b = n then f else b) (if c = n then f else c)"
  proof (cases "c = n")
    case True
    with step.hyps(2) assms have "b = p" by (auto simp: one_pred_def)
    with True assms show ?thesis by (simp add: linked_moved)
  next
    case False
    have "b \<noteq> p" using False step.hyps(2) assms(8) by (auto simp: linked_def)
    with False step.hyps(2) assms show ?thesis by (auto simp: linked_moved)
  qed
  with step.IH show ?case by (rule rtranclp.rtrancl_into_rtrancl)
qed simp

lemma put_moved_ok:
  assumes ok: "nodes_ok h ns" and n: "n < length ns" "h k = n" "n_key (ns ! n) \<noteq> T_nil" "h (n_key (ns ! n)) \<noteq> n"
    and f: "f < length ns" "n_key (ns ! f) = T_nil" and p: "linked ns p n" and k: "k \<noteq> T_nil" "\<not> has_key ns k"
  shows "nodes_ok h (moved ns n f p k)" (is "nodes_ok h ?ns")
proof -
  have inv: "ranked ns" "links_ok ns" "empties_ok ns" "anchored h ns" "one_pred ns" "keys_distinct ns"
    using ok by (auto simp: nodes_ok_def)
  note free = free_unlinked [OF ok f]
  have irrefl: "\<not> linked ns i i" for i using inv(1) unfolding ranked_def by (metis less_irrefl)
  have ne: "p \<noteq> n" "p \<noteq> f" "n \<noteq> f" "p < length ns"
    using p irrefl free(1) n(3) f(2) by (metis linked_def)+
  note N = moved_nth [OF ne n(1) f(1), of _ k] and L = linked_moved [OF ne n(1) f(1), of k]
  have key: "i < length ns \<Longrightarrow> n_key (?ns ! i) = (if i = n then k else if i = f then n_key (ns ! n) else n_key (ns ! i))" for i
    by (simp add: N)
  have R: "reach ns a b \<Longrightarrow> reach ?ns (if a = n then f else a) (if b = n then f else b)" for a b
    using reach_moved [OF _ ne n(1) f(1) p _ inv(5) irrefl] free by blast
  have no_n: "h (n_key (ns ! i)) \<noteq> n" if "i < length ns" "n_key (ns ! i) \<noteq> T_nil" for i
    using anchoredD [OF inv(4) that] n(4) by metis
  have A: "h (n_key (ns ! i)) < length ns \<and> n_key (?ns ! h (n_key (ns ! i))) = n_key (ns ! h (n_key (ns ! i))) \<and>
      reach ?ns (h (n_key (ns ! i))) (if i = n then f else i)"
    if i: "i < length ns" "n_key (ns ! i) \<noteq> T_nil" for i
  proof -
    note a = anchoredD [OF inv(4) i]
    have "h (n_key (ns ! i)) \<noteq> f" using a(2) f(2) by auto
    with a no_n [OF i] key R [OF a(4)] show ?thesis by auto
  qed
  have "anchored h ?ns"
    unfolding anchored_def Let_def
  proof (intro allI impI)
    fix i
    assume i: "i < length ?ns" "n_key (?ns ! i) \<noteq> T_nil"
    show "h (n_key (?ns ! i)) < length ?ns \<and> n_key (?ns ! h (n_key (?ns ! i))) \<noteq> T_nil \<and>
        h (n_key (?ns ! h (n_key (?ns ! i)))) = h (n_key (?ns ! i)) \<and> reach ?ns (h (n_key (?ns ! i))) i"
    proof (cases "i = n")
      case True
      with n(1,2) k(1) key show ?thesis by simp
    next
      case False
      let ?j = "if i = f then n else i"
      have j: "?j < length ns" "n_key (ns ! ?j) \<noteq> T_nil" "n_key (?ns ! i) = n_key (ns ! ?j)" "(if ?j = n then f else ?j) = i"
        using i False key n by auto
      from A [OF j(1,2)] anchoredD [OF inv(4) j(1,2)] j show ?thesis by auto
    qed
  qed
  moreover have "ranked ?ns" using ranked_moved [OF inv(1) ne n(1) f(1) p _ inv(5)] free by blast
  moreover have "links_ok ?ns"
    unfolding links_ok_def L using key n(3) f(1) k(1) links_okD [OF inv(2)] by (metis moved_length)
  moreover have "n_key (ns ! p) \<noteq> T_nil" using empties_okD [OF inv(3) ne(4)] p by (auto simp: linked_def)
  then have "empties_ok ?ns" using inv(3) n(3) k(1) by (auto simp: empties_ok_def N)
  moreover have "one_pred ?ns"
    using inv(5) free p unfolding one_pred_def L by metis
  moreover have "keys_distinct ?ns"
    using inv(6) k n f key unfolding keys_distinct_def has_key_def by (auto split: if_splits)
  ultimately show ?thesis by (simp add: nodes_ok_def)
qed

subsection \<open>What an insertion changes\<close>

text \<open>The live entries of the hash part, the keys in use, and the nodes at and above \<open>freetop\<close>.\<close>

definition content :: "node list \<Rightarrow> (TValue \<times> TValue) set" where
  "content ns = {(n_key (ns ! i), n_val (ns ! i)) | i. i < length ns \<and> n_key (ns ! i) \<noteq> T_nil \<and> n_val (ns ! i) \<noteq> T_nil}"

definition used :: "node list \<Rightarrow> nat set" where
  "used ns = {i. i < length ns \<and> n_key (ns ! i) \<noteq> T_nil}"

definition free_ok :: "node list \<Rightarrow> nat \<Rightarrow> bool" where
  "free_ok ns ft \<longleftrightarrow> ft \<le> length ns \<and> (\<forall>i < length ns. ft \<le> i \<longrightarrow> n_key (ns ! i) \<noteq> T_nil)"

lemma finite_used [simp]: "finite (used ns)"
  by (simp add: used_def)

lemma val_of_content:
  assumes "keys_distinct ns" "k \<noteq> T_nil" "v \<noteq> T_nil"
  shows "val_of ns k = v \<longleftrightarrow> (k, v) \<in> content ns"
proof (cases "has_key ns k")
  case True
  then obtain i where i: "i < length ns" "n_key (ns ! i) = k" by (auto simp: has_key_def)
  have "(k, v) \<in> content ns \<longleftrightarrow> n_val (ns ! i) = v"
    using assms i by (auto simp: content_def keys_distinct_def)
  with val_of_node [OF assms(1) i assms(2)] show ?thesis by simp
next
  case False
  with assms(3) show ?thesis by (auto simp: val_of_none content_def has_key_def)
qed

lemma content_val_of:
  assumes "content ns' = content ns" "keys_distinct ns" "keys_distinct ns'" "k \<noteq> T_nil"
  shows "val_of ns' k = val_of ns k"
  using val_of_content [OF assms(2,4)] val_of_content [OF assms(3,4)] assms(1) by metis

lemma find_free_Some: "find_free ns ft = Some f \<Longrightarrow> f < ft \<and> n_key (ns ! f) = T_nil \<and> (\<forall>i. f < i \<longrightarrow> i < ft \<longrightarrow> n_key (ns ! i) \<noteq> T_nil)"
  by (induction ft) (auto split: if_splits simp: less_Suc_eq)

lemma find_free_None: "find_free ns ft = None \<Longrightarrow> i < ft \<Longrightarrow> n_key (ns ! i) \<noteq> T_nil"
  by (induction ft) (auto split: if_splits simp: less_Suc_eq)

lemma content_mono:
  assumes "\<And>i. i < length ns \<Longrightarrow> n_key (ns ! i) \<noteq> T_nil \<Longrightarrow> n_val (ns ! i) \<noteq> T_nil \<Longrightarrow>
    g i < length ns' \<and> n_key (ns' ! g i) = n_key (ns ! i) \<and> n_val (ns' ! g i) = n_val (ns ! i)"
  shows "content ns \<subseteq> content ns'"
proof
  fix x
  assume "x \<in> content ns"
  then obtain i where i: "x = (n_key (ns ! i), n_val (ns ! i))" "i < length ns" "n_key (ns ! i) \<noteq> T_nil" "n_val (ns ! i) \<noteq> T_nil"
    by (auto simp: content_def)
  from assms [OF i(2-4)] i show "x \<in> content ns'"
    unfolding content_def by (intro CollectI exI [of _ "g i"]) simp
qed

definition inserted :: "(TValue \<Rightarrow> nat) \<Rightarrow> node list \<Rightarrow> TValue \<Rightarrow> nat \<Rightarrow> nat \<Rightarrow> node list \<Rightarrow> bool" where
  "inserted h ns k i ft ns' \<longleftrightarrow> length ns' = length ns \<and> nodes_ok h ns' \<and> i < length ns \<and>
     n_key (ns' ! i) = k \<and> n_val (ns' ! i) = T_nil \<and> content ns' = content ns \<and>
     (\<forall>j < length ns. n_key (ns' ! j) = k \<or> has_key ns (n_key (ns' ! j))) \<and>
     card (used ns') \<le> Suc (card (used ns)) \<and> free_ok ns' ft"

lemma used_insert: "used ns' \<subseteq> insert j (used ns) \<Longrightarrow> card (used ns') \<le> Suc (card (used ns))"
proof -
  assume "used ns' \<subseteq> insert j (used ns)"
  then have "card (used ns') \<le> card (insert j (used ns))" by (intro card_mono) auto
  also have "\<dots> \<le> Suc (card (used ns))" by (simp add: card_insert_if)
  finally show ?thesis .
qed

lemma inserted_main:
  assumes "nodes_ok h ns" "n < length ns" "h k = n" "k \<noteq> T_nil" "\<not> has_key ns k" "n_val (ns ! n) = T_nil" "free_ok ns ft"
  shows "inserted h ns k n ft (ns[n := (ns ! n)\<lparr>n_key := k\<rparr>])" (is "inserted h ns k n ft ?ns")
proof -
  have nth: "i < length ns \<Longrightarrow> ?ns ! i = (if i = n then (ns ! n)\<lparr>n_key := k\<rparr> else ns ! i)" for i by simp
  have "content ?ns = content ns"
    by (intro equalityI content_mono [where g = id]) (use assms(6) in \<open>auto simp: nth split: if_splits\<close>)
  moreover have "used ?ns \<subseteq> insert n (used ns)" by (auto simp: used_def nth)
  moreover have "free_ok ?ns ft" using assms(4,7) by (auto simp: free_ok_def nth)
  ultimately show ?thesis
    using put_main_ok [OF assms(1-6)] used_insert [of ?ns n ns] assms(2,6)
    by (auto simp: inserted_def has_key_def nth)
qed

lemma inserted_free:
  assumes "nodes_ok h ns" "n < length ns" "h k = n" "n_key (ns ! n) \<noteq> T_nil" "h (n_key (ns ! n)) = n"
    "k \<noteq> T_nil" "\<not> has_key ns k" "free_ok ns ft" "find_free ns ft = Some f"
  shows "inserted h ns k f f (link_key ns n f k)" (is "inserted h ns k f f ?ns")
proof -
  have f: "f < length ns" "n_key (ns ! f) = T_nil" "f < ft" "\<And>i. f < i \<Longrightarrow> i < ft \<Longrightarrow> n_key (ns ! i) \<noteq> T_nil"
    using find_free_Some [OF assms(9)] assms(8) by (auto simp: free_ok_def)
  have nf: "n \<noteq> f" using assms(4) f(2) by auto
  note N = link_key_nth [OF nf assms(2) f(1), of _ k] and v = free_unlinked(3) [OF assms(1) f(1,2)]
  have "content ?ns = content ns"
    by (intro equalityI content_mono [where g = id]) (use v f(2) nf in \<open>auto simp: N split: if_splits\<close>)
  moreover have "used ?ns \<subseteq> insert f (used ns)" by (auto simp: used_def N split: if_splits)
  moreover have "free_ok ?ns f"
    using assms(4,6,8) f nf by (auto simp: free_ok_def N)
  ultimately show ?thesis
    using put_free_ok [OF assms(1-5) f(1,2) assms(6,7)] used_insert [of ?ns f ns] f v nf
    by (auto simp: inserted_def has_key_def N)
qed

lemma inserted_moved:
  assumes "nodes_ok h ns" "n < length ns" "h k = n" "n_key (ns ! n) \<noteq> T_nil" "h (n_key (ns ! n)) \<noteq> n"
    "k \<noteq> T_nil" "\<not> has_key ns k" "free_ok ns ft" "find_free ns ft = Some f" "linked ns p n"
  shows "inserted h ns k n f (moved ns n f p k)" (is "inserted h ns k n f ?ns")
proof -
  have f: "f < length ns" "n_key (ns ! f) = T_nil" "f < ft" "\<And>i. f < i \<Longrightarrow> i < ft \<Longrightarrow> n_key (ns ! i) \<noteq> T_nil"
    using find_free_Some [OF assms(9)] assms(8) by (auto simp: free_ok_def)
  note free = free_unlinked [OF assms(1) f(1,2)]
  have ne: "p \<noteq> n" "p \<noteq> f" "n \<noteq> f" "p < length ns"
    using assms(1,4,10) free(1) f(2) unfolding nodes_ok_def ranked_def by (metis linked_def less_irrefl)+
  note N = moved_nth [OF ne assms(2) f(1), of _ k]
  have "content ?ns \<subseteq> content ns"
    by (rule content_mono [where g = "\<lambda>i. if i = f then n else i"]) (use assms(2) in \<open>auto simp: N split: if_splits\<close>)
  moreover have "content ns \<subseteq> content ?ns"
    by (rule content_mono [where g = "\<lambda>i. if i = n then f else i"]) (use f(1,2) ne in \<open>auto simp: N\<close>)
  moreover have "used ?ns \<subseteq> insert f (used ns)" using assms(4) by (auto simp: used_def N split: if_splits)
  moreover have "free_ok ?ns f"
    using assms(4,6,8) f by (auto simp: free_ok_def N)
  ultimately show ?thesis
    using put_moved_ok [OF assms(1-5) f(1,2) assms(10,6,7)] used_insert [of ?ns f ns] assms(2)
    by (auto simp: inserted_def has_key_def N)
qed

end
