(* ===== verification/Lj_Tab_Keys.thy ===== *)
theory Lj_Tab_Keys
  imports Lj_Tab_Nodes
begin

text \<open>
  The keys of tables: doubles as bit patterns, which of them are integers, and on which keys the
  comparisons of the source are plain equality.
\<close>

subsection \<open>Doubles and integers\<close>

lemma fls_nat_bounds: "a > 0 \<Longrightarrow> 2 ^ fls_nat a \<le> a \<and> a < 2 ^ Suc (fls_nat a)"
proof (induction a rule: fls_nat.induct)
  case (1 n)
  show ?case
  proof (cases "n \<le> 1")
    case False
    with 1 have IH: "2 ^ fls_nat (n div 2) \<le> n div 2" "n div 2 < 2 ^ Suc (fls_nat (n div 2))" by auto
    have "fls_nat n = Suc (fls_nat (n div 2))" using False by (subst fls_nat.simps) simp
    moreover have "2 * x \<le> n \<and> n < 2 * (2 * x)" if "x \<le> n div 2" "n div 2 < 2 * x" for x using that by linarith
    ultimately show ?thesis using IH by simp
  qed (use 1 in \<open>subst (1 2) fls_nat.simps, simp\<close>)
qed

lemma fls_nat_unique:
  assumes "2 ^ e \<le> a" "a < 2 ^ Suc e"
  shows "fls_nat a = e"
proof -
  have "a > 0" using assms(1) by (metis gr0I le_zero_eq power_not_zero zero_neq_numeral)
  then have b: "2 ^ fls_nat a \<le> a" "a < 2 ^ Suc (fls_nat a)" using fls_nat_bounds by auto
  have "(2 :: nat) ^ e < 2 ^ Suc (fls_nat a)" "(2 :: nat) ^ fls_nat a < 2 ^ Suc e"
    using assms b by linarith+
  then have "e < Suc (fls_nat a)" "fls_nat a < Suc e"
    by (simp_all only: power_strict_increasing_iff numeral_less_iff one_less_numeral_iff semiring_norm)
  then show ?thesis by simp
qed

text \<open>The three fields of a double.\<close>

lemma double_fields:
  fixes s e m :: nat
  assumes "s \<le> 1" "e < 2048" "m < 2 ^ 52"
  defines "n \<equiv> s * 2 ^ 63 + e * 2 ^ 52 + m"
  shows "n < 2 ^ 64" "n div 2 ^ 52 mod 2048 = e" "n mod 2 ^ 52 = m" "n < 2 ^ 63 \<longleftrightarrow> s = 0"
proof -
  have n: "n = (s * 2048 + e) * 2 ^ 52 + m" by (simp add: n_def algebra_simps)
  then have d: "n div 2 ^ 52 = s * 2048 + e" using assms(3) by (simp del: power_numeral)
  show "n mod 2 ^ 52 = m" using n assms(3) by (simp del: power_numeral)
  show "n div 2 ^ 52 mod 2048 = e" using d assms(2) by simp
  show "n < 2 ^ 64" "n < 2 ^ 63 \<longleftrightarrow> s = 0" using assms by (cases "s = 0"; simp)+
qed

lemma double_split:
  fixes n :: nat
  assumes "n < 2 ^ 64"
  obtains s e m where "s \<le> 1" "e < 2048" "m < 2 ^ 52" "n = s * 2 ^ 63 + e * 2 ^ 52 + m"
proof
  show "n div 2 ^ 63 \<le> 1" using assms by (simp add: div_le_mono less_Suc_eq_le [symmetric] div_less_iff_less_mult)
  show "n div 2 ^ 52 mod 2048 < 2048" "n mod 2 ^ 52 < 2 ^ 52" by simp_all
  have "n div 2 ^ 52 = n div 2 ^ 63 * 2048 + n div 2 ^ 52 mod 2048"
    using div_mult_mod_eq [of "n div 2 ^ 52" 2048] by (simp add: div_mult2_eq [symmetric])
  then have "n = (n div 2 ^ 63 * 2048 + n div 2 ^ 52 mod 2048) * 2 ^ 52 + n mod 2 ^ 52"
    using div_mult_mod_eq [of n "2 ^ 52"] by argo
  then show "n = n div 2 ^ 63 * 2 ^ 63 + n div 2 ^ 52 mod 2048 * 2 ^ 52 + n mod 2 ^ 52"
    by (simp add: algebra_simps)
qed

lemma unat_of_nat_64: "n < 2 ^ 64 \<Longrightarrow> unat (of_nat n :: 64 word) = n"
  by (simp add: unsigned_of_nat take_bit_nat_eq_self)

abbreviation int32 :: "int \<Rightarrow> bool" where
  "int32 i \<equiv> - (2 ^ 31) \<le> i \<and> i < 2 ^ 31"

lemma num_of_int_fields:
  assumes "int32 i" "i \<noteq> 0"
  obtains e m where "e \<le> 31" "m < 2 ^ 52" "nat \<bar>i\<bar> * 2 ^ (52 - e) = 2 ^ 52 + m"
    "num_of_int i = of_nat ((if i < 0 then 1 else 0) * 2 ^ 63 + (1023 + e) * 2 ^ 52 + m)"
proof -
  let ?a = "nat \<bar>i\<bar>" and ?e = "fls_nat (nat \<bar>i\<bar>)"
  have a: "?a > 0" "?a \<le> 2 ^ 31" using assms by auto
  then have b: "2 ^ ?e \<le> ?a" "?a < 2 ^ Suc ?e" using fls_nat_bounds [of ?a] by blast+
  have "(2 :: nat) ^ ?e \<le> 2 ^ 31" using a b by linarith
  then have e: "?e \<le> 31" by (simp only: power_increasing_iff one_less_numeral_iff semiring_norm)
  then have p: "(2 :: nat) ^ ?e * 2 ^ (52 - ?e) = 2 ^ 52" "(2 :: nat) ^ Suc ?e * 2 ^ (52 - ?e) = 2 ^ 53"
    by (simp_all only: power_add [symmetric]) simp_all
  have "2 ^ 52 \<le> ?a * 2 ^ (52 - ?e)" using mult_le_mono1 [OF b(1), of "2 ^ (52 - ?e)"] p(1) by linarith
  moreover have "?a * 2 ^ (52 - ?e) < 2 ^ 53"
    using mult_less_mono1 [OF b(2), of "2 ^ (52 - ?e)"] p(2) by (metis zero_less_numeral zero_less_power)
  moreover have "x - 2 ^ 52 < 2 ^ 52" if "x < 2 ^ 53" "2 ^ 52 \<le> x" for x :: nat using that by simp
  ultimately show thesis
    using e assms(2)
    by (intro that [of ?e "?a * 2 ^ (52 - ?e) - 2 ^ 52"]) (simp_all add: num_of_int_def Let_def)
qed

lemma num2int_fields:
  assumes "s \<le> 1" "e < 2048" "m < 2 ^ 52"
  shows "num2int (of_nat (s * 2 ^ 63 + e * 2 ^ 52 + m)) =
    (if e = 0 \<and> m = 0 then Some 0
     else if 1023 \<le> e \<and> e \<le> 1054 \<and> (2 ^ 52 + m) mod 2 ^ (1075 - e) = 0 then
       let a = int ((2 ^ 52 + m) div 2 ^ (1075 - e)); v = (if s = 0 then a else - a)
       in if int32 v then Some v else None
     else None)"
  unfolding num2int_def Let_def unat_of_nat_64 [OF double_fields(1) [OF assms]] double_fields(2-4) [OF assms] ..

lemma num2int_num_of_int:
  assumes "int32 i"
  shows "num2int (num_of_int i) = Some i"
proof (cases "i = 0")
  case True
  then show ?thesis by (simp add: num_of_int_def num2int_def)
next
  case False
  from num_of_int_fields [OF assms False] obtain e m where f: "e \<le> 31" "m < 2 ^ 52"
    "nat \<bar>i\<bar> * 2 ^ (52 - e) = 2 ^ 52 + m"
    "num_of_int i = of_nat ((if i < 0 then 1 else 0) * 2 ^ 63 + (1023 + e) * 2 ^ 52 + m)" .
  have sh: "1075 - (1023 + e) = 52 - e" by simp
  have "(2 ^ 52 + m) mod 2 ^ (52 - e) = 0" "(2 ^ 52 + m) div 2 ^ (52 - e) = nat \<bar>i\<bar>"
    unfolding f(3) [symmetric] by simp_all
  then show ?thesis
    unfolding f(4) using f(1,2) False assms sh
    by (subst num2int_fields) (auto simp: Let_def)
qed

lemma num2int_Some:
  assumes "num2int w = Some i"
  shows "int32 i \<and> (w = num_of_int i \<or> w = MZERO \<and> i = 0)"
proof -
  have "unat w < 2 ^ 64" using unsigned_less [of w] by simp
  then obtain s e m where f: "s \<le> 1" "e < 2048" "m < 2 ^ 52" "unat w = s * 2 ^ 63 + e * 2 ^ 52 + m"
    by (rule double_split)
  have w: "w = of_nat (s * 2 ^ 63 + e * 2 ^ 52 + m)" unfolding f(4) [symmetric] by simp
  show ?thesis
  proof (cases "e = 0 \<and> m = 0")
    case True
    have "i = 0" using assms True unfolding w num2int_fields [OF f(1-3)] by simp
    moreover have "s = 0 \<or> s = 1" using f(1) by linarith
    then have "w = 0 \<or> w = MZERO" using True w by auto
    ultimately show ?thesis by (auto simp: num_of_int_def)
  next
    case False
    let ?a = "(2 ^ 52 + m) div 2 ^ (1075 - e)"
    from assms False have e: "1023 \<le> e" "e \<le> 1054" "(2 ^ 52 + m) mod 2 ^ (1075 - e) = 0"
      and i: "i = (if s = 0 then int ?a else - int ?a)" "int32 i"
      unfolding w num2int_fields [OF f(1-3)] by (auto simp: Let_def split: if_splits)
    define d where "d = e - 1023"
    have ed: "e = 1023 + d" "1075 - e = 52 - d" "d \<le> 31" using e d_def by auto
    have am: "?a * 2 ^ (52 - d) = 2 ^ 52 + m" using e(3) ed(2) by (metis div_mult_mod_eq add.right_neutral)
    have p: "(2 :: nat) ^ d * 2 ^ (52 - d) = 2 ^ 52" "(2 :: nat) ^ Suc d * 2 ^ (52 - d) = 2 ^ 53"
      using ed(3) by (simp_all only: power_add [symmetric]) simp_all
    have "2 ^ d * 2 ^ (52 - d) \<le> ?a * 2 ^ (52 - d)" unfolding am p(1) by simp
    moreover have "?a * 2 ^ (52 - d) < 2 ^ Suc d * 2 ^ (52 - d)" unfolding am p(2) using f(3) by simp
    ultimately have "2 ^ d \<le> ?a" "?a < 2 ^ Suc d" by (simp_all only: mult_le_cancel2 mult_less_cancel2)
    then have fls: "fls_nat ?a = d" and pos: "?a > 0"
      by (auto intro: fls_nat_unique)
    have i': "nat \<bar>i\<bar> = ?a" "i \<noteq> 0" "i < 0 \<longleftrightarrow> s = 1" using i(1) pos f(1) by auto
    have "num_of_int i = of_nat ((if i < 0 then 2 ^ 63 else 0) + (1023 + d) * 2 ^ 52 + m)"
      unfolding num_of_int_def Let_def i'(1) fls am using i'(2) by simp
    also have "(if i < 0 then 2 ^ 63 else 0) = s * 2 ^ 63" using i'(3) f(1) by (cases "s = 1") simp_all
    also have "of_nat (s * 2 ^ 63 + (1023 + d) * 2 ^ 52 + m) = w" unfolding w ed(1) ..
    finally show ?thesis using i(2) by simp
  qed
qed

subsection \<open>Keys\<close>

text \<open>A key a table stores: no nil, no NaN, no minus zero.\<close>

definition good_key :: "TValue \<Rightarrow> bool" where
  "good_key k \<longleftrightarrow> k \<noteq> T_nil \<and> (case k of T_num w \<Rightarrow> \<not> tvisnan w \<and> w \<noteq> MZERO | _ \<Rightarrow> True)"

lemma good_key_num: "good_key (T_num w) \<longleftrightarrow> \<not> tvisnan w \<and> w \<noteq> MZERO"
  by (simp add: good_key_def)

lemma good_num2int: "good_key (T_num w) \<Longrightarrow> num2int w = Some i \<Longrightarrow> w = num_of_int i"
  using num2int_Some [of w i] by (auto simp: good_key_num)

lemma num_of_int_good:
  assumes "int32 i"
  shows "good_key (T_num (num_of_int i))"
proof -
  have "\<not> tvisnan (num_of_int i)"
  proof (cases "i = 0")
    case True
    then show ?thesis by (simp add: num_of_int_def tvisnan_def)
  next
    case False
    from num_of_int_fields [OF assms False] obtain e m where f: "e \<le> 31" "m < 2 ^ 52"
      "num_of_int i = of_nat ((if i < 0 then 1 else 0) * 2 ^ 63 + (1023 + e) * 2 ^ 52 + m)" .
    let ?s = "if i < 0 then 1 else 0 :: nat"
    have "unat (num_of_int i) = ?s * 2 ^ 63 + (1023 + e) * 2 ^ 52 + m"
      unfolding f(3) by (rule unat_of_nat_64 [OF double_fields(1)]) (use f(1,2) in auto)
    then have "unat (num_of_int i) = ?s * 2 ^ 63 + ((1023 + e) * 2 ^ 52 + m)" by (simp only: add.assoc)
    moreover have lt: "(1023 + e) * 2 ^ 52 + m < 2047 * 2 ^ 52"
      using mult_le_mono1 [of "1023 + e" 1054 "2 ^ 52"] f(1,2) by simp
    moreover have "(1023 + e) * 2 ^ 52 + m < 2 ^ 63" using lt by simp
    ultimately have "unat (num_of_int i) mod 2 ^ 63 = (1023 + e) * 2 ^ 52 + m" by (simp del: power_numeral)
    with lt show ?thesis by (simp add: tvisnan_def Let_def)
  qed
  moreover have "num_of_int i \<noteq> MZERO"
  proof
    assume m: "num_of_int i = MZERO"
    then have "num2int MZERO = Some i" using num2int_num_of_int [OF assms] by simp
    moreover have "num2int MZERO = Some 0" by (simp add: num2int_def)
    ultimately have "num_of_int i = 0" by (simp add: num_of_int_def)
    with m show False by simp
  qed
  ultimately show ?thesis by (simp add: good_key_num)
qed

lemma num_eq_good: "good_key (T_num x) \<Longrightarrow> good_key (T_num y) \<Longrightarrow> num_eq x y \<longleftrightarrow> x = y"
  by (auto simp: good_key_num num_eq_def)

lemma lj_obj_equal_good: "good_key x \<Longrightarrow> good_key y \<Longrightarrow> lj_obj_equal x y \<longleftrightarrow> x = y"
  by (cases x; cases y) (auto simp: lj_obj_equal_def num_eq_good)

lemma is_num_good: "good_key k \<Longrightarrow> good_key (T_num w) \<Longrightarrow> is_num w k \<longleftrightarrow> k = T_num w"
  by (cases k) (auto simp: num_eq_good)

lemma is_str_eq: "is_str s k \<longleftrightarrow> k = T_str s"
  by (cases k) auto

end
