(* ===== verification/Lj_Tab_Map.thy ===== *)
theory Lj_Tab_Map
  imports Lj_Tab_Keys
begin

text \<open>
  Tables as finite maps: the invariant of a table, what the getters return, and what the setters do
  as long as a node is free.
\<close>

subsection \<open>The invariant of a table\<close>

text \<open>The index of a key in the array part.\<close>

definition arr_index :: "GCtab \<Rightarrow> TValue \<Rightarrow> nat option" where
  "arr_index t k =
     (case k of
        T_num w \<Rightarrow> (case num2int w of Some i \<Rightarrow> if 0 \<le> i \<and> nat i < asize t then Some (nat i) else None | None \<Rightarrow> None)
      | _ \<Rightarrow> None)"

definition tab_ok :: "GCtab \<Rightarrow> bool" where
  "tab_ok t \<longleftrightarrow> (\<exists>b \<le> LJ_MAX_HBITS. length (t_node t) = 2 ^ b) \<and> asize t \<le> LJ_MAX_ASIZE \<and>
     (hmask t = 0 \<longrightarrow> t_node t = [empty_node] \<and> t_freetop t = 0) \<and>
     nodes_ok (hashkey t) (t_node t) \<and> (hmask t \<noteq> 0 \<longrightarrow> free_ok (t_node t) (t_freetop t)) \<and>
     (\<forall>n \<in> set (t_node t). n_key n = T_nil \<or> good_key (n_key n) \<and> arr_index t (n_key n) = None)"

text \<open>The value of a key.\<close>

definition lookup :: "GCtab \<Rightarrow> TValue \<Rightarrow> TValue" where
  "lookup t k = (case arr_index t k of Some i \<Rightarrow> t_array t ! i | None \<Rightarrow> val_of (t_node t) k)"

lemma tab_okD:
  assumes "tab_ok t"
  shows "asize t \<le> LJ_MAX_ASIZE" "hmask t = 0 \<Longrightarrow> t_node t = [empty_node] \<and> t_freetop t = 0"
    "nodes_ok (hashkey t) (t_node t)" "hmask t \<noteq> 0 \<Longrightarrow> free_ok (t_node t) (t_freetop t)" "keys_distinct (t_node t)"
    "i < length (t_node t) \<Longrightarrow> n_key (t_node t ! i) \<noteq> T_nil \<Longrightarrow> good_key (n_key (t_node t ! i)) \<and> arr_index t (n_key (t_node t ! i)) = None"
  using assms nth_mem [of i "t_node t"] by (auto simp: tab_ok_def nodes_ok_def)

lemma hashkey_bound:
  assumes "tab_ok t"
  shows "hashkey t k < length (t_node t)"
proof -
  from assms obtain b where b: "b \<le> LJ_MAX_HBITS" "length (t_node t) = 2 ^ b" by (auto simp: tab_ok_def)
  have "(of_nat (hmask t) :: 32 word) = mask b"
    using b by (simp add: hmask_def of_nat_diff mask_eq_exp_minus_1)
  then have "hashkey t k = unat (take_bit b (key_hash k))"
    by (simp add: hashkey_def hashmask_def take_bit_eq_mask)
  also have "\<dots> = take_bit b (unat (key_hash k))" by (simp add: unsigned_take_bit_eq)
  also have "\<dots> < 2 ^ b" by simp
  finally show ?thesis using b(2) by simp
qed

lemma hashkey_cong: "length (t_node t') = length (t_node t) \<Longrightarrow> hashkey t' = hashkey t"
  by (intro ext) (simp add: hashkey_def hashmask_def hmask_def)

lemma arr_index_cong: "asize t' = asize t \<Longrightarrow> arr_index t' = arr_index t"
  by (intro ext) (simp add: arr_index_def split: TValue.split option.split)

lemma arr_index_bound: "arr_index t k = Some i \<Longrightarrow> i < asize t"
  by (auto simp: arr_index_def split: TValue.splits option.splits if_splits)

lemma unat_int32:
  assumes "int32 i"
  shows "unat (word_of_int i :: 32 word) = nat (if 0 \<le> i then i else i + 2 ^ 32)"
proof -
  have "unat (word_of_int i :: 32 word) = nat (i mod 2 ^ 32)" by (simp add: unsigned_of_int take_bit_eq_mod)
  moreover have "i mod 2 ^ 32 = (if 0 \<le> i then i else i + 2 ^ 32)"
  proof (cases "0 \<le> i")
    case False
    have "i mod 2 ^ 32 = (i + 2 ^ 32) mod 2 ^ 32" by (simp only: mod_add_self2)
    also have "\<dots> = i + 2 ^ 32" using assms False by (intro mod_pos_pos_trivial) auto
    finally show ?thesis using False by simp
  qed (use assms in simp)
  ultimately show ?thesis by simp
qed

lemma inarray_int32:
  assumes "int32 i" "asize t \<le> LJ_MAX_ASIZE"
  shows "inarray t i \<longleftrightarrow> 0 \<le> i \<and> nat i < asize t"
  using assms unat_int32 [OF assms(1)] by (auto simp: inarray_def)

subsection \<open>Getters\<close>

lemma chain_find_table:
  assumes "tab_ok t" "good_key k" "\<And>k'. good_key k' \<Longrightarrow> p k' \<longleftrightarrow> k' = k" "\<not> p T_nil"
  shows "(\<exists>i < length (t_node t). n_key (t_node t ! i) = k \<and> chain_find (t_node t) p (hashkey t k) = Some (Some i)) \<or>
    (\<not> has_key (t_node t) k \<and> chain_find (t_node t) p (hashkey t k) = Some None)"
proof (rule chain_find_key [OF tab_okD(3) [OF assms(1)] hashkey_bound [OF assms(1)]])
  show "k \<noteq> T_nil" using assms(2) by (simp add: good_key_def)
  show "p (n_key (t_node t ! i)) \<longleftrightarrow> n_key (t_node t ! i) = k"
    if "i < length (t_node t)" "n_key (t_node t ! i) \<noteq> T_nil" for i
    using tab_okD(6) [OF assms(1) that] assms(3) by blast
qed (rule assms(4))

text \<open>The slot of a key: its place in the array, its node, or none.\<close>

lemma get_slot_cases:
  assumes "tab_ok t" "good_key k"
  obtains (array) i where "arr_index t k = Some i" "get_slot t k = Some (Some (Arr i))"
    | (hash) i where "arr_index t k = None" "i < length (t_node t)" "n_key (t_node t ! i) = k" "get_slot t k = Some (Some (Hsh i))"
    | (absent) "arr_index t k = None" "\<not> has_key (t_node t) k" "get_slot t k = Some None"
proof -
  have chain: "get_slot t k = map_option (map_option Hsh) (chain_find (t_node t) p (hashkey t k)) \<Longrightarrow>
      arr_index t k = None \<Longrightarrow> (\<And>k'. good_key k' \<Longrightarrow> p k' \<longleftrightarrow> k' = k) \<Longrightarrow> \<not> p T_nil \<Longrightarrow> thesis" for p
    using chain_find_table [OF assms, of p] hash absent by fastforce
  have gen: thesis if "get_slot t k = genlookup t k" "arr_index t k = None"
  proof (rule chain [of "\<lambda>k'. lj_obj_equal k' k"])
    show "get_slot t k = map_option (map_option Hsh) (chain_find (t_node t) (\<lambda>k'. lj_obj_equal k' k) (hashkey t k))"
      using that(1) by (simp add: genlookup_def)
    show "\<not> lj_obj_equal T_nil k" using assms(2) by (auto simp: lj_obj_equal_def good_key_def)
    show "lj_obj_equal k' k \<longleftrightarrow> k' = k" if "good_key k'" for k' using that assms(2) by (rule lj_obj_equal_good)
  qed (rule that(2))
  show thesis
  proof (cases k)
    case (T_str s)
    then show thesis
      by (intro chain [of "is_str s"]) (auto simp: get_slot_def lj_tab_getstr_def arr_index_def is_str_eq)
  next
    case (T_num w)
    show thesis
    proof (cases "num2int w")
      case None
      with T_num show thesis by (intro gen) (auto simp: get_slot_def arr_index_def)
    next
      case (Some i)
      have i: "int32 i" "w = num_of_int i" using num2int_Some [OF Some] good_num2int Some assms(2) T_num by blast+
      note arr = inarray_int32 [OF i(1) tab_okD(1) [OF assms(1)]]
      show thesis
      proof (cases "inarray t i")
        case True
        with T_num Some arr show thesis
          by (intro array [of "nat i"])
            (auto simp: get_slot_def lj_tab_getint_def arr_index_def unat_int32 [OF i(1)])
      next
        case False
        with T_num Some arr i assms(2) show thesis
          by (intro chain [of "is_num w"])
            (auto simp: get_slot_def lj_tab_getint_def lj_tab_getinth_def arr_index_def is_num_good Let_def)
      qed
    qed
  qed (use assms(2) gen in \<open>auto simp: get_slot_def arr_index_def good_key_def\<close>)
qed

lemma lj_tab_get_lookup:
  assumes "tab_ok t" "good_key k"
  shows "lj_tab_get t k = Some (lookup t k)"
  using assms
proof (cases rule: get_slot_cases)
  case (hash i)
  have "k \<noteq> T_nil" using assms(2) by (simp add: good_key_def)
  with val_of_node [OF tab_okD(5) [OF assms(1)] hash(2,3)] hash show ?thesis by (simp add: lj_tab_get_def lookup_def)
qed (simp_all add: lj_tab_get_def lookup_def val_of_none)

subsection \<open>Storing through a slot\<close>

definition slot_of :: "GCtab \<Rightarrow> TValue \<Rightarrow> slot \<Rightarrow> bool" where
  "slot_of t k sl \<longleftrightarrow> (case sl of
     Arr i \<Rightarrow> arr_index t k = Some i
   | Hsh i \<Rightarrow> arr_index t k = None \<and> i < length (t_node t) \<and> n_key (t_node t ! i) = k)"

lemma node_val_update:
  "n_key (ns[n := (ns ! n)\<lparr>n_val := v\<rparr>] ! i) = n_key (ns ! i)" "n_next (ns[n := (ns ! n)\<lparr>n_val := v\<rparr>] ! i) = n_next (ns ! i)"
  by (cases "n < length ns"; cases "i = n"; simp add: list_update_beyond)+

lemma linked_val_update: "linked (ns[n := (ns ! n)\<lparr>n_val := v\<rparr>]) = linked ns"
  by (intro ext) (simp add: linked_def node_val_update)

lemma nodes_ok_store:
  assumes "nodes_ok h ns" "n < length ns" "n_key (ns ! n) \<noteq> T_nil"
  shows "nodes_ok h (ns[n := (ns ! n)\<lparr>n_val := v\<rparr>])"
proof -
  have "empties_ok (ns[n := (ns ! n)\<lparr>n_val := v\<rparr>])"
    using assms by (auto simp: nodes_ok_def empties_ok_def nth_list_update)
  then show ?thesis
    using assms(1) unfolding nodes_ok_def ranked_def links_ok_def anchored_def one_pred_def keys_distinct_def
      linked_val_update node_val_update length_list_update by blast
qed

lemma hmask_pos:
  assumes "tab_ok t" "n < length (t_node t)" "n_key (t_node t ! n) \<noteq> T_nil"
  shows "hmask t \<noteq> 0"
proof
  assume "hmask t = 0"
  from tab_okD(2) [OF assms(1) this] assms(2,3) show False by (simp add: empty_node_def)
qed

lemma tab_okI:
  assumes "tab_ok t" "hmask t \<noteq> 0" "length (t_array t') = length (t_array t)" "length (t_node t') = length (t_node t)"
    "nodes_ok (hashkey t) (t_node t')" "free_ok (t_node t') (t_freetop t')"
    "\<And>i. i < length (t_node t) \<Longrightarrow> n_key (t_node t' ! i) \<noteq> T_nil \<Longrightarrow>
      good_key (n_key (t_node t' ! i)) \<and> arr_index t (n_key (t_node t' ! i)) = None"
  shows "tab_ok t'"
proof -
  have e: "asize t' = asize t" "hmask t' = hmask t" by (simp_all add: asize_def hmask_def assms(3,4))
  note e = e hashkey_cong [OF assms(4)] arr_index_cong [OF e(1)]
  have "\<forall>m \<in> set (t_node t'). n_key m = T_nil \<or> good_key (n_key m) \<and> arr_index t (n_key m) = None"
  proof
    fix m
    assume "m \<in> set (t_node t')"
    then obtain i where i: "m = t_node t' ! i" "i < length (t_node t)" by (metis in_set_conv_nth assms(4))
    show "n_key m = T_nil \<or> good_key (n_key m) \<and> arr_index t (n_key m) = None"
      using assms(7) [OF i(2)] unfolding i(1) by (cases "n_key (t_node t' ! i) = T_nil") simp_all
  qed
  with assms(2,5,6) tab_okD(1) [OF assms(1)] show ?thesis
    unfolding tab_ok_def e assms(4) using assms(1) by (simp add: tab_ok_def)
qed

lemma store_ok:
  assumes "tab_ok t" "good_key k" "slot_of t k sl"
  shows "tab_ok (store sl v t)" "\<And>k'. good_key k' \<Longrightarrow> lookup (store sl v t) k' = (if k' = k then v else lookup t k')"
proof -
  have "tab_ok (store sl v t) \<and> (\<forall>k'. good_key k' \<longrightarrow> lookup (store sl v t) k' = (if k' = k then v else lookup t k'))"
  proof (cases sl)
    case (Arr i)
    then have i: "arr_index t k = Some i" using assms(3) by (simp add: slot_of_def)
    let ?t = "t\<lparr>t_array := (t_array t)[i := v]\<rparr>"
    have as: "asize ?t = asize t" by (simp add: asize_def)
    have ai: "arr_index ?t = arr_index t" by (rule arr_index_cong [OF as])
    have hk: "hashkey ?t = hashkey t" by (rule hashkey_cong) simp
    have "tab_ok ?t" using assms(1) unfolding tab_ok_def ai hk as by (simp add: hmask_def)
    moreover have "lookup ?t k' = (if k' = k then v else lookup t k')" if "good_key k'" for k'
    proof (cases "arr_index t k' = Some i")
      case True
      have "k' = k"
        using True i that assms(2)
        by (auto simp: arr_index_def eq_nat_nat_iff split: TValue.splits option.splits if_splits dest!: good_num2int)
      with i show ?thesis using arr_index_bound [OF i] by (simp add: lookup_def ai asize_def)
    next
      case False
      then show ?thesis using i by (auto simp: lookup_def ai split: option.splits)
    qed
    ultimately show ?thesis using Arr by simp
  next
    case (Hsh n)
    then have n: "arr_index t k = None" "n < length (t_node t)" "n_key (t_node t ! n) = k" using assms(3) by (simp_all add: slot_of_def)
    have kn: "k \<noteq> T_nil" using assms(2) by (simp add: good_key_def)
    let ?ns = "(t_node t)[n := (t_node t ! n)\<lparr>n_val := v\<rparr>]"
    let ?t = "t\<lparr>t_node := ?ns\<rparr>"
    have ai: "arr_index ?t = arr_index t" by (rule arr_index_cong) (simp add: asize_def)
    have hk: "hashkey ?t = hashkey t" by (rule hashkey_cong) simp
    have ok: "nodes_ok (hashkey t) ?ns" using nodes_ok_store [OF tab_okD(3) [OF assms(1)] n(2)] n(3) kn by simp
    have "tab_ok ?t"
    proof (rule tab_okI [OF assms(1)])
      show hm: "hmask t \<noteq> 0" by (rule hmask_pos [OF assms(1) n(2)]) (simp add: n(3) kn)
      show "free_ok (t_node ?t) (t_freetop ?t)" using tab_okD(4) [OF assms(1) hm] by (simp add: free_ok_def node_val_update)
      show "good_key (n_key (t_node ?t ! i)) \<and> arr_index t (n_key (t_node ?t ! i)) = None"
        if "i < length (t_node t)" "n_key (t_node ?t ! i) \<noteq> T_nil" for i
        using tab_okD(6) [OF assms(1) that(1)] that(2) by (simp add: node_val_update)
    qed (use ok in simp_all)
    moreover have "lookup ?t k' = (if k' = k then v else lookup t k')" if g: "good_key k'" for k'
    proof -
      have d: "keys_distinct ?ns" "keys_distinct (t_node t)" using ok tab_okD(5) [OF assms(1)] by (auto simp: nodes_ok_def)
      have "val_of ?ns k = v" using val_of_node [OF d(1), of n k] n kn by simp
      moreover have "val_of ?ns k' = val_of (t_node t) k'" if "k' \<noteq> k"
      proof (cases "has_key (t_node t) k'")
        case True
        then obtain j where j: "j < length (t_node t)" "n_key (t_node t ! j) = k'" by (auto simp: has_key_def)
        with that n have "j \<noteq> n" by auto
        moreover have "k' \<noteq> T_nil" using g by (simp add: good_key_def)
        ultimately show ?thesis
          using val_of_node [OF d(1), of j k'] val_of_node [OF d(2), of j k'] j by (simp add: node_val_update)
      next
        case False
        then have "\<not> has_key ?ns k'" by (simp add: has_key_def node_val_update)
        with False show ?thesis by (simp add: val_of_none)
      qed
      ultimately show ?thesis using n(1) by (auto simp: lookup_def ai split: option.splits)
    qed
    ultimately show ?thesis using Hsh by simp
  qed
  then show "tab_ok (store sl v t)" "\<And>k'. good_key k' \<Longrightarrow> lookup (store sl v t) k' = (if k' = k then v else lookup t k')" by auto
qed
subsection \<open>Inserting a key when there is room\<close>

definition have_room :: "GCtab \<Rightarrow> bool" where
  "have_room t \<longleftrightarrow> hmask t \<noteq> 0 \<and> card (used (t_node t)) < length (t_node t)"

lemma no_free_node:
  assumes "free_ok ns ft" "find_free ns ft = None"
  shows "card (used ns) = length ns"
proof -
  have "i < length ns \<Longrightarrow> n_key (ns ! i) \<noteq> T_nil" for i
    using assms(1) find_free_None [OF assms(2), of i] by (cases "i < ft") (auto simp: free_ok_def)
  then have "used ns = {..<length ns}" by (auto simp: used_def)
  then show ?thesis by simp
qed

text \<open>
  A node whose key hangs off another anchor moves to the free node. The loop that follows finds no
  key that belongs to the chain of the main node.
\<close>

lemma move_node_moved:
  assumes ok: "nodes_ok h ns" and n: "n < length ns" "n_key (ns ! n) \<noteq> T_nil" "h (n_key (ns ! n)) \<noteq> n"
    and f: "f < length ns" "n_key (ns ! f) = T_nil"
  obtains p where "linked ns p n" "move_node h ns n f (h (n_key (ns ! n))) = Some (moved ns n f p (n_key (ns ! n)))"
proof -
  let ?c = "h (n_key (ns ! n))"
  have anc: "anchored h ns" and rk: "ranked ns" and lk: "links_ok ns" and op: "one_pred ns"
    using ok by (auto simp: nodes_ok_def)
  note free = free_unlinked [OF ok f]
  from find_pred_reach [OF anchoredD(4) [OF anc n(1,2)] n(3)]
  obtain p where p: "find_pred ns n ?c = Some p" "linked ns p n" by blast
  have irrefl: "\<not> linked ns i i" for i using rk by (auto simp: ranked_def)
  have ne: "p \<noteq> n" "p \<noteq> f" "n \<noteq> f" "p < length ns"
    using p(2) irrefl free(1) n(2) f(2) by (metis linked_def)+
  let ?ns = "moved ns n f p (n_key (ns ! n))"
  note N = moved_nth [OF ne n(1) f(1), of _ "n_key (ns ! n)"] and L = linked_moved [OF ne n(1) f(1), of "n_key (ns ! n)"]
  have other: "h (n_key (ns ! i)) \<noteq> n" if "i < length ns" "n_key (ns ! i) \<noteq> T_nil" for i
    using anchoredD(3) [OF anc that] n(3) by auto
  have "rechain h n ?ns f = Some ?ns"
  proof (rule rechain_nothing)
    show "ranked ?ns" by (rule ranked_moved [OF rk ne n(1) f(1) p(2) free(2) op])
    show "links_ok ?ns"
      using links_okD [OF lk] n f ne free by (auto simp: links_ok_def L N split: if_splits)
    show "h (n_key (?ns ! i)) \<noteq> n" if "i < length ?ns" "n_key (?ns ! i) \<noteq> T_nil" for i
      using that other n by (auto simp: N split: if_splits)
  qed (use f in simp)
  moreover have "?ns = ns[p := (ns ! p)\<lparr>n_next := Some f\<rparr>, f := ns ! n, n := (ns ! n)\<lparr>n_next := None, n_val := T_nil\<rparr>]"
    by (cases "ns ! n") (simp add: moved_def)
  ultimately have "move_node h ns n f ?c = Some ?ns"
    using p(1) ne by (simp add: move_node_def Let_def)
  with p(2) that show ?thesis by blast
qed

text \<open>What a table looks like after a key was added, and where its slot is.\<close>

definition key_added :: "GCtab \<Rightarrow> TValue \<Rightarrow> slot \<Rightarrow> GCtab \<Rightarrow> bool" where
  "key_added t k sl t' \<longleftrightarrow> tab_ok t' \<and> slot_of t' k sl \<and> (\<forall>k'. good_key k' \<longrightarrow> lookup t' k' = lookup t k') \<and>
     asize t' = asize t \<and> length (t_node t') = length (t_node t) \<and>
     card (used (t_node t')) \<le> card (used (t_node t)) + (if arr_index t k = None then 1 else 0)"

lemma inserted_key_added:
  assumes "tab_ok t" "good_key k" "arr_index t k = None" "hmask t \<noteq> 0" "inserted (hashkey t) (t_node t) k i ft ns'"
  shows "key_added t k (Hsh i) (t\<lparr>t_node := ns', t_freetop := ft\<rparr>)"
proof -
  let ?t = "t\<lparr>t_node := ns', t_freetop := ft\<rparr>"
  note ins = assms(5) [unfolded inserted_def]
  have ai: "arr_index ?t = arr_index t" by (rule arr_index_cong) (simp add: asize_def)
  have "tab_ok ?t"
  proof (rule tab_okI [OF assms(1,4)])
    show "good_key (n_key (t_node ?t ! j)) \<and> arr_index t (n_key (t_node ?t ! j)) = None"
      if j: "j < length (t_node t)" "n_key (t_node ?t ! j) \<noteq> T_nil" for j
    proof -
      from ins j have "n_key (ns' ! j) = k \<or> has_key (t_node t) (n_key (ns' ! j))" by simp
      then show ?thesis
      proof
        assume "has_key (t_node t) (n_key (ns' ! j))"
        then obtain m where m: "m < length (t_node t)" "n_key (t_node t ! m) = n_key (ns' ! j)" by (auto simp: has_key_def)
        with tab_okD(6) [OF assms(1) m(1)] j show ?thesis by simp
      qed (use assms in simp)
    qed
  qed (use ins in simp_all)
  moreover have "lookup ?t k' = lookup t k'" if "good_key k'" for k'
  proof -
    have "val_of ns' k' = val_of (t_node t) k'"
      using ins that by (intro content_val_of tab_okD(5) [OF assms(1)]) (auto simp: nodes_ok_def good_key_def)
    then show ?thesis by (simp add: lookup_def ai split: option.split)
  qed
  moreover have "slot_of ?t k (Hsh i)" using ins assms(3) by (simp add: slot_of_def ai)
  ultimately show ?thesis using ins assms(3) by (simp add: key_added_def asize_def)
qed

lemma newkey_step_cases:
  assumes "tab_ok t" "good_key k" "arr_index t k = None" "\<not> has_key (t_node t) k"
  obtains (direct) sl t' where "newkey_step retry t k = tret (sl, t')" "key_added t k sl t'"
    | (full) "newkey_step retry t k = retry t k" "\<not> have_room t"
proof (cases "hmask t = 0")
  case True
  with tab_okD(2) [OF assms(1)] show thesis by (intro full) (simp_all add: newkey_step_def have_room_def)
next
  case hm: False
  let ?n = "hashkey t k" and ?ns = "t_node t"
  have n: "?n < length ?ns" by (rule hashkey_bound [OF assms(1)])
  have k: "k \<noteq> T_nil" "norm_key k = k" using assms(2) by (auto simp: good_key_def norm_key_def)
  note ok = tab_okD(3) [OF assms(1)] and fr = tab_okD(4) [OF assms(1) hm]
  show thesis
  proof (cases "n_val (?ns ! ?n) = T_nil")
    case True
    note ins = inserted_main [OF ok n refl k(1) assms(4) True fr]
    from inserted_key_added [OF assms(1-3) hm ins] True hm k show thesis
      by (intro direct) (auto simp: newkey_step_def put_key_def Let_def)
  next
    case False
    have nk: "n_key (?ns ! ?n) \<noteq> T_nil" using False empties_okD [of ?ns ?n] ok n by (auto simp: nodes_ok_def)
    show thesis
    proof (cases "find_free ?ns (t_freetop t)")
      case None
      with False no_free_node [OF fr None] show thesis by (intro full) (simp_all add: newkey_step_def have_room_def)
    next
      case f: (Some f)
      have fl: "f < length ?ns" "n_key (?ns ! f) = T_nil" using find_free_Some [OF f] fr by (auto simp: free_ok_def)
      show thesis
      proof (cases "hashkey t (n_key (?ns ! ?n)) = ?n")
        case True
        note ins = inserted_free [OF ok n refl nk True k(1) assms(4) fr f]
        from inserted_key_added [OF assms(1-3) hm ins] True False f k show thesis
          by (intro direct) (auto simp: newkey_step_def put_key_def link_key_def Let_def)
      next
        case other: False
        obtain p where p: "linked ?ns p ?n"
          "move_node (hashkey t) ?ns ?n f (hashkey t (n_key (?ns ! ?n))) = Some (moved ?ns ?n f p (n_key (?ns ! ?n)))"
          by (rule move_node_moved [OF ok n nk other fl])
        note ins = inserted_moved [OF ok n refl nk other k(1) assms(4) fr f p(1)]
        have "(moved ?ns ?n f p (n_key (?ns ! ?n)))[?n := (moved ?ns ?n f p (n_key (?ns ! ?n)) ! ?n)\<lparr>n_key := k\<rparr>] = moved ?ns ?n f p k"
          using n by (simp add: moved_def)
        with inserted_key_added [OF assms(1-3) hm ins] other False f p k show thesis
          by (intro direct) (auto simp: newkey_step_def put_key_def Let_def)
      qed
    qed
  qed
qed

end
