(* ===== verification/Lj_Tab_Resize.thy ===== *)
theory Lj_Tab_Resize
  imports Lj_Tab_Map
begin

text \<open>
  Setters and resizing: storing a value through a setter updates the map of a table, and a resized
  table holds the entries it had.
\<close>

subsection \<open>Setters\<close>

lemma num2int_zeros: "num2int MZERO = Some 0" "num2int 0 = Some 0" "num_of_int 0 = 0"
  by (simp_all add: num2int_def num_of_int_def)

text \<open>Minus zero is set as zero.\<close>

lemma set_with_norm: "lj_tab_set_with nk t k = lj_tab_set_with nk t (norm_key k)"
  by (auto simp: norm_key_def lj_tab_set_with_def num2int_zeros Let_def)

lemma good_norm_key: "k \<noteq> T_nil \<Longrightarrow> (\<And>w. k = T_num w \<Longrightarrow> \<not> tvisnan w) \<Longrightarrow> good_key (norm_key k)"
  by (cases k) (auto simp: good_key_def norm_key_def tvisnan_def)

lemma set_with_good:
  assumes "good_key k"
  shows "lj_tab_set_with nk t k = found_or nk (t\<lparr>t_nomm := 0\<rparr>) k (get_slot (t\<lparr>t_nomm := 0\<rparr>) k)"
proof (cases k)
  case (T_num w)
  show ?thesis
  proof (cases "num2int w")
    case (Some i)
    have "w = num_of_int i" using good_num2int [of w i] assms T_num Some by simp
    with Some T_num show ?thesis
      by (simp add: lj_tab_set_with_def get_slot_def lj_tab_setint_def lj_tab_setinth_def lj_tab_getint_def found_or_def Let_def)
  next
    case None
    with T_num assms show ?thesis by (simp add: lj_tab_set_with_def get_slot_def good_key_def Let_def)
  qed
qed (use assms in \<open>simp_all add: lj_tab_set_with_def lj_tab_setstr_def get_slot_def good_key_def Let_def\<close>)

lemma setinth_good:
  assumes "int32 i" "\<not> inarray t i"
  shows "lj_tab_setinth nk t i = found_or nk t (T_num (num_of_int i)) (get_slot t (T_num (num_of_int i)))"
  using assms by (simp add: lj_tab_setinth_def get_slot_def num2int_num_of_int lj_tab_getint_def)

lemma nomm_irrelevant:
  "tab_ok (t\<lparr>t_nomm := x\<rparr>) = tab_ok t" "lookup (t\<lparr>t_nomm := x\<rparr>) = lookup t" "arr_index (t\<lparr>t_nomm := x\<rparr>) = arr_index t"
  "have_room (t\<lparr>t_nomm := x\<rparr>) = have_room t" "key_added (t\<lparr>t_nomm := x\<rparr>) = key_added t"
proof -
  have e: "arr_index (t\<lparr>t_nomm := x\<rparr>) = arr_index t" "hashkey (t\<lparr>t_nomm := x\<rparr>) = hashkey t"
    by (auto intro!: arr_index_cong hashkey_cong simp: asize_def)
  then show a: "arr_index (t\<lparr>t_nomm := x\<rparr>) = arr_index t" by simp
  show "tab_ok (t\<lparr>t_nomm := x\<rparr>) = tab_ok t" unfolding tab_ok_def e by (simp add: asize_def hmask_def)
  show l: "lookup (t\<lparr>t_nomm := x\<rparr>) = lookup t" by (intro ext) (simp add: lookup_def e cong: option.case_cong)
  show "have_room (t\<lparr>t_nomm := x\<rparr>) = have_room t" by (simp add: have_room_def hmask_def)
  show "key_added (t\<lparr>t_nomm := x\<rparr>) = key_added t"
    by (intro ext) (simp add: key_added_def l a asize_def)
qed

definition room_for :: "GCtab \<Rightarrow> TValue \<Rightarrow> bool" where
  "room_for t k \<longleftrightarrow> arr_index t k \<noteq> None \<or> has_key (t_node t) k \<or> have_room t"

lemma found_or_cases:
  assumes "tab_ok t" "good_key k"
  obtains (found) sl where "found_or nk t k (get_slot t k) = tret (sl, t)" "key_added t k sl t"
    | (new) "arr_index t k = None" "\<not> has_key (t_node t) k" "found_or nk t k (get_slot t k) = nk t k"
  using assms
proof (cases rule: get_slot_cases)
  case (array i)
  with assms(1) show ?thesis by (intro found [of "Arr i"]) (simp_all add: found_or_def key_added_def slot_of_def)
next
  case (hash i)
  with assms(1) show ?thesis by (intro found [of "Hsh i"]) (simp_all add: found_or_def key_added_def slot_of_def)
next
  case absent
  then show ?thesis by (intro new) (simp_all add: found_or_def)
qed

lemma found_or_room:
  assumes "tab_ok t" "good_key k" "room_for t k"
  obtains sl t' where "found_or (lj_tab_newkey (Suc d)) t k (get_slot t k) = tret (sl, t')" "key_added t k sl t'"
  using assms(1,2)
proof (cases rule: found_or_cases [where nk = "lj_tab_newkey (Suc d)"])
  case new
  with assms(3) have room: "have_room t" by (simp add: room_for_def)
  let ?retry = "\<lambda>t key. tbind (rehashtab (lj_tab_newkey d) t key) (\<lambda>t'. lj_tab_set_with (lj_tab_newkey d) t' key)"
  from assms(1,2) new(1,2) show ?thesis
  proof (cases rule: newkey_step_cases [where retry = ?retry])
    case (direct sl t')
    with new(3) that show ?thesis by simp
  qed (use room in simp)
qed (rule that)

lemma set_with_room:
  assumes "tab_ok t" "good_key k" "room_for t k"
  obtains sl t' where "lj_tab_set_with (lj_tab_newkey (Suc d)) t k = tret (sl, t')" "key_added t k sl t'"
proof -
  have "room_for (t\<lparr>t_nomm := 0\<rparr>) k" using assms(3) by (simp add: room_for_def nomm_irrelevant)
  with assms(1,2) obtain sl t' where
    "found_or (lj_tab_newkey (Suc d)) (t\<lparr>t_nomm := 0\<rparr>) k (get_slot (t\<lparr>t_nomm := 0\<rparr>) k) = tret (sl, t')"
    "key_added (t\<lparr>t_nomm := 0\<rparr>) k sl t'" using found_or_room nomm_irrelevant(1) by metis
  with that show thesis by (simp add: set_with_good [OF assms(2)] nomm_irrelevant)
qed
subsection \<open>Storing entries\<close>

text \<open>The table \<open>t'\<close> is \<open>t\<close> with the entries \<open>kvs\<close> stored; a new node at most for each key outside the array.\<close>

abbreviation outside :: "GCtab \<Rightarrow> (TValue \<times> TValue) list \<Rightarrow> nat" where
  "outside t kvs \<equiv> length (filter (\<lambda>(k, v). arr_index t k = None) kvs)"

definition stored :: "GCtab \<Rightarrow> (TValue \<times> TValue) list \<Rightarrow> GCtab \<Rightarrow> bool" where
  "stored t kvs t' \<longleftrightarrow> tab_ok t' \<and>
     (\<forall>k. good_key k \<longrightarrow> lookup t' k = (case map_of kvs k of Some v \<Rightarrow> v | None \<Rightarrow> lookup t k)) \<and>
     asize t' = asize t \<and> length (t_node t') = length (t_node t) \<and>
     card (used (t_node t')) \<le> card (used (t_node t)) + outside t kvs"

lemma store_sizes [simp]:
  "asize (store sl v t) = asize t" "length (t_node (store sl v t)) = length (t_node t)" "used (t_node (store sl v t)) = used (t_node t)"
  by (cases sl; simp add: asize_def used_def node_val_update)+

lemma stored_one:
  assumes "good_key k" "r = tret (sl, t1)" "key_added t k sl t1"
  shows "set_and_store r v = tret (store sl v t1)" "stored t [(k, v)] (store sl v t1)"
proof -
  note a = assms(3) [unfolded key_added_def]
  show "set_and_store r v = tret (store sl v t1)" using assms(2) by (simp add: set_and_store_def)
  show "stored t [(k, v)] (store sl v t1)"
    using store_ok(1) [OF _ assms(1), of t1 sl v] store_ok(2) [OF _ assms(1), of t1 sl _ v] a
    by (auto simp: stored_def split: if_splits)
qed

lemma stored_refl: "tab_ok t \<Longrightarrow> stored t [] t"
  by (simp add: stored_def)

lemma stored_append:
  assumes "stored t kvs t1" "stored t1 kvs' t2" "fst ` set kvs \<inter> fst ` set kvs' = {}"
  shows "stored t (kvs @ kvs') t2"
proof -
  have ai: "arr_index t1 = arr_index t" using assms(1) by (intro arr_index_cong) (simp add: stored_def)
  have "lookup t2 k = (case map_of (kvs @ kvs') k of Some v \<Rightarrow> v | None \<Rightarrow> lookup t k)" if k: "good_key k" for k
  proof (cases "map_of kvs' k")
    case None
    then show ?thesis using assms(1,2) k by (cases "map_of kvs k") (simp_all add: stored_def map_add_def)
  next
    case (Some v)
    then have "k \<notin> fst ` set kvs" using assms(3) map_of_SomeD [OF Some] by force
    then have "map_of kvs k = None" by (simp add: map_of_eq_None_iff)
    then show ?thesis using assms(2) k Some by (simp add: stored_def map_add_def)
  qed
  then show ?thesis using assms(1,2) unfolding stored_def ai by simp
qed

lemma stored_Cons:
  "stored t [(k, v)] t1 \<Longrightarrow> stored t1 kvs t2 \<Longrightarrow> k \<notin> fst ` set kvs \<Longrightarrow> stored t ((k, v) # kvs) t2"
  using stored_append [of t "[(k, v)]" t1 kvs t2] by simp

text \<open>Room for a number of new nodes.\<close>

definition fits :: "GCtab \<Rightarrow> nat \<Rightarrow> bool" where
  "fits t m \<longleftrightarrow> m = 0 \<or> hmask t \<noteq> 0 \<and> card (used (t_node t)) + m \<le> length (t_node t)"

lemma fits_room:
  assumes "fits t (outside t ((k, v) # kvs))"
  shows "room_for t k" "stored t [(k, v)] t1 \<Longrightarrow> fits t1 (outside t1 kvs)"
proof -
  show "room_for t k" using assms by (auto simp: fits_def room_for_def have_room_def)
  assume s: "stored t [(k, v)] t1"
  have "arr_index t1 = arr_index t" using s by (intro arr_index_cong) (simp add: stored_def)
  then show "fits t1 (outside t1 kvs)"
    using assms s by (auto simp: fits_def stored_def hmask_def split: if_splits)
qed

lemma reinsert_nodes_stored:
  assumes "tab_ok t" "fits t (outside t kvs)" "distinct (map fst kvs)" "\<forall>k \<in> fst ` set kvs. good_key k"
    and "kvs = map (\<lambda>n. (n_key n, n_val n)) (filter (\<lambda>n. n_val n \<noteq> T_nil) ns)"
  shows "\<exists>t'. reinsert_nodes (lj_tab_newkey (Suc d)) ns t = tret t' \<and> stored t kvs t'"
  using assms
proof (induction ns arbitrary: t kvs)
  case (Cons n ns)
  show ?case
  proof (cases "n_val n = T_nil")
    case True
    with Cons.IH [OF Cons.prems(1-4)] Cons.prems(5) show ?thesis by simp
  next
    case False
    let ?kvs = "map (\<lambda>n. (n_key n, n_val n)) (filter (\<lambda>n. n_val n \<noteq> T_nil) ns)"
    have kvs: "kvs = (n_key n, n_val n) # ?kvs" using Cons.prems(5) False by simp
    note fit = fits_room [OF Cons.prems(2) [unfolded kvs]]
    have good: "good_key (n_key n)" using Cons.prems(4) kvs by simp
    obtain sl t1 where s: "lj_tab_set_with (lj_tab_newkey (Suc d)) t (n_key n) = tret (sl, t1)" "key_added t (n_key n) sl t1"
      by (rule set_with_room [OF Cons.prems(1) good fit(1)])
    note one = stored_one [OF good s]
    have "tab_ok (store sl (n_val n) t1)" using one(2) by (simp add: stored_def)
    from Cons.IH [OF this fit(2) [OF one(2)] _ _ refl] Cons.prems(3,4) obtain t2 where
      t2: "reinsert_nodes (lj_tab_newkey (Suc d)) ns (store sl (n_val n) t1) = tret t2" "stored (store sl (n_val n) t1) ?kvs t2"
      unfolding kvs by auto
    have "stored t kvs t2"
      using stored_Cons [OF one(2) t2(2)] Cons.prems(3) unfolding kvs by (simp only: list.map distinct.simps fst_conv set_map simp_thms)
    with one(1) t2(1) False show ?thesis by simp
  qed
qed (simp add: stored_refl)

text \<open>The entries of an array that starts at an index.\<close>

definition arr_entries :: "nat \<Rightarrow> TValue list \<Rightarrow> (TValue \<times> TValue) list" where
  "arr_entries i vs = map (\<lambda>j. (T_num (num_of_int (int (i + j))), vs ! j)) (filter (\<lambda>j. vs ! j \<noteq> T_nil) [0..<length vs])"

lemma arr_entries_Cons: "arr_entries i (v # vs) = (if v = T_nil then [] else [(T_num (num_of_int (int i)), v)]) @ arr_entries (Suc i) vs"
  by (simp add: arr_entries_def upt_conv_Cons map_Suc_upt [symmetric] filter_map o_def algebra_simps del: upt_Suc)

lemma reinsert_array_stored:
  assumes "tab_ok t" "fits t (outside t kvs)" "distinct (map fst kvs)" "kvs = arr_entries i vs"
    "asize t \<le> i" "i + length vs \<le> LJ_MAX_ASIZE"
  shows "\<exists>t'. reinsert_array (lj_tab_newkey (Suc d)) i vs t = tret t' \<and> stored t kvs t'"
  using assms
proof (induction vs arbitrary: i t kvs)
  case (Cons v vs)
  show ?case
  proof (cases "v = T_nil")
    case True
    with Cons.IH [OF Cons.prems(1-3), of "Suc i"] Cons.prems(4-6) show ?thesis by (simp add: arr_entries_Cons)
  next
    case False
    let ?k = "T_num (num_of_int (int i))"
    have kvs: "kvs = (?k, v) # arr_entries (Suc i) vs" using Cons.prems(4) False by (simp add: arr_entries_Cons)
    note fit = fits_room [OF Cons.prems(2) [unfolded kvs]]
    have i32: "int32 (int i)" using Cons.prems(6) by simp
    note good = num_of_int_good [OF i32]
    have na: "\<not> inarray t (int i)" using inarray_int32 [OF i32 tab_okD(1) [OF Cons.prems(1)]] Cons.prems(5) by simp
    obtain sl t1 where s: "found_or (lj_tab_newkey (Suc d)) t ?k (get_slot t ?k) = tret (sl, t1)" "key_added t ?k sl t1"
      by (rule found_or_room [OF Cons.prems(1) good fit(1)])
    note s = s(1) [folded setinth_good [OF i32 na]] s(2)
    note one = stored_one [OF good s]
    have t1: "tab_ok (store sl v t1)" "asize (store sl v t1) = asize t" using one(2) by (simp_all add: stored_def)
    have "\<exists>t'. reinsert_array (lj_tab_newkey (Suc d)) (Suc i) vs (store sl v t1) = tret t' \<and> stored (store sl v t1) (arr_entries (Suc i) vs) t'"
      using Cons.IH [OF t1(1) fit(2) [OF one(2)] _ refl] Cons.prems(3,5,6) t1(2) unfolding kvs by simp
    then obtain t2 where t2: "reinsert_array (lj_tab_newkey (Suc d)) (Suc i) vs (store sl v t1) = tret t2"
      "stored (store sl v t1) (arr_entries (Suc i) vs) t2" by blast
    have "stored t kvs t2"
      using stored_Cons [OF one(2) t2(2)] Cons.prems(3) unfolding kvs by (simp only: list.map distinct.simps fst_conv set_map simp_thms)
    with one(1) t2(1) False show ?thesis by simp
  qed
qed (simp add: stored_refl arr_entries_def)
subsection \<open>The entries of a table\<close>

definition node_entries :: "node list \<Rightarrow> (TValue \<times> TValue) list" where
  "node_entries ns = map (\<lambda>n. (n_key n, n_val n)) (filter (\<lambda>n. n_val n \<noteq> T_nil) ns)"

definition entries :: "GCtab \<Rightarrow> (TValue \<times> TValue) list" where
  "entries t = arr_entries 0 (t_array t) @ node_entries (t_node t)"

lemma mem_arr_entries:
  "(k, v) \<in> set (arr_entries i vs) \<longleftrightarrow> v \<noteq> T_nil \<and> (\<exists>j < length vs. k = T_num (num_of_int (int (i + j))) \<and> v = vs ! j)"
  by (auto simp: arr_entries_def)

lemma arr_entries_append: "arr_entries i (xs @ ys) = arr_entries i xs @ arr_entries (i + length xs) ys"
  by (induction xs arbitrary: i) (simp_all add: arr_entries_Cons, simp add: arr_entries_def)

lemma arr_entries_nils [simp]: "arr_entries i (replicate n T_nil) = []"
  by (induction n arbitrary: i) (simp_all add: arr_entries_Cons, simp add: arr_entries_def)

lemma arr_index_num: "int32 (int j) \<Longrightarrow> arr_index t (T_num (num_of_int (int j))) = (if j < asize t then Some j else None)"
  using num2int_num_of_int [of "int j"] by (simp add: arr_index_def)

lemma arr_index_Some_key: "good_key k \<Longrightarrow> arr_index t k = Some i \<Longrightarrow> k = T_num (num_of_int (int i))"
  by (auto simp: arr_index_def split: TValue.splits option.splits if_splits dest!: good_num2int)

lemma arr_entries_index:
  assumes "tab_ok t" "(k, v) \<in> set (arr_entries 0 (t_array t))"
  shows "\<exists>i. arr_index t k = Some i \<and> v = t_array t ! i \<and> good_key k \<and> v \<noteq> T_nil"
proof -
  from assms(2) obtain j where j: "j < asize t" "k = T_num (num_of_int (int j))" "v = t_array t ! j" "v \<noteq> T_nil"
    by (auto simp: mem_arr_entries asize_def)
  have "int32 (int j)" using j(1) tab_okD(1) [OF assms(1)] by simp
  with j arr_index_num num_of_int_good show ?thesis by simp
qed

lemma set_node_entries:
  assumes "empties_ok ns"
  shows "set (node_entries ns) = content ns"
proof -
  have "n_val (ns ! i) \<noteq> T_nil \<Longrightarrow> i < length ns \<Longrightarrow> n_key (ns ! i) \<noteq> T_nil" for i
    using empties_okD [OF assms, of i] by auto
  then show ?thesis
    by (auto simp: node_entries_def content_def in_set_conv_nth image_iff)
qed

lemma node_entries_key:
  assumes "tab_ok t" "(k, v) \<in> set (node_entries (t_node t))"
  shows "good_key k" "arr_index t k = None" "v \<noteq> T_nil" "(k, v) \<in> content (t_node t)"
proof -
  have "empties_ok (t_node t)" using tab_okD(3) [OF assms(1)] by (simp add: nodes_ok_def)
  with assms(2) show c: "(k, v) \<in> content (t_node t)" by (simp add: set_node_entries)
  then obtain i where "i < length (t_node t)" "n_key (t_node t ! i) \<noteq> T_nil" "k = n_key (t_node t ! i)" "v \<noteq> T_nil"
    by (auto simp: content_def)
  with tab_okD(6) [OF assms(1)] show "good_key k" "arr_index t k = None" "v \<noteq> T_nil" by simp_all
qed

lemma entries_lookup:
  assumes "tab_ok t" "good_key k" "v \<noteq> T_nil"
  shows "(k, v) \<in> set (entries t) \<longleftrightarrow> lookup t k = v"
proof (cases "arr_index t k")
  case None
  have "(k, v) \<notin> set (arr_entries 0 (t_array t))" using arr_entries_index [OF assms(1)] None by force
  moreover have "empties_ok (t_node t)" using tab_okD(3) [OF assms(1)] by (simp add: nodes_ok_def)
  moreover have "k \<noteq> T_nil" using assms(2) by (simp add: good_key_def)
  ultimately show ?thesis
    using val_of_content [OF tab_okD(5) [OF assms(1)] _ assms(3), of k] None
    by (auto simp: entries_def lookup_def set_node_entries)
next
  case (Some i)
  have "(k, v) \<notin> set (node_entries (t_node t))" using node_entries_key(2) [OF assms(1)] Some by force
  moreover have "(k, v) \<in> set (arr_entries 0 (t_array t)) \<longleftrightarrow> v = t_array t ! i"
    using arr_entries_index [OF assms(1), of k v] Some arr_index_Some_key [OF assms(2) Some] arr_index_bound [OF Some] assms(3)
    by (auto simp: mem_arr_entries asize_def)
  ultimately show ?thesis using Some by (auto simp: entries_def lookup_def)
qed

lemma filter_by_index: "filter P xs = map ((!) xs) (filter (\<lambda>i. P (xs ! i)) [0..<length xs])"
  by (subst (1) map_nth [symmetric]) (simp only: filter_map o_def)

lemma distinct_node_entries:
  assumes "tab_ok t"
  shows "distinct (map fst (node_entries (t_node t)))"
proof -
  let ?live = "filter (\<lambda>i. n_val (t_node t ! i) \<noteq> T_nil) [0..<length (t_node t)]"
  have e: "empties_ok (t_node t)" using tab_okD(3) [OF assms] by (simp add: nodes_ok_def)
  have "inj_on (\<lambda>i. n_key (t_node t ! i)) (set ?live)"
  proof (rule inj_onI)
    fix i j
    assume i: "i \<in> set ?live" "j \<in> set ?live" "n_key (t_node t ! i) = n_key (t_node t ! j)"
    then have "n_key (t_node t ! i) \<noteq> T_nil" using empties_okD [OF e, of i] by auto
    with i tab_okD(5) [OF assms] show "i = j" by (simp add: keys_distinct_def)
  qed
  moreover have "map fst (node_entries (t_node t)) = map (\<lambda>i. n_key (t_node t ! i)) ?live"
    by (simp add: node_entries_def filter_by_index [of _ "t_node t"])
  ultimately show ?thesis by (simp add: distinct_map)
qed

lemma distinct_arr_entries:
  assumes "i + length vs \<le> LJ_MAX_ASIZE"
  shows "distinct (map fst (arr_entries i vs))"
proof -
  let ?live = "filter (\<lambda>j. vs ! j \<noteq> T_nil) [0..<length vs]"
  have "inj_on (\<lambda>j. T_num (num_of_int (int (i + j)))) {..<length vs}"
  proof (rule inj_onI)
    fix x y
    assume "x \<in> {..<length vs}" "y \<in> {..<length vs}" and eq: "T_num (num_of_int (int (i + x))) = T_num (num_of_int (int (i + y)))"
    with assms have "int32 (int (i + x))" "int32 (int (i + y))" by auto
    with eq num2int_num_of_int show "x = y" by (metis TValue.inject(5) nat_int option.inject add_left_cancel)
  qed
  moreover have "map fst (arr_entries i vs) = map (\<lambda>j. T_num (num_of_int (int (i + j)))) ?live"
    by (simp add: arr_entries_def)
  ultimately show ?thesis by (auto simp: distinct_map elim!: inj_on_subset)
qed
lemma lookup_stored:
  assumes "tab_ok t" "tab_ok t2" "stored t2 kvs t4" "set (entries t2) \<union> set kvs = set (entries t)"
    "\<And>k v. (k, v) \<in> set kvs \<Longrightarrow> v \<noteq> T_nil" "good_key k"
  shows "lookup t4 k = lookup t k"
proof (cases "map_of kvs k")
  case (Some v)
  have "(k, v) \<in> set kvs" using map_of_SomeD [OF Some] .
  with assms(4,5) entries_lookup [OF assms(1,6), of v] have "lookup t k = v" by blast
  with assms(3,6) Some show ?thesis by (simp add: stored_def)
next
  case None
  then have "(k, v) \<notin> set kvs" for v by (force simp: map_of_eq_None_iff)
  with assms(4) have "(k, v) \<in> set (entries t2) \<longleftrightarrow> (k, v) \<in> set (entries t)" for v by blast
  with entries_lookup [OF assms(1,6)] entries_lookup [OF assms(2,6)] have "lookup t2 k = lookup t k" by metis
  with assms(3,6) None show ?thesis by (simp add: stored_def)
qed

subsection \<open>Resizing\<close>

text \<open>A table with an empty hash part.\<close>

definition fresh :: "GCtab \<Rightarrow> nat \<Rightarrow> GCtab" where
  "fresh t hbits = t\<lparr>t_node := replicate (2 ^ hbits) empty_node, t_freetop := (if hbits = 0 then 0 else 2 ^ hbits)\<rparr>"

lemma newhpart_fresh: "newhpart t hbits = (if hbits \<le> LJ_MAX_HBITS then tret (fresh t hbits) else terr ERR_TABOV)"
  by (auto simp: newhpart_def fresh_def)

lemma fresh_simps [simp]:
  "asize (fresh t b) = asize t" "t_array (fresh t b) = t_array t" "length (t_node (fresh t b)) = 2 ^ b"
  "used (t_node (fresh t b)) = {}" "hmask (fresh t b) \<noteq> 0 \<longleftrightarrow> b \<noteq> 0" "node_entries (t_node (fresh t b)) = []"
  "(fresh t b)\<lparr>t_array := a\<rparr> = fresh (t\<lparr>t_array := a\<rparr>) b"
proof -
  have "(1 :: nat) < 2 ^ b" if "b \<noteq> 0" using that one_less_power [of "2 :: nat" b] by simp
  then have "(1 :: nat) < 2 ^ b \<longleftrightarrow> b \<noteq> 0" by (cases "b = 0") auto
  then have "(2 :: nat) ^ b - 1 \<noteq> 0 \<longleftrightarrow> b \<noteq> 0" by linarith
  then show "hmask (fresh t b) \<noteq> 0 \<longleftrightarrow> b \<noteq> 0" by (simp add: hmask_def fresh_def)
qed (auto simp: fresh_def asize_def used_def empty_node_def node_entries_def)

lemma fresh_ok:
  assumes "asize t \<le> LJ_MAX_ASIZE" "b \<le> LJ_MAX_HBITS"
  shows "tab_ok (fresh t b)"
proof -
  have "t_node (fresh t b) = [empty_node] \<and> t_freetop (fresh t b) = 0" if "hmask (fresh t b) = 0"
  proof -
    have "b = 0" using that fresh_simps(5) by blast
    then show ?thesis by (simp add: fresh_def)
  qed
  moreover have "hmask (fresh t b) \<noteq> 0 \<Longrightarrow> free_ok (t_node (fresh t b)) (t_freetop (fresh t b))"
    unfolding fresh_simps(5) by (simp add: fresh_def free_ok_def)
  moreover have "nodes_ok (hashkey (fresh t b)) (t_node (fresh t b))" using empty_nodes_ok by (simp add: fresh_def)
  moreover have "\<forall>n \<in> set (t_node (fresh t b)). n_key n = T_nil" by (simp add: fresh_def empty_node_def)
  ultimately show ?thesis
    using assms unfolding tab_ok_def fresh_simps(1,3) by blast
qed

text \<open>The number of entries outside an array of a given size.\<close>

definition spill :: "GCtab \<Rightarrow> nat \<Rightarrow> nat" where
  "spill t as = outside (t\<lparr>t_array := replicate as T_nil\<rparr>) (entries t)"

lemma outside_cong: "asize t' = asize t \<Longrightarrow> outside t' kvs = outside t kvs"
  using arr_index_cong [of t' t] by simp

lemma fits_stored: "fits t (outside t (kvs @ kvs')) \<Longrightarrow> stored t kvs t' \<Longrightarrow> fits t' (outside t' kvs')"
  using outside_cong [of t' t kvs'] by (auto simp: fits_def stored_def hmask_def)

lemma fits_append: "fits t (outside t (kvs @ kvs')) \<Longrightarrow> fits t (outside t kvs)"
  by (auto simp: fits_def)
text \<open>The new table before the old entries are put back, and the entries of the array that no longer fit.\<close>

definition resized :: "GCtab \<Rightarrow> nat \<Rightarrow> nat \<Rightarrow> GCtab" where
  "resized t as hbits = fresh (t\<lparr>t_array := take as (t_array t) @ replicate (as - asize t) T_nil\<rparr>) hbits"

lemma arr_entries_take_drop: "arr_entries 0 vs = arr_entries 0 (take n vs) @ arr_entries n (drop n vs)"
proof (cases "n \<le> length vs")
  case True
  have "arr_entries 0 vs = arr_entries 0 (take n vs @ drop n vs)" by simp
  also have "\<dots> = arr_entries 0 (take n vs) @ arr_entries n (drop n vs)"
    using True by (simp only: arr_entries_append) (simp add: min_def)
  finally show ?thesis .
qed (simp add: arr_entries_def)

lemma entries_resized:
  "entries t = arr_entries 0 (t_array (resized t as hbits)) @ arr_entries as (drop as (t_array t)) @ node_entries (t_node t)"
  by (simp add: entries_def resized_def arr_entries_append) (rule arr_entries_take_drop)

lemma resized_size: "asize (resized t as hbits) = as"
  by (simp add: resized_def asize_def)

lemma resizetab_run:
  assumes "tab_ok t" "as \<le> LJ_MAX_ASIZE" "hbits \<le> LJ_MAX_HBITS"
    and "reinsert_array nk as (drop as (t_array t)) (resized t as hbits) = tret t3"
    and "reinsert_nodes nk (t_node t) t3 = tret t4"
  shows "resizetab nk t as hbits = tret t4"
proof -
  have "(if hmask t > 0 then reinsert_nodes nk (t_node t) t3 else tret t3) = tret t4"
  proof (cases "hmask t > 0")
    case False
    then have "t_node t = [empty_node]" using tab_okD(2) [OF assms(1)] by simp
    with assms(5) False show ?thesis by (simp add: empty_node_def)
  qed (use assms(5) in simp)
  then show ?thesis
    using assms(2-4) by (auto simp: resizetab_def newhpart_fresh resized_def asize_def Let_def)
qed

lemma entry_keys_good:
  assumes "tab_ok t" "(k, v) \<in> set (entries t)"
  shows "good_key k" "v \<noteq> T_nil"
  using assms arr_entries_index [OF assms(1), of k v] node_entries_key(1,3) [OF assms(1), of k v]
  by (auto simp: entries_def)

lemma resizetab_ok:
  assumes "tab_ok t" "as \<le> LJ_MAX_ASIZE" "hbits \<le> LJ_MAX_HBITS" "spill t as \<le> (if hbits = 0 then 0 else 2 ^ hbits)"
  obtains t' where "resizetab (lj_tab_newkey (Suc d)) t as hbits = tret t'" "tab_ok t'"
    "\<And>k. good_key k \<Longrightarrow> lookup t' k = lookup t k" "asize t' = as" "length (t_node t') = 2 ^ hbits"
    "card (used (t_node t')) \<le> spill t as"
proof -
  let ?t2 = "resized t as hbits" and ?E = "arr_entries as (drop as (t_array t))" and ?N = "node_entries (t_node t)"
  note split = entries_resized [of t as hbits]
  have ok2: "tab_ok ?t2" unfolding resized_def by (rule fresh_ok) (use assms in \<open>simp_all add: asize_def\<close>)
  have out: "outside ?t2 kvs = outside (t\<lparr>t_array := replicate as T_nil\<rparr>) kvs" for kvs
    by (rule outside_cong) (simp add: asize_def resized_def)
  have sp: "outside ?t2 (?E @ ?N) \<le> spill t as" unfolding spill_def out split by simp
  have fit: "fits ?t2 (outside ?t2 (?E @ ?N))"
    using sp assms(4) unfolding fits_def resized_def fresh_simps by (auto split: if_splits)
  have disj: "fst ` set ?E \<inter> fst ` set ?N = {}"
  proof -
    have False if "(k, v) \<in> set ?E" "(k, w) \<in> set ?N" for k v w
    proof -
      have "(k, v) \<in> set (arr_entries 0 (t_array t))"
        using that(1) by (subst arr_entries_take_drop [of _ as]) simp
      with arr_entries_index [OF assms(1)] node_entries_key(2) [OF assms(1) that(2)] show False by force
    qed
    then show ?thesis by force
  qed
  have len: "as + length (drop as (t_array t)) \<le> LJ_MAX_ASIZE" using assms(2) tab_okD(1) [OF assms(1)] by (auto simp: asize_def)
  have "\<exists>t'. reinsert_array (lj_tab_newkey (Suc d)) as (drop as (t_array t)) ?t2 = tret t' \<and> stored ?t2 ?E t'"
    using ok2 fits_append [OF fit] distinct_arr_entries [OF len] refl
    by (rule reinsert_array_stored) (use len in \<open>simp_all add: resized_size\<close>)
  then obtain t3 where t3: "reinsert_array (lj_tab_newkey (Suc d)) as (drop as (t_array t)) ?t2 = tret t3" "stored ?t2 ?E t3" by blast
  have "\<exists>t'. reinsert_nodes (lj_tab_newkey (Suc d)) (t_node t) t3 = tret t' \<and> stored t3 ?N t'"
  proof (rule reinsert_nodes_stored)
    show "tab_ok t3" using t3(2) by (simp add: stored_def)
    show "fits t3 (outside t3 ?N)" by (rule fits_stored [OF fit t3(2)])
    show "\<forall>k \<in> fst ` set ?N. good_key k" using node_entries_key(1) [OF assms(1)] by auto
  qed (use distinct_node_entries [OF assms(1)] in \<open>simp_all add: node_entries_def\<close>)
  then obtain t4 where t4: "reinsert_nodes (lj_tab_newkey (Suc d)) (t_node t) t3 = tret t4" "stored t3 ?N t4" by blast
  note st = stored_append [OF t3(2) t4(2) disj]
  have e2: "entries ?t2 = arr_entries 0 (t_array ?t2)" unfolding entries_def by (simp add: resized_def)
  have "lookup t4 k = lookup t k" if "good_key k" for k
  proof (rule lookup_stored [OF assms(1) ok2 st _ _ that])
    show "set (entries ?t2) \<union> set (?E @ ?N) = set (entries t)" unfolding split e2 by simp
    show "v \<noteq> T_nil" if "(k, v) \<in> set (?E @ ?N)" for k v
      using entry_keys_good(2) [OF assms(1)] that unfolding split by auto
  qed
  moreover have "tab_ok t4" "asize t4 = as" "length (t_node t4) = 2 ^ hbits" "card (used (t_node t4)) \<le> spill t as"
    using st sp unfolding stored_def by (simp_all add: resized_size) (simp_all add: resized_def)
  ultimately show thesis using resizetab_run [OF assms(1-3) t3(1) t4(1)] that by blast
qed

end
