(* ===== verification/Lj_Tab_Rehash.thy ===== *)
theory Lj_Tab_Rehash
  imports Lj_Tab_Resize "HOL-Library.Multiset"
begin

text \<open>
  Rehashing: what the counting passes count, that the sizes chosen leave room for every entry and the
  new key, and so that setting a key is a map update on every table.
\<close>

subsection \<open>Bins\<close>

text \<open>The index of a key that may go to an array, as the counting passes see it.\<close>

definition int_idx :: "TValue \<Rightarrow> nat option" where
  "int_idx k =
     (case k of
        T_num w \<Rightarrow> (case num2int w of
            Some i \<Rightarrow> if unat (word_of_int i :: 32 word) < LJ_MAX_ASIZE then Some (unat (word_of_int i :: 32 word)) else None
          | None \<Rightarrow> None)
      | _ \<Rightarrow> None)"

definition idxs :: "TValue list \<Rightarrow> nat list" where
  "idxs ks = List.map_filter int_idx ks"

text \<open>The bins hold the numbers of indices, bin by bin.\<close>

definition counts :: "nat list \<Rightarrow> nat list \<Rightarrow> bool" where
  "counts bins ks \<longleftrightarrow> length bins = LJ_MAX_ABITS \<and> (\<forall>k \<in> set ks. k < LJ_MAX_ASIZE) \<and>
     (\<forall>b < LJ_MAX_ABITS. bins ! b = length (filter (\<lambda>k. bin_of k = b) ks))"

lemma idxs_simps [simp]:
  "idxs [] = []" "idxs (k # ks) = (case int_idx k of Some i \<Rightarrow> i # idxs ks | None \<Rightarrow> idxs ks)" "idxs (ks @ ks') = idxs ks @ idxs ks'"
  by (simp_all add: idxs_def map_filter_simps map_filter_def split: option.split)

lemma bin_of_le: "bin_of k \<le> b \<longleftrightarrow> k < 2 * 2 ^ b + 1"
proof (cases "k > 2")
  case True
  then have f: "2 ^ fls_nat (k - 1) \<le> k - 1" "k - 1 < 2 ^ Suc (fls_nat (k - 1))" using fls_nat_bounds [of "k - 1"] by auto
  show ?thesis
  proof
    assume "bin_of k \<le> b"
    with True have "fls_nat (k - 1) \<le> b" by (simp add: bin_of_def)
    then have "(2 :: nat) ^ Suc (fls_nat (k - 1)) \<le> 2 ^ Suc b" by (intro power_increasing) auto
    with f(2) have "k - 1 < 2 ^ Suc b" by (rule less_le_trans)
    with True show "k < 2 * 2 ^ b + 1" by simp
  next
    assume "k < 2 * 2 ^ b + 1"
    with f(1) True have "(2 :: nat) ^ fls_nat (k - 1) < 2 ^ Suc b" by simp
    then have "fls_nat (k - 1) < Suc b" by (rule power_less_imp_less_exp [rotated]) simp
    with True show "bin_of k \<le> b" by (simp add: bin_of_def)
  qed
next
  case False
  have "(1 :: nat) \<le> 2 ^ b" by simp
  with False show ?thesis unfolding bin_of_def by (simp, linarith)
qed

lemma bin_of_bound: "k < LJ_MAX_ASIZE \<Longrightarrow> bin_of k \<le> 26"
  by (simp add: bin_of_le)

lemma counts_add:
  assumes "counts bins ks" "k < LJ_MAX_ASIZE"
  shows "counts (bins[bin_of k := Suc (bins ! bin_of k)]) (k # ks)"
  using assms bin_of_bound [OF assms(2)] by (auto simp: counts_def nth_list_update)

lemma counts_perm: "counts bins ks \<Longrightarrow> mset ks' = mset ks \<Longrightarrow> counts bins ks'"
proof -
  assume c: "counts bins ks" and m: "mset ks' = mset ks"
  have "length (filter P ks') = length (filter P ks)" for P using m by (metis mset_filter size_mset)
  with c mset_eq_setD [OF m] show ?thesis by (simp add: counts_def)
qed

lemma countint_counts:
  assumes "counts bins ks"
  shows "countint k bins = (length (idxs [k]), snd (countint k bins)) \<and> counts (snd (countint k bins)) (idxs [k] @ ks)"
proof (cases k)
  case (T_num w)
  with assms show ?thesis by (auto simp: int_idx_def counts_add split: option.split)
qed (use assms in \<open>simp_all add: int_idx_def\<close>)

lemma counthash_counts:
  assumes "counts bins ks"
  shows "\<exists>bins'. counthash ns bins = (length (node_entries ns), length (idxs (map fst (node_entries ns))), bins') \<and>
    counts bins' (idxs (map fst (node_entries ns)) @ ks)"
  using assms
proof (induction ns arbitrary: bins ks)
  case (Cons n ns)
  show ?case
  proof (cases "n_val n = T_nil")
    case True
    with Cons show ?thesis by (simp add: node_entries_def)
  next
    case False
    let ?bins = "snd (countint (n_key n) bins)"
    have c: "countint (n_key n) bins = (length (idxs [n_key n]), ?bins)" "counts ?bins (idxs [n_key n] @ ks)"
      using countint_counts [OF Cons.prems] by auto
    from Cons.IH [OF c(2)] obtain bins' where
      b: "counthash ns ?bins = (length (node_entries ns), length (idxs (map fst (node_entries ns))), bins')"
        "counts bins' (idxs (map fst (node_entries ns)) @ idxs [n_key n] @ ks)" by blast
    have e: "node_entries (n # ns) = (n_key n, n_val n) # node_entries ns" using False by (simp add: node_entries_def)
    have "counts bins' (idxs (map fst (node_entries (n # ns))) @ ks)"
      using b(2) by (rule counts_perm) (simp add: e split: option.split)
    moreover have "counthash (n # ns) bins = (length (node_entries (n # ns)), length (idxs (map fst (node_entries (n # ns)))), bins')"
      using False b(1) by (subst counthash.simps, subst c(1)) (simp add: e split: option.split)
    ultimately show ?thesis by blast
  qed
qed (simp add: node_entries_def)
subsection \<open>Counting the array\<close>

text \<open>The first index of a bin.\<close>

definition bin_start :: "nat \<Rightarrow> nat" where
  "bin_start b = (if b = 0 then 0 else 2 ^ b + 1)"

lemma bin_of_eq: "bin_start b \<le> j \<Longrightarrow> j \<le> 2 * 2 ^ b \<Longrightarrow> bin_of j = b"
proof -
  assume j: "bin_start b \<le> j" "j \<le> 2 * 2 ^ b"
  have le: "bin_of j \<le> b" using j(2) by (simp add: bin_of_le)
  show ?thesis
  proof (cases b)
    case (Suc c)
    then have "\<not> bin_of j \<le> c" using j(1) by (simp add: bin_of_le bin_start_def)
    with le Suc show ?thesis by simp
  qed (use le in simp)
qed

lemma counts_add_bin:
  assumes "counts bins ks" "b < LJ_MAX_ABITS" "\<And>k. k \<in> set ks' \<Longrightarrow> bin_of k = b \<and> k < LJ_MAX_ASIZE"
  shows "counts (bins[b := bins ! b + length ks']) (ks' @ ks)"
proof -
  have "length (filter (\<lambda>k. bin_of k = c) ks') = (if c = b then length ks' else 0)" for c
  proof (cases "c = b")
    case True
    then have "filter (\<lambda>k. bin_of k = c) ks' = ks'" using assms(3) by simp
    with True show ?thesis by simp
  next
    case False
    then have "filter (\<lambda>k. bin_of k = c) ks' = []" using assms(3) by (auto simp: filter_empty_conv)
    with False show ?thesis by simp
  qed
  with assms show ?thesis by (auto simp: counts_def nth_list_update)
qed

abbreviation live_upto :: "TValue list \<Rightarrow> nat \<Rightarrow> nat \<Rightarrow> nat list" where
  "live_upto arr i n \<equiv> filter (\<lambda>j. arr ! j \<noteq> T_nil) [i..<n]"

lemma countarray_loop_counts:
  assumes "counts bins ks" "arr \<noteq> []" "length arr \<le> LJ_MAX_ASIZE" "b \<le> LJ_MAX_ABITS"
    "i = bin_start b \<or> length arr \<le> i"
  shows "\<exists>bins'. countarray_loop arr b i na bins = (na + length (live_upto arr i (length arr)), bins') \<and>
    counts bins' (live_upto arr i (length arr) @ ks)"
  using assms
proof (induction arr b i na bins arbitrary: ks rule: countarray_loop.induct)
  case (1 arr b i na bins)
  let ?top = "if 2 * 2 ^ b \<ge> length arr then length arr - 1 else 2 * 2 ^ b"
  let ?new = "live_upto arr i (Suc ?top)"
  show ?case
  proof (cases "b < LJ_MAX_ABITS \<and> \<not> (2 * 2 ^ b \<ge> length arr \<and> i > ?top)")
    case False
    have "length arr \<le> i"
    proof (cases "b < LJ_MAX_ABITS")
      case True
      with False show ?thesis by auto
    next
      case no: False
      with 1(5) have "b = LJ_MAX_ABITS" by simp
      with 1(4,6) show ?thesis by (auto simp: bin_start_def)
    qed
    moreover have "countarray_loop arr b i na bins = (na, bins)"
      using False by (subst countarray_loop.simps) (auto simp: Let_def)
    ultimately show ?thesis using 1(2) by simp
  next
    case True
    have step: "countarray_loop arr b i na bins =
      countarray_loop arr (Suc b) (max i (Suc ?top)) (na + length ?new) (bins[b := bins ! b + length ?new])"
      using True by (subst countarray_loop.simps) (simp add: Let_def del: upt_Suc)
    have top: "Suc ?top \<le> length arr" "?top \<le> 2 * 2 ^ b" using 1(3) by (auto simp: Suc_le_eq)
    have "counts (bins[b := bins ! b + length ?new]) (?new @ ks)"
    proof (rule counts_add_bin [OF 1(2)])
      show "bin_of k = b \<and> k < LJ_MAX_ASIZE" if "k \<in> set ?new" for k
        using that top 1(4,6) by (auto intro!: bin_of_eq simp del: upt_Suc)
    qed (use True in simp)
    note IH = 1(1) [OF conjunct1 [OF True] refl conjunct2 [OF True] refl this 1(3,4)]
    have st: "max i (Suc ?top) = bin_start (Suc b) \<or> length arr \<le> max i (Suc ?top)"
      using 1(6) by (auto simp: bin_start_def)
    let ?rest = "live_upto arr (max i (Suc ?top)) (length arr)"
    have split: "live_upto arr i (length arr) = ?new @ ?rest"
    proof (cases "i \<le> Suc ?top")
      case le: True
      then have "[i..<length arr] = [i..<Suc ?top] @ [Suc ?top..<length arr]"
        using top(1) by (metis le_Suc_ex upt_add_eq_append)
      with le show ?thesis by (simp add: max_def del: upt_Suc)
    qed (simp add: max_def)
    have "Suc b \<le> LJ_MAX_ABITS" using True by simp
    from IH [OF this st] obtain bins' where
      run: "countarray_loop arr b i na bins = (na + length ?new + length ?rest, bins')" and c: "counts bins' (?rest @ ?new @ ks)"
      unfolding step by blast
    have "counts bins' ((?new @ ?rest) @ ks)" by (rule counts_perm [OF c]) (simp only: mset_append ac_simps)
    with run show ?thesis unfolding split by (simp only: length_append add.assoc) blast
  qed
qed
lemma int_idx_num: "j < LJ_MAX_ASIZE \<Longrightarrow> int_idx (T_num (num_of_int (int j))) = Some j"
  using num2int_num_of_int [of "int j"] unat_int32 [of "int j"] by (simp add: int_idx_def)

lemma int_idx_map:
  assumes "\<And>j. j \<in> set js \<Longrightarrow> j < LJ_MAX_ASIZE"
  shows "idxs (map (\<lambda>j. T_num (num_of_int (int j))) js) = js"
  using assms by (induction js) (simp_all add: int_idx_num)

lemma idxs_arr_entries:
  assumes "length arr \<le> LJ_MAX_ASIZE"
  shows "idxs (map fst (arr_entries 0 arr)) = live_upto arr 0 (length arr)"
    "length (arr_entries 0 arr) = length (live_upto arr 0 (length arr))"
  using int_idx_map [of "live_upto arr 0 (length arr)"] assms by (auto simp: arr_entries_def o_def)

lemma counts_empty: "counts (replicate LJ_MAX_ABITS 0) []"
  by (simp add: counts_def)

lemma countarray_counts:
  assumes "asize t \<le> LJ_MAX_ASIZE"
  shows "\<exists>bins. countarray t (replicate LJ_MAX_ABITS 0) = (length (arr_entries 0 (t_array t)), bins) \<and>
    counts bins (idxs (map fst (arr_entries 0 (t_array t))))"
proof (cases "asize t = 0")
  case True
  with counts_empty show ?thesis by (simp add: countarray_def arr_entries_def asize_def)
next
  case False
  have "length (t_array t) \<le> LJ_MAX_ASIZE" using assms by (simp add: asize_def)
  note idx = idxs_arr_entries [OF this]
  show ?thesis
    using countarray_loop_counts [OF counts_empty, of "t_array t" 0 0 0] False assms
    unfolding countarray_def idx by (simp add: asize_def bin_start_def)
qed

subsection \<open>The best array size\<close>

lemma length_filter_le_Suc:
  "length (filter (\<lambda>k. f k < Suc b) ks) = length (filter (\<lambda>k. f k < b) ks) + length (filter (\<lambda>k. f k = b) ks)" for f :: "'a \<Rightarrow> nat"
  by (induction ks) auto

lemma bestasize_loop_ok:
  assumes "counts bins ks" "acc = length (filter (\<lambda>k. bin_of k < b) ks)" "na = length (filter (\<lambda>k. k < sz) ks)" "sz \<le> LJ_MAX_ASIZE"
    "bestasize_loop bins (length ks) b acc na sz = (na', sz')"
  shows "na' = length (filter (\<lambda>k. k < sz') ks) \<and> sz' \<le> LJ_MAX_ASIZE"
  using assms
proof (induction bins "length ks" b acc na sz rule: bestasize_loop.induct)
  case (1 bins b acc na sz)
  show ?case
  proof (cases "2 * length ks > 2 ^ b \<and> acc \<noteq> length ks")
    case True
    let ?acc = "acc + bins ! b"
    have "\<exists>k \<in> set ks. \<not> bin_of k < b"
      using True 1(4) by (metis filter_True)
    then have b: "b \<le> 26" using 1(3) bin_of_bound by (fastforce simp: counts_def)
    then have acc: "?acc = length (filter (\<lambda>k. bin_of k < Suc b) ks)"
      using 1(3,4) unfolding length_filter_le_Suc [of bin_of] by (simp add: counts_def)
    show ?thesis
    proof (cases "bins ! b > 0 \<and> 2 * ?acc > 2 ^ b")
      case better: True
      have "(2 :: nat) ^ b \<le> 2 ^ 26" using b by (intro power_increasing) auto
      then have sz: "2 * 2 ^ b + 1 \<le> LJ_MAX_ASIZE" by simp
      have na: "?acc = length (filter (\<lambda>k. k < 2 * 2 ^ b + 1) ks)" unfolding acc less_Suc_eq_le bin_of_le ..
      have "bestasize_loop bins (length ks) (Suc b) ?acc ?acc (2 * 2 ^ b + 1) = (na', sz')"
        using 1(7) True better by (subst (asm) bestasize_loop.simps) (simp add: Let_def)
      from 1(1) [OF True refl better 1(3) acc na sz this] show ?thesis .
    next
      case False
      have "bestasize_loop bins (length ks) (Suc b) ?acc na sz = (na', sz')"
        using 1(7) True False by (subst (asm) bestasize_loop.simps) (auto simp: Let_def)
      from 1(2) [OF True refl False 1(3) acc 1(5,6) this] show ?thesis .
    qed
  next
    case False
    then have "(na', sz') = (na, sz)" using 1(7) by (subst (asm) bestasize_loop.simps) auto
    with 1(5,6) show ?thesis by simp
  qed
qed

lemma bestasize_ok:
  assumes "counts bins ks" "bestasize bins (length ks) = (na, sz)"
  shows "na = length (filter (\<lambda>k. k < sz) ks)" "sz \<le> LJ_MAX_ASIZE"
  using bestasize_loop_ok [OF assms(1) _ _ _ assms(2) [unfolded bestasize_def]] by auto

lemma hsize2hbits_ok: "s \<le> (if hsize2hbits s = 0 then 0 else 2 ^ hsize2hbits s)"
proof (cases "s \<ge> 2")
  case True
  then have "s - 1 < 2 ^ Suc (fls_nat (s - 1))" using fls_nat_bounds [of "s - 1"] by simp
  with True show ?thesis by (simp add: hsize2hbits_def)
qed (auto simp: hsize2hbits_def not_le numeral_2_eq_2 less_Suc_eq_le)

lemma hsize2hbits_bound: "s \<le> 2 ^ LJ_MAX_HBITS \<Longrightarrow> hsize2hbits s \<le> LJ_MAX_HBITS"
proof (cases "s \<ge> 2")
  case True
  assume s: "s \<le> 2 ^ LJ_MAX_HBITS"
  have "2 ^ fls_nat (s - 1) \<le> s - 1" using fls_nat_bounds [of "s - 1"] True by simp
  with s True have "2 ^ fls_nat (s - 1) < (2 :: nat) ^ LJ_MAX_HBITS" by linarith
  then have "fls_nat (s - 1) < LJ_MAX_HBITS" by (rule power_less_imp_less_exp [rotated]) simp
  with True show ?thesis by (simp add: hsize2hbits_def)
qed (auto simp: hsize2hbits_def)
subsection \<open>Rehashing\<close>

text \<open>A key is in the array of size \<open>sz\<close> if and only if it was counted with an index below \<open>sz\<close>.\<close>

lemma arr_index_int_idx:
  assumes "asize t \<le> LJ_MAX_ASIZE"
  shows "arr_index t k \<noteq> None \<longleftrightarrow> (\<exists>i. int_idx k = Some i \<and> i < asize t)"
proof (cases k)
  case (T_num w)
  show ?thesis
  proof (cases "num2int w")
    case (Some i)
    have "int32 i" using num2int_Some [OF Some] by blast
    from unat_int32 [OF this] this assms T_num Some show ?thesis by (auto simp: arr_index_def int_idx_def split: if_splits)
  qed (simp add: T_num arr_index_def int_idx_def)
qed (simp_all add: arr_index_def int_idx_def)

lemma filter_idxs:
  "length (filter P (idxs ks)) + length (filter (\<lambda>k. \<not> (\<exists>i. int_idx k = Some i \<and> P i)) ks) = length ks"
  by (induction ks) (auto split: option.split)

lemma spill_idxs:
  assumes "sz \<le> LJ_MAX_ASIZE"
  shows "length (filter (\<lambda>i. i < sz) (idxs (map fst (entries t)))) + spill t sz = length (entries t)"
proof -
  let ?t = "t\<lparr>t_array := replicate sz T_nil\<rparr>" and ?out = "\<lambda>k. \<not> (\<exists>i. int_idx k = Some i \<and> i < sz)"
  have "asize ?t = sz" by (simp add: asize_def)
  then have "arr_index ?t k = None \<longleftrightarrow> ?out k" for k using arr_index_int_idx [of ?t k] assms by metis
  then have "spill t sz = length (filter ?out (map fst (entries t)))"
    by (simp add: spill_def filter_map o_def case_prod_unfold)
  with filter_idxs [of "\<lambda>i. i < sz" "map fst (entries t)"] show ?thesis by simp
qed

text \<open>What rehashing for a key asks the table to be resized to.\<close>

lemma rehashtab_sizes:
  assumes "tab_ok t"
  obtains sz where "sz \<le> LJ_MAX_ASIZE"
    "rehashtab nk t ek = resizetab nk t sz (hsize2hbits (1 + spill t sz - (if \<exists>i. int_idx ek = Some i \<and> i < sz then 1 else 0)))"
proof -
  let ?A = "arr_entries 0 (t_array t)" and ?N = "node_entries (t_node t)"
  obtain bins1 where 1: "countarray t (replicate LJ_MAX_ABITS 0) = (length ?A, bins1)" "counts bins1 (idxs (map fst ?A))"
    using countarray_counts [OF tab_okD(1) [OF assms]] by blast
  obtain bins2 where 2: "counthash (t_node t) bins1 = (length ?N, length (idxs (map fst ?N)), bins2)"
    "counts bins2 (idxs (map fst ?N) @ idxs (map fst ?A))"
    using counthash_counts [OF 1(2)] by blast
  obtain bins3 where 3: "countint ek bins2 = (length (idxs [ek]), bins3)" "counts bins3 (idxs [ek] @ idxs (map fst ?N) @ idxs (map fst ?A))"
    using countint_counts [OF 2(2)] by (metis prod.collapse prod.inject)
  let ?ks = "idxs [ek] @ idxs (map fst ?N) @ idxs (map fst ?A)"
  obtain na sz where best: "bestasize bins3 (length ?ks) = (na, sz)" by fastforce
  note sz = bestasize_ok [OF 3(2) best]
  have A: "length ?A = length (idxs (map fst ?A))"
    using idxs_arr_entries [of "t_array t"] tab_okD(1) [OF assms] by (simp add: asize_def)
  have "rehashtab nk t ek = resizetab nk t sz (hsize2hbits (1 + length ?A + length ?N - na))"
    using best A by (simp add: rehashtab_def 1(1) 2(1) 3(1) ac_simps del: idxs_simps(2))
  moreover have "na + spill t sz = length ?A + length ?N + (if \<exists>i. int_idx ek = Some i \<and> i < sz then 1 else 0)"
    using spill_idxs [OF sz(2), of t] unfolding sz(1) by (auto simp: entries_def split: option.split)
  moreover from this have "1 + length ?A + length ?N - na = 1 + spill t sz - (if \<exists>i. int_idx ek = Some i \<and> i < sz then 1 else 0)"
    by (simp split: if_splits)
  ultimately show thesis by (intro that [OF sz(2)]) simp
qed
lemma spill_le: "spill t as \<le> length (entries t)"
  by (simp add: spill_def)

lemma resizetab_overflow: "as \<le> LJ_MAX_ASIZE \<Longrightarrow> hbits > LJ_MAX_HBITS \<Longrightarrow> resizetab nk t as hbits = terr ERR_TABOV"
  by (simp add: resizetab_def newhpart_def Let_def)

lemma rehashtab_ok:
  assumes "tab_ok t"
  obtains (overflow) "rehashtab (lj_tab_newkey (Suc d)) t ek = terr ERR_TABOV" "2 ^ LJ_MAX_HBITS \<le> length (entries t)"
    | (rehashed) t' where "rehashtab (lj_tab_newkey (Suc d)) t ek = tret t'" "tab_ok t'" "\<And>k. good_key k \<Longrightarrow> lookup t' k = lookup t k"
        "arr_index t' ek \<noteq> None \<or> have_room t'"
proof -
  let ?nk = "lj_tab_newkey (Suc d)"
  obtain sz where sz: "sz \<le> LJ_MAX_ASIZE"
    and run: "rehashtab ?nk t ek = resizetab ?nk t sz (hsize2hbits (1 + spill t sz - (if \<exists>i. int_idx ek = Some i \<and> i < sz then 1 else 0)))"
    by (rule rehashtab_sizes [OF assms])
  let ?in = "\<exists>i. int_idx ek = Some i \<and> i < sz"
  let ?s = "1 + spill t sz - (if ?in then 1 else 0)" and ?hb = "hsize2hbits (1 + spill t sz - (if ?in then 1 else 0))"
  show thesis
  proof (cases "?hb \<le> LJ_MAX_HBITS")
    case False
    then have "\<not> ?s \<le> 2 ^ LJ_MAX_HBITS" using hsize2hbits_bound by blast
    then have "2 ^ LJ_MAX_HBITS \<le> length (entries t)" using spill_le [of t sz] by (simp split: if_splits)
    with overflow resizetab_overflow [OF sz] False run show thesis by simp
  next
    case True
    have le: "?s \<le> (if ?hb = 0 then 0 else 2 ^ ?hb)" by (rule hsize2hbits_ok)
    moreover have "spill t sz \<le> ?s" by simp
    ultimately have "spill t sz \<le> (if ?hb = 0 then 0 else 2 ^ ?hb)" by (rule le_trans [rotated])
    from resizetab_ok [OF assms sz True this, of d] obtain t' where
      t': "resizetab ?nk t sz ?hb = tret t'" "tab_ok t'" "\<And>k. good_key k \<Longrightarrow> lookup t' k = lookup t k" "asize t' = sz"
        "length (t_node t') = 2 ^ ?hb" "card (used (t_node t')) \<le> spill t sz" by blast
    have "arr_index t' ek \<noteq> None \<or> have_room t'"
    proof (cases ?in)
      case out: False
      with le have "?hb \<noteq> 0" "spill t sz < 2 ^ ?hb" by (auto split: if_splits)
      moreover from this(1) have "(1 :: nat) < 2 ^ ?hb" by (intro one_less_power) auto
      ultimately show ?thesis using t'(5,6) by (simp add: have_room_def hmask_def)
    qed (use arr_index_int_idx [of t' ek] t'(4) sz in simp)
    with rehashed t' run show thesis by simp
  qed
qed

subsection \<open>Setting a key\<close>

text \<open>A slot for the key, in a table with the values it had.\<close>

definition slot_given :: "GCtab \<Rightarrow> TValue \<Rightarrow> (slot \<times> GCtab) tres \<Rightarrow> bool" where
  "slot_given t k r \<longleftrightarrow> (\<exists>sl t'. r = tret (sl, t') \<and> tab_ok t' \<and> slot_of t' k sl \<and> (\<forall>k'. good_key k' \<longrightarrow> lookup t' k' = lookup t k'))"

lemma key_added_slot_given: "key_added t k sl t' \<Longrightarrow> slot_given t k (tret (sl, t'))"
  by (auto simp: slot_given_def key_added_def)

lemma newkey_ok:
  assumes "tab_ok t" "good_key k" "arr_index t k = None" "\<not> has_key (t_node t) k"
  shows "lj_tab_newkey (Suc (Suc d)) t k = terr ERR_TABOV \<and> 2 ^ LJ_MAX_HBITS \<le> length (entries t) \<or>
    slot_given t k (lj_tab_newkey (Suc (Suc d)) t k)"
proof -
  let ?nk = "lj_tab_newkey (Suc d)"
  let ?retry = "\<lambda>t key. tbind (rehashtab ?nk t key) (\<lambda>t'. lj_tab_set_with ?nk t' key)"
  have unf: "lj_tab_newkey (Suc (Suc d)) t k = newkey_step ?retry t k" by simp
  from assms show ?thesis
  proof (cases rule: newkey_step_cases [where retry = ?retry])
    case (direct sl t')
    then show ?thesis unfolding unf using key_added_slot_given by simp
  next
    case full
    from assms(1) show ?thesis
    proof (cases rule: rehashtab_ok [where d = d and ek = k])
      case overflow
      then show ?thesis unfolding unf full(1) by simp
    next
      case (rehashed t')
      have "room_for t' k" using rehashed(4) by (auto simp: room_for_def)
      from set_with_room [OF rehashed(2) assms(2) this, of d] obtain sl t'' where
        set: "lj_tab_set_with ?nk t' k = tret (sl, t'')" "key_added t' k sl t''" by blast
      then have "slot_given t k (tret (sl, t''))" using rehashed(3) by (simp add: slot_given_def key_added_def)
      then show ?thesis unfolding unf full(1) rehashed(1) tbind_simps set(1) by simp
    qed
  qed
qed

lemma lj_tab_set_good:
  assumes "tab_ok t" "good_key k" "depth \<ge> 2"
  shows "lj_tab_set depth t k = terr ERR_TABOV \<and> 2 ^ LJ_MAX_HBITS \<le> length (entries t) \<or> slot_given t k (lj_tab_set depth t k)"
proof -
  obtain d where d: "depth = Suc (Suc d)" using assms(3) by (metis add_2_eq_Suc le_Suc_ex)
  let ?t = "t\<lparr>t_nomm := 0\<rparr>" and ?nk = "lj_tab_newkey (Suc (Suc d))"
  have ok: "tab_ok ?t" using assms(1) by (simp add: nomm_irrelevant)
  have e: "entries ?t = entries t" by (simp add: entries_def)
  have g: "slot_given ?t = slot_given t" by (intro ext) (simp add: slot_given_def nomm_irrelevant)
  have unf: "lj_tab_set depth t k = found_or ?nk ?t k (get_slot ?t k)"
    unfolding lj_tab_set_def d by (rule set_with_good [OF assms(2)])
  from ok assms(2) show ?thesis
  proof (cases rule: found_or_cases [where nk = ?nk])
    case (found sl)
    then show ?thesis unfolding unf found(1) using key_added_slot_given g by metis
  next
    case new
    from newkey_ok [OF ok assms(2) new(1,2), of d] show ?thesis unfolding unf new(3) e g .
  qed
qed

end
