(* ===== verification/Lj_Tab_Ops.thy ===== *)
theory Lj_Tab_Ops
  imports Lj_Tab_Rehash
begin

text \<open>
  Tables as their callers see them: \<open>lj_tab_get\<close> and \<open>lj_tab_set\<close> implement a finite map over the keys of
  Lua, and creating and resizing a table keeps its contents.
\<close>

subsection \<open>Reading any key\<close>

definition valid_key :: "TValue \<Rightarrow> bool" where
  "valid_key k \<longleftrightarrow> (case k of T_nil \<Rightarrow> False | T_num w \<Rightarrow> \<not> tvisnan w | _ \<Rightarrow> True)"

lemma valid_good: "valid_key k \<Longrightarrow> good_key (norm_key k)"
  by (cases k) (auto intro!: good_norm_key simp: valid_key_def)

lemma nan_not_int:
  assumes "tvisnan w"
  shows "num2int w = None"
proof -
  have "unat w mod 2 ^ 63 > 2047 * 2 ^ 52" using assms by (simp add: tvisnan_def Let_def)
  moreover have "unat w mod 2 ^ 63 div 2 ^ 52 = unat w div 2 ^ 52 mod 2 ^ 11"
    using mod_mult2_eq [of "unat w" "2 ^ 52" "2 ^ 11"] by simp
  ultimately have "unat w div 2 ^ 52 mod 2048 \<ge> 2047" by simp
  then show ?thesis by (simp add: num2int_def Let_def)
qed

lemma get_slot_norm: "get_slot t (norm_key k) = get_slot t k"
  by (simp add: norm_key_def get_slot_def num2int_zeros)

lemma lj_tab_get_norm: "lj_tab_get t (norm_key k) = lj_tab_get t k"
  by (simp add: lj_tab_get_def get_slot_norm)

lemma lj_tab_get_nan:
  assumes "tab_ok t" "tvisnan w"
  shows "lj_tab_get t (T_num w) = Some T_nil"
proof -
  have "\<not> lj_obj_equal k (T_num w)" for k using assms(2) by (cases k) (simp_all add: lj_obj_equal_def num_eq_def)
  moreover have "ranked (t_node t)" "links_ok (t_node t)" using tab_okD(3) [OF assms(1)] by (simp_all add: nodes_ok_def)
  ultimately have "chain_find (t_node t) (\<lambda>k. lj_obj_equal k (T_num w)) (hashkey t (T_num w)) = Some None"
    using chain_find_walk [OF _ _ hashkey_bound [OF assms(1)], of "\<lambda>k. lj_obj_equal k (T_num w)" "T_num w"]
    by (metis option.exhaust)
  then show ?thesis using nan_not_int [OF assms(2)] by (simp add: lj_tab_get_def get_slot_def genlookup_def)
qed

lemma lj_tab_get_any:
  assumes "tab_ok t"
  shows "lj_tab_get t k = Some (if valid_key k then lookup t (norm_key k) else T_nil)"
proof (cases "valid_key k")
  case True
  with lj_tab_get_lookup [OF assms valid_good] show ?thesis by (simp add: lj_tab_get_norm)
next
  case False
  then show ?thesis
    using lj_tab_get_nan [OF assms] by (cases k) (auto simp: valid_key_def lj_tab_get_def get_slot_def)
qed

subsection \<open>Setting any key\<close>

lemma set_invalid:
  "lj_tab_set_with nk t T_nil = terr ERR_NILIDX" "tvisnan w \<Longrightarrow> lj_tab_set_with nk t (T_num w) = terr ERR_NANIDX"
  by (simp_all add: lj_tab_set_with_def nan_not_int)

lemma lj_tab_set_norm: "lj_tab_set depth t (norm_key k) = lj_tab_set depth t k"
  unfolding lj_tab_set_def by (rule set_with_norm [symmetric])

lemma distinct_entries:
  assumes "tab_ok t"
  shows "distinct (map fst (entries t))"
proof -
  have "length (t_array t) \<le> LJ_MAX_ASIZE" using tab_okD(1) [OF assms] by (simp add: asize_def)
  moreover have "fst ` set (arr_entries 0 (t_array t)) \<inter> fst ` set (node_entries (t_node t)) = {}"
    using arr_entries_index [OF assms] node_entries_key(2) [OF assms] by force
  ultimately show ?thesis using distinct_arr_entries [of 0] distinct_node_entries [OF assms] by (simp add: entries_def)
qed

lemma entries_card:
  assumes "tab_ok t"
  shows "length (entries t) = card {k. good_key k \<and> lookup t k \<noteq> T_nil}" "finite {k. good_key k \<and> lookup t k \<noteq> T_nil}"
proof -
  have e: "{k. good_key k \<and> lookup t k \<noteq> T_nil} = fst ` set (entries t)"
  proof (intro set_eqI iffI)
    fix k
    assume "k \<in> {k. good_key k \<and> lookup t k \<noteq> T_nil}"
    then have "(k, lookup t k) \<in> set (entries t)" using entries_lookup [OF assms] by blast
    then show "k \<in> fst ` set (entries t)" by force
  next
    fix k
    assume "k \<in> fst ` set (entries t)"
    then obtain v where v: "(k, v) \<in> set (entries t)" by auto
    note g = entry_keys_good [OF assms v]
    with entries_lookup [OF assms g] v show "k \<in> {k. good_key k \<and> lookup t k \<noteq> T_nil}" by simp
  qed
  show "length (entries t) = card {k. good_key k \<and> lookup t k \<noteq> T_nil}"
    unfolding e using distinct_card [OF distinct_entries [OF assms]] by simp
  show "finite {k. good_key k \<and> lookup t k \<noteq> T_nil}" unfolding e by simp
qed

lemma entries_grow:
  assumes "tab_ok t" "tab_ok t'" "\<And>k'. good_key k' \<Longrightarrow> lookup t' k' = (if k' = k then v else lookup t k')"
  shows "length (entries t') \<le> Suc (length (entries t))"
proof -
  have "{k'. good_key k' \<and> lookup t' k' \<noteq> T_nil} \<subseteq> insert k {k'. good_key k' \<and> lookup t k' \<noteq> T_nil}"
    using assms(3) by auto
  then have "card {k'. good_key k' \<and> lookup t' k' \<noteq> T_nil} \<le> card (insert k {k'. good_key k' \<and> lookup t k' \<noteq> T_nil})"
    by (intro card_mono) (use entries_card(2) [OF assms(1)] in simp_all)
  also have "\<dots> \<le> Suc (card {k'. good_key k' \<and> lookup t k' \<noteq> T_nil})" by (rule card_insert_le_m1) simp_all
  finally show ?thesis using entries_card(1) [OF assms(1)] entries_card(1) [OF assms(2)] by simp
qed

text \<open>A map update: the table after a value was stored under a key.\<close>

definition updated :: "GCtab \<Rightarrow> TValue \<Rightarrow> TValue \<Rightarrow> GCtab \<Rightarrow> bool" where
  "updated t k v t' \<longleftrightarrow> tab_ok t' \<and> length (entries t') \<le> Suc (length (entries t)) \<and>
     (\<forall>k'. lj_tab_get t' k' = (if norm_key k' = norm_key k then Some v else lj_tab_get t k'))"

lemma slot_given_updated:
  assumes "tab_ok t" "valid_key k" "slot_given t (norm_key k) r"
  obtains t' where "set_and_store r v = tret t'" "updated t k v t'"
proof -
  note good = valid_good [OF assms(2)]
  from assms(3) obtain sl t1 where r: "r = tret (sl, t1)" and t1: "tab_ok t1" "slot_of t1 (norm_key k) sl"
    and same: "\<And>k'. good_key k' \<Longrightarrow> lookup t1 k' = lookup t k'" by (auto simp: slot_given_def)
  let ?t = "store sl v t1"
  note st = store_ok [OF t1(1) good t1(2), where v = v]
  have lk: "lookup ?t k' = (if k' = norm_key k then v else lookup t k')" if "good_key k'" for k'
    using st(2) [OF that] same [OF that] by simp
  have valid_eq: "valid_key k'" if "norm_key k' = norm_key k" for k'
    using that assms(2) by (auto simp: norm_key_def valid_key_def tvisnan_def split: if_splits)
  have "lj_tab_get ?t k' = (if norm_key k' = norm_key k then Some v else lj_tab_get t k')" for k'
    unfolding lj_tab_get_any [OF st(1)] lj_tab_get_any [OF assms(1)]
    using valid_eq [of k'] lk [OF valid_good, of k'] by (cases "norm_key k' = norm_key k"; cases "valid_key k'") simp_all
  moreover have "length (entries ?t) \<le> Suc (length (entries t))" by (rule entries_grow [OF assms(1) st(1) lk])
  ultimately have "updated t k v ?t" using st(1) by (simp add: updated_def)
  moreover have "set_and_store r v = tret ?t" by (simp add: r set_and_store_def)
  ultimately show thesis using that by blast
qed

lemma lj_tab_set_updates:
  assumes "tab_ok t" "valid_key k" "depth \<ge> 2" "length (entries t) < 2 ^ LJ_MAX_HBITS"
  obtains t' where "set_and_store (lj_tab_set depth t k) v = tret t'" "updated t k v t'"
proof -
  have "slot_given t (norm_key k) (lj_tab_set depth t k)"
    using lj_tab_set_good [OF assms(1) valid_good [OF assms(2)] assms(3)] assms(4) unfolding lj_tab_set_norm by simp
  from slot_given_updated [OF assms(1,2) this] that show thesis by blast
qed
text \<open>
  C26: a table is a finite map. As long as it has fewer than \<open>2 ^ 26\<close> entries, setting a key that is neither
  nil nor NaN and storing a value in the slot returned ends, whether the key is there already, fits
  in a free node, moves another key away or makes the table rehash itself; the table keeps its
  invariant, a later lookup of the key, in any representation of zero, finds the value, and every
  other key has the value it had.
\<close>

theorem lj_tab_set_refines:
  assumes "tab_ok t" "valid_key k" "depth \<ge> 2" "length (entries t) < 2 ^ LJ_MAX_HBITS"
  shows "\<exists>t'. set_and_store (lj_tab_set depth t k) v = tret t' \<and> tab_ok t' \<and>
    (\<forall>k'. lj_tab_get t' k' = (if norm_key k' = norm_key k then Some v else lj_tab_get t k'))"
  using lj_tab_set_updates [OF assms] unfolding updated_def by metis

lemma new_fresh:
  assumes "as \<le> LJ_MAX_ASIZE" "hbits \<le> LJ_MAX_HBITS"
  obtains t where "lj_tab_new as hbits = tret t" "tab_ok t" "entries t = []" "\<And>k. lj_tab_get t k = Some T_nil"
proof -
  let ?t = "fresh \<lparr>t_nomm = 0xFF, t_array = replicate as T_nil, t_node = [empty_node], t_freetop = 0\<rparr> hbits"
  have ok: "tab_ok ?t" by (rule fresh_ok) (use assms in \<open>simp_all add: asize_def\<close>)
  have e: "entries ?t = []" unfolding entries_def fresh_simps by simp
  have "lookup ?t k = T_nil" if "good_key k" for k using entries_lookup [OF ok that, of "lookup ?t k"] e by auto
  then have "lj_tab_get ?t k = Some T_nil" for k unfolding lj_tab_get_any [OF ok] by (auto dest: valid_good)
  moreover have "lj_tab_new as hbits = tret ?t" using assms by (simp add: lj_tab_new_def newhpart_fresh)
  ultimately show thesis using ok e that by blast
qed

definition empty_table :: GCtab where
  "empty_table = \<lparr>t_nomm = 0xFF, t_array = [], t_node = [empty_node], t_freetop = 0\<rparr>"

lemma empty_table_ok: "tab_ok empty_table" "entries empty_table = []" "lj_tab_get empty_table k = Some T_nil"
proof -
  have "lj_tab_new 0 0 = tret empty_table" by (simp add: lj_tab_new_def newhpart_def empty_table_def)
  with new_fresh [of 0 0] show "tab_ok empty_table" "entries empty_table = []" "lj_tab_get empty_table k = Some T_nil"
    by (metis Inr_inject le0 option.inject)+
qed

theorem lj_tab_set_refines_witness:
  "\<exists>t'. set_and_store (lj_tab_set 2 empty_table (T_str ''a'')) (T_bool True) = tret t' \<and> tab_ok t' \<and>
    (\<forall>k'. lj_tab_get t' k' = (if norm_key k' = norm_key (T_str ''a'') then Some (T_bool True) else lj_tab_get empty_table k'))"
  by (rule lj_tab_set_refines) (simp_all add: empty_table_ok valid_key_def)

text \<open>
  C27: setting a key ends on every table that satisfies the invariant, for every key. A nil key and a NaN
  are refused with their own errors; any other key gives a slot of a table with the same contents,
  or the error for a table overflow, and that only if the table has at least \<open>2 ^ 26\<close> entries.
\<close>

theorem lj_tab_set_outcome:
  assumes "tab_ok t" "depth \<ge> 2"
  shows "case lj_tab_set depth t k of
      None \<Rightarrow> False
    | Some (Inl e) \<Rightarrow> e = ERR_NILIDX \<and> k = T_nil \<or> e = ERR_NANIDX \<and> \<not> valid_key k \<and> k \<noteq> T_nil \<or>
        e = ERR_TABOV \<and> valid_key k \<and> 2 ^ LJ_MAX_HBITS \<le> length (entries t)
    | Some (Inr (sl, t')) \<Rightarrow> valid_key k \<and> tab_ok t' \<and> (\<forall>k'. lj_tab_get t' k' = lj_tab_get t k') \<and> Some (load t' sl) = lj_tab_get t' k"
proof (cases "valid_key k")
  case False
  then show ?thesis by (cases k) (simp_all add: valid_key_def lj_tab_set_def set_invalid)
next
  case True
  note good = valid_good [OF True]
  from lj_tab_set_good [OF assms(1) good assms(2)] consider
    "lj_tab_set depth t k = terr ERR_TABOV" "2 ^ LJ_MAX_HBITS \<le> length (entries t)" | "slot_given t (norm_key k) (lj_tab_set depth t k)"
    unfolding lj_tab_set_norm by blast
  then show ?thesis
  proof cases
    case 2
    then obtain sl t' where r: "lj_tab_set depth t k = tret (sl, t')" and t': "tab_ok t'" "slot_of t' (norm_key k) sl"
      and same: "\<And>k'. good_key k' \<Longrightarrow> lookup t' k' = lookup t k'" by (auto simp: slot_given_def)
    have "load t' sl = lookup t' (norm_key k)"
    proof (cases sl)
      case (Hsh n)
      with t'(2) val_of_node [OF tab_okD(5) [OF t'(1)], of n "norm_key k"] good show ?thesis
        by (simp add: slot_of_def lookup_def good_key_def)
    qed (use t'(2) in \<open>simp add: slot_of_def lookup_def\<close>)
    then show ?thesis
      using r t'(1) True same [OF valid_good] lj_tab_get_any [OF t'(1)] lj_tab_get_any [OF assms(1)] by simp
  qed (simp add: True)
qed

theorem lj_tab_set_outcome_witness:
  "case lj_tab_set 2 empty_table (T_num 0) of
      None \<Rightarrow> False
    | Some (Inl e) \<Rightarrow> e = ERR_NILIDX \<and> T_num 0 = T_nil \<or> e = ERR_NANIDX \<and> \<not> valid_key (T_num 0) \<and> T_num 0 \<noteq> T_nil \<or>
        e = ERR_TABOV \<and> valid_key (T_num 0) \<and> 2 ^ LJ_MAX_HBITS \<le> length (entries empty_table)
    | Some (Inr (sl, t')) \<Rightarrow> valid_key (T_num 0) \<and> tab_ok t' \<and> (\<forall>k'. lj_tab_get t' k' = lj_tab_get empty_table k') \<and>
        Some (load t' sl) = lj_tab_get t' (T_num 0)"
  by (rule lj_tab_set_outcome) (simp_all add: empty_table_ok)
subsection \<open>The interface of tables\<close>

text \<open>A sequence of assignments.\<close>

fun put_all :: "('t \<Rightarrow> 'k \<Rightarrow> 'v \<Rightarrow> 't option) \<Rightarrow> 't \<Rightarrow> ('k \<times> 'v) list \<Rightarrow> 't option" where
  "put_all put t [] = Some t"
| "put_all put t ((k, v) # kvs) = (case put t k v of None \<Rightarrow> None | Some t' \<Rightarrow> put_all put t' kvs)"

text \<open>
  What the users of tables rely on: up to a number of entries, an assignment succeeds and is a map
  update on the keys, where some keys are representations of one another.
\<close>

locale lua_table =
  fixes inv :: "'t \<Rightarrow> bool" and size_of :: "'t \<Rightarrow> nat" and cap :: nat
    and valid :: "'k \<Rightarrow> bool" and norm :: "'k \<Rightarrow> 'k"
    and get :: "'t \<Rightarrow> 'k \<Rightarrow> 'v" and put :: "'t \<Rightarrow> 'k \<Rightarrow> 'v \<Rightarrow> 't option"
  assumes put_ok: "inv t \<Longrightarrow> valid k \<Longrightarrow> size_of t < cap \<Longrightarrow>
    \<exists>t'. put t k v = Some t' \<and> inv t' \<and> size_of t' \<le> Suc (size_of t) \<and> (\<forall>k'. get t' k' = (if norm k' = norm k then v else get t k'))"
begin

lemma put_all_get:
  assumes "inv t" "\<forall>(k, v) \<in> set kvs. valid k" "size_of t + length kvs \<le> cap"
  shows "\<exists>t'. put_all put t kvs = Some t' \<and> inv t' \<and>
    (\<forall>k. get t' k = (case map_of (rev (map (apfst norm) kvs)) (norm k) of Some v \<Rightarrow> v | None \<Rightarrow> get t k))"
  using assms
proof (induction kvs arbitrary: t)
  case (Cons kv kvs)
  obtain k v where kv: "kv = (k, v)" by fastforce
  with Cons.prems obtain t1 where t1: "put t k v = Some t1" "inv t1" "size_of t1 \<le> Suc (size_of t)"
    "\<forall>k'. get t1 k' = (if norm k' = norm k then v else get t k')" using put_ok [of t k v] by auto
  have "size_of t1 + length kvs \<le> cap" using Cons.prems(3) t1(3) by simp
  with Cons.IH [OF t1(2)] Cons.prems(2) obtain t' where t': "put_all put t1 kvs = Some t'" "inv t'"
    "\<forall>k. get t' k = (case map_of (rev (map (apfst norm) kvs)) (norm k) of Some v \<Rightarrow> v | None \<Rightarrow> get t1 k)" by auto
  have "get t' k' = (case map_of (rev (map (apfst norm) (kv # kvs))) (norm k') of Some v \<Rightarrow> v | None \<Rightarrow> get t k')" for k'
    using t'(3) t1(4) by (auto simp: kv map_add_def split: option.splits)
  with t' t1(1) show ?case by (simp add: kv)
qed simp

text \<open>The order of two assignments to different keys does not show.\<close>

lemma put_commute:
  assumes "inv t" "valid k" "valid l" "norm k \<noteq> norm l" "size_of t + 2 \<le> cap"
  obtains t1 t2 where "put_all put t [(k, v), (l, w)] = Some t1" "put_all put t [(l, w), (k, v)] = Some t2" "get t1 = get t2"
proof -
  have two: "\<exists>t'. put_all put t [(k, v), (l, w)] = Some t' \<and>
      (\<forall>x. get t' x = (if norm x = norm l then w else if norm x = norm k then v else get t x))"
    if "valid k" "valid l" for k l v w
    using put_all_get [OF assms(1), of "[(k, v), (l, w)]"] that assms(5) by (auto simp del: put_all.simps)
  obtain t1 where t1: "put_all put t [(k, v), (l, w)] = Some t1"
    "\<forall>x. get t1 x = (if norm x = norm l then w else if norm x = norm k then v else get t x)"
    using two [OF assms(2,3), of v w] by blast
  obtain t2 where t2: "put_all put t [(l, w), (k, v)] = Some t2"
    "\<forall>x. get t2 x = (if norm x = norm k then v else if norm x = norm l then w else get t x)"
    using two [OF assms(3,2), of w v] by blast
  have "get t1 = get t2" using t1(2) t2(2) assms(4) by (intro ext) auto
  with t1(1) t2(1) that show thesis by blast
qed

end

text \<open>An assignment \<open>t[k] = v\<close> on a table without metamethods.\<close>

definition tab_put :: "GCtab \<Rightarrow> TValue \<Rightarrow> TValue \<Rightarrow> GCtab option" where
  "tab_put t k v = (case set_and_store (lj_tab_set 2 t k) v of Some (Inr t') \<Rightarrow> Some t' | _ \<Rightarrow> None)"

interpretation lt: lua_table tab_ok "\<lambda>t. length (entries t)" "2 ^ LJ_MAX_HBITS" valid_key norm_key
  "\<lambda>t k. the (lj_tab_get t k)" tab_put
proof
  fix t k v
  assume "tab_ok t" "valid_key k" "length (entries t) < 2 ^ LJ_MAX_HBITS"
  then obtain t' where "set_and_store (lj_tab_set 2 t k) v = tret t'" "updated t k v t'"
    by (elim lj_tab_set_updates) auto
  then show "\<exists>t'. tab_put t k v = Some t' \<and> tab_ok t' \<and> length (entries t') \<le> Suc (length (entries t)) \<and>
      (\<forall>k'. the (lj_tab_get t' k') = (if norm_key k' = norm_key k then v else the (lj_tab_get t k')))"
    by (simp add: tab_put_def updated_def)
qed

text \<open>
  Building a table and reading it back. Starting from a new table of any size, a sequence of up to \<open>2 ^ 26\<close>
  assignments with keys that are neither nil nor NaN succeeds, and reading a key of the result gives
  the value of the last assignment to it, or nil if there was none.
\<close>

theorem table_roundtrip:
  assumes "as \<le> LJ_MAX_ASIZE" "hbits \<le> LJ_MAX_HBITS" "\<forall>(k, v) \<in> set kvs. valid_key k" "length kvs \<le> 2 ^ LJ_MAX_HBITS"
  shows "\<exists>t t'. lj_tab_new as hbits = tret t \<and> put_all tab_put t kvs = Some t' \<and>
    (\<forall>k. lj_tab_get t' k = Some (case map_of (rev (map (apfst norm_key) kvs)) (norm_key k) of Some v \<Rightarrow> v | None \<Rightarrow> T_nil))"
proof -
  obtain t where t: "lj_tab_new as hbits = tret t" "tab_ok t" "entries t = []" "\<And>k. lj_tab_get t k = Some T_nil"
    by (rule new_fresh [OF assms(1,2)]) (rule that)
  have nil: "the (lj_tab_get t k) = T_nil" for k by (simp add: t(4))
  have "length (entries t) + length kvs \<le> 2 ^ LJ_MAX_HBITS" using t(3) assms(4) by simp
  from lt.put_all_get [OF t(2) assms(3) this] obtain t' where t': "put_all tab_put t kvs = Some t'" "tab_ok t'"
    "\<forall>k. the (lj_tab_get t' k) = (case map_of (rev (map (apfst norm_key) kvs)) (norm_key k) of Some v \<Rightarrow> v | None \<Rightarrow> T_nil)"
    unfolding nil by blast
  have "lj_tab_get t' k \<noteq> None" for k unfolding lj_tab_get_any [OF t'(2)] by simp
  with t' t(1) show ?thesis by (metis option.collapse)
qed

theorem table_roundtrip_witness:
  "\<exists>t t'. lj_tab_new 2 0 = tret t \<and> put_all tab_put t [(T_num MZERO, T_bool True), (T_str ''x'', T_num 0), (T_num 0, T_bool False)] = Some t' \<and>
    (\<forall>k. lj_tab_get t' k = Some (case map_of (rev (map (apfst norm_key) [(T_num MZERO, T_bool True), (T_str ''x'', T_num 0), (T_num 0, T_bool False)]))
      (norm_key k) of Some v \<Rightarrow> v | None \<Rightarrow> T_nil))"
  by (rule table_roundtrip) (simp_all add: valid_key_def tvisnan_def)

subsection \<open>Rehashing and resizing on demand\<close>

text \<open>Growing the array leaves at most the entries of the hash part outside.\<close>

lemma spill_grow:
  assumes "tab_ok t" "asize t \<le> as" "as \<le> LJ_MAX_ASIZE"
  shows "spill t as \<le> length (node_entries (t_node t))"
proof -
  let ?t = "t\<lparr>t_array := replicate as T_nil\<rparr>"
  have "arr_index ?t k \<noteq> None" if "(k, v) \<in> set (arr_entries 0 (t_array t))" for k v
  proof -
    from arr_entries_index [OF assms(1) that] obtain i where "arr_index t k = Some i" by blast
    moreover have "asize ?t = as" by (simp add: asize_def)
    ultimately show ?thesis
      using arr_index_int_idx [of t k] arr_index_int_idx [of ?t k] tab_okD(1) [OF assms(1)] assms(2,3)
      by (metis less_le_trans option.distinct(1))
  qed
  then have "outside ?t (arr_entries 0 (t_array t)) = 0" by (auto simp: filter_empty_conv)
  then show ?thesis by (simp add: spill_def entries_def)
qed

lemma same_contents:
  assumes "tab_ok t" "tab_ok t'" "\<And>k. good_key k \<Longrightarrow> lookup t' k = lookup t k"
  shows "lj_tab_get t' k = lj_tab_get t k"
  using assms(3) [OF valid_good, of k] by (simp add: lj_tab_get_any [OF assms(1)] lj_tab_get_any [OF assms(2)])

lemma hmask_bits:
  assumes "length (t_node t) = 2 ^ b" "hmask t > 0"
  shows "fls_nat (hmask t) + 1 = b"
proof (cases b)
  case (Suc c)
  have "(1 :: nat) \<le> 2 ^ c" by simp
  then have "2 ^ c \<le> hmask t" "hmask t < 2 ^ Suc c" using assms(1) Suc by (simp_all add: hmask_def)
  from fls_nat_unique [OF this] Suc show ?thesis by simp
qed (use assms in \<open>simp add: hmask_def\<close>)

lemma reasize_ok:
  assumes "tab_ok t" "asize t \<le> nasize + 1" "nasize + 1 \<le> LJ_MAX_ASIZE"
  obtains t' where "lj_tab_reasize (Suc d) t nasize = tret t'" "tab_ok t'" "asize t' = nasize + 1"
    "\<And>k. good_key k \<Longrightarrow> lookup t' k = lookup t k"
proof -
  let ?hb = "if hmask t > 0 then fls_nat (hmask t) + 1 else 0"
  obtain b where b: "b \<le> LJ_MAX_HBITS" "length (t_node t) = 2 ^ b" using assms(1) by (auto simp: tab_ok_def)
  have "spill t (nasize + 1) \<le> (if ?hb = 0 then 0 else 2 ^ ?hb)"
  proof (cases "hmask t > 0")
    case True
    have "length (node_entries (t_node t)) \<le> 2 ^ b" unfolding b(2) [symmetric] by (simp add: node_entries_def)
    with spill_grow [OF assms] hmask_bits [OF b(2) True] True show ?thesis by auto
  next
    case False
    with tab_okD(2) [OF assms(1)] have "node_entries (t_node t) = []" by (simp add: node_entries_def empty_node_def)
    with spill_grow [OF assms] False show ?thesis by simp
  qed
  moreover have "?hb \<le> LJ_MAX_HBITS" using b hmask_bits [OF b(2)] by auto
  ultimately show thesis
    using resizetab_ok [OF assms(1,3), of ?hb d] that unfolding lj_tab_reasize_def by blast
qed

lemma Suc_hmask: "tab_ok t \<Longrightarrow> Suc (hmask t) = length (t_node t)"
  using hashkey_bound [of t T_nil] by (simp add: hmask_def)

text \<open>A duplicate is the table itself, with the cache of absent metamethods invalidated.\<close>

lemma lj_tab_dup_copy:
  assumes "tab_ok t"
  shows "lj_tab_dup t = tret (t\<lparr>t_nomm := 0\<rparr>)"
proof -
  obtain b where b: "b \<le> LJ_MAX_HBITS" "length (t_node t) = 2 ^ b" using assms by (auto simp: tab_ok_def)
  have n: "map (\<lambda>i. t_node t ! i) [0..<Suc (hmask t)] = t_node t"
    unfolding Suc_hmask [OF assms] by (rule map_nth)
  have a: "map (\<lambda>i. t_array t ! i) [0..<asize t] = t_array t" unfolding asize_def by (rule map_nth)
  note as = tab_okD(1) [OF assms]
  show ?thesis
  proof (cases "hmask t > 0")
    case True
    with n a as b hmask_bits [OF b(2) True] show ?thesis
      by (simp add: lj_tab_dup_def lj_tab_new_def newhpart_fresh fresh_def asize_def Let_def del: upt_Suc)
  next
    case False
    with tab_okD(2) [OF assms] a as show ?thesis
      by (cases t) (simp add: lj_tab_dup_def lj_tab_new_def newhpart_fresh fresh_def asize_def Let_def)
  qed
qed

text \<open>
  Rehashing a table, and growing its array part to hold the indices up to a number, keep the invariant
  and the value of every key, and a grown array part has the size asked for.
\<close>

theorem lj_tab_resize_keeps:
  assumes "tab_ok t" "depth \<ge> 1" "length (entries t) < 2 ^ LJ_MAX_HBITS" "asize t \<le> nasize + 1" "nasize + 1 \<le> LJ_MAX_ASIZE"
  shows "(\<exists>t'. lj_tab_rehash depth t = tret t' \<and> tab_ok t' \<and> (\<forall>k. lj_tab_get t' k = lj_tab_get t k)) \<and>
    (\<exists>t'. lj_tab_reasize depth t nasize = tret t' \<and> tab_ok t' \<and> asize t' = nasize + 1 \<and> (\<forall>k. lj_tab_get t' k = lj_tab_get t k))"
proof -
  obtain d where d: "depth = Suc d" using assms(2) by (cases depth) auto
  have "\<exists>t'. lj_tab_rehash depth t = tret t' \<and> tab_ok t' \<and> (\<forall>k. lj_tab_get t' k = lj_tab_get t k)"
    using assms(1)
  proof (cases rule: rehashtab_ok [where d = d and ek = T_nil])
    case (rehashed t')
    with same_contents [OF assms(1) rehashed(2,3)] show ?thesis by (simp add: lj_tab_rehash_def d)
  qed (use assms(3) in simp)
  moreover obtain t' where t': "lj_tab_reasize (Suc d) t nasize = tret t'" "tab_ok t'" "asize t' = nasize + 1"
    "\<And>k. good_key k \<Longrightarrow> lookup t' k = lookup t k"
    by (rule reasize_ok [OF assms(1,4,5)]) (rule that)
  ultimately show ?thesis using same_contents [OF assms(1) t'(2,4)] d by blast
qed

theorem lj_tab_resize_keeps_witness:
  "(\<exists>t'. lj_tab_rehash 1 empty_table = tret t' \<and> tab_ok t' \<and> (\<forall>k. lj_tab_get t' k = lj_tab_get empty_table k)) \<and>
    (\<exists>t'. lj_tab_reasize 1 empty_table 3 = tret t' \<and> tab_ok t' \<and> asize t' = 3 + 1 \<and> (\<forall>k. lj_tab_get t' k = lj_tab_get empty_table k))"
  by (rule lj_tab_resize_keeps) (simp_all add: empty_table_ok, simp_all add: empty_table_def asize_def)

end
