(* ===== verification/Lj_Tab_Walk.thy ===== *)
theory Lj_Tab_Walk
  imports Lj_Tab_Ops
begin

text \<open>
  Traversing a table visits its entries, each once, and the length of a table is a border of it.
\<close>

subsection \<open>Traversal\<close>

text \<open>The places of a table: the indices of the array, then the nodes.\<close>

definition place :: "GCtab \<Rightarrow> nat \<Rightarrow> TValue \<times> TValue" where
  "place t j =
     (if j < asize t then (T_num (num_of_int (int j)), t_array t ! j)
      else (n_key (t_node t ! (j - asize t)), n_val (t_node t ! (j - asize t))))"

abbreviation places :: "GCtab \<Rightarrow> nat \<Rightarrow> nat list" where
  "places t i \<equiv> filter (\<lambda>j. snd (place t j) \<noteq> T_nil) [i..<asize t + length (t_node t)]"

lemma upt_shift: "[a + i..<a + n] = map (\<lambda>j. a + j) [i..<n]" for a :: nat
  by (rule nth_equalityI) auto

lemma entries_places: "entries t = map (place t) (places t 0)"
proof -
  have "filter (\<lambda>j. snd (place t j) \<noteq> T_nil) [0..<asize t] = filter (\<lambda>j. t_array t ! j \<noteq> T_nil) [0..<asize t]"
    by (intro filter_cong) (simp_all add: place_def)
  then have 1: "map (place t) (filter (\<lambda>j. snd (place t j) \<noteq> T_nil) [0..<asize t]) = arr_entries 0 (t_array t)"
    unfolding arr_entries_def asize_def by (auto simp: place_def asize_def)
  have sh: "[asize t..<asize t + length (t_node t)] = map (\<lambda>j. asize t + j) [0..<length (t_node t)]"
    using upt_shift [of "asize t" 0] by simp
  have 2: "map (place t) (filter (\<lambda>j. snd (place t j) \<noteq> T_nil) [asize t..<asize t + length (t_node t)]) = node_entries (t_node t)"
    unfolding sh filter_map node_entries_def filter_by_index [of _ "t_node t"] by (simp add: o_def place_def)
  show ?thesis unfolding entries_def 1 [symmetric] 2 [symmetric]
    by (subst upt_add_eq_append) simp_all
qed

lemma find_filter: "find P xs = (case filter P xs of [] \<Rightarrow> None | x # _ \<Rightarrow> Some x)"
  by (induction xs) auto

lemma next_entry_places:
  assumes "tab_ok t"
  shows "next_entry t i = (case places t i of [] \<Rightarrow> None | j # _ \<Rightarrow> Some (place t j))"
proof -
  let ?a = "asize t" and ?n = "length (t_node t)"
  note n = Suc_hmask [OF assms]
  let ?arr = "filter (\<lambda>j. t_array t ! j \<noteq> T_nil) [i..<?a]"
    and ?hsh = "filter (\<lambda>j. n_val (t_node t ! j) \<noteq> T_nil) [max i ?a - ?a..<?n]"
  have "[i..<?a + ?n] = [i..<?a] @ map (\<lambda>j. ?a + j) [max i ?a - ?a..<?n]"
  proof (cases "i \<le> ?a")
    case True
    have "[?a..<?a + ?n] = map (\<lambda>j. ?a + j) [0..<?n]" using upt_shift [of ?a 0 ?n] by simp
    with True show ?thesis by (subst upt_add_eq_append) (simp_all add: max_def)
  next
    case False
    with upt_shift [of ?a "i - ?a" ?n] show ?thesis by (simp add: max_def)
  qed
  moreover have "filter (\<lambda>j. snd (place t j) \<noteq> T_nil) [i..<?a] = ?arr"
    by (intro filter_cong) (simp_all add: place_def)
  ultimately have p: "places t i = ?arr @ map (\<lambda>j. ?a + j) ?hsh"
    by (simp add: filter_map o_def place_def)
  show ?thesis
  proof (cases ?arr)
    case (Cons j js)
    then have "j \<in> set ?arr" by simp
    then have "j < ?a" by simp
    with Cons show ?thesis unfolding p next_entry_def find_filter by (simp add: place_def)
  next
    case Nil
    show ?thesis unfolding p Nil unfolding next_entry_def find_filter n Nil
      by (simp add: place_def split: list.split)
  qed
qed
lemma table_extent:
  assumes "tab_ok t"
  shows "asize t + length (t_node t) < 2 ^ 28"
proof -
  obtain b where b: "b \<le> LJ_MAX_HBITS" "length (t_node t) = 2 ^ b" using assms by (auto simp: tab_ok_def)
  have "(2 :: nat) ^ b \<le> 2 ^ LJ_MAX_HBITS" using b(1) by (intro power_increasing) auto
  with b(2) tab_okD(1) [OF assms] show ?thesis by simp
qed

text \<open>The traversal index of the key at a place is the place.\<close>

lemma keyindex_place:
  assumes "tab_ok t" "j < asize t + length (t_node t)" "snd (place t j) \<noteq> T_nil"
  shows "keyindex t (fst (place t j)) = tret j"
proof (cases "j < asize t")
  case True
  have i: "int32 (int j)" using True tab_okD(1) [OF assms(1)] by simp
  from True inarray_int32 [OF i tab_okD(1) [OF assms(1)]] num2int_num_of_int [OF i] unat_int32 [OF i] show ?thesis
    by (simp add: place_def keyindex_def)
next
  case False
  let ?n = "j - asize t"
  let ?k = "n_key (t_node t ! ?n)"
  have n: "?n < length (t_node t)" using assms(2) False by simp
  have e: "empties_ok (t_node t)" using tab_okD(3) [OF assms(1)] by (simp add: nodes_ok_def)
  have k: "?k \<noteq> T_nil" using empties_okD [OF e n] assms(3) False by (auto simp: place_def)
  from tab_okD(6) [OF assms(1) n k] have good: "good_key ?k" and out: "arr_index t ?k = None" by auto
  have "\<not> lj_obj_equal T_nil ?k" using k by (auto simp: lj_obj_equal_def)
  from chain_find_table [OF assms(1) good, of "\<lambda>k'. lj_obj_equal k' ?k"] this lj_obj_equal_good [OF _ good]
  consider i where "i < length (t_node t)" "n_key (t_node t ! i) = ?k"
      "chain_find (t_node t) (\<lambda>k'. lj_obj_equal k' ?k) (hashkey t ?k) = Some (Some i)"
    | "\<not> has_key (t_node t) ?k" by blast
  then have gl: "genlookup t ?k = Some (Some (Hsh ?n))"
  proof cases
    case (1 i)
    with tab_okD(5) [OF assms(1)] n k have "i = ?n" unfolding keys_distinct_def by metis
    with 1 show ?thesis by (simp add: genlookup_def)
  next
    case 2
    with n show ?thesis by (auto simp: has_key_def)
  qed
  have na: "\<not> inarray t i" if "?k = T_num w" "num2int w = Some i" for w i
    using out that inarray_int32 [OF _ tab_okD(1) [OF assms(1)], of i] num2int_Some [OF that(2)] by (auto simp: arr_index_def)
  have "fst (place t j) = ?k" using False by (simp add: place_def)
  then show ?thesis
    using gl k na False by (cases ?k) (auto simp: keyindex_def Let_def split: option.split)
qed

lemma lj_tab_next_places:
  assumes "tab_ok t"
  shows "lj_tab_next t T_nil = tret (next_entry t 0)"
    and "j \<in> set (places t i) \<Longrightarrow> lj_tab_next t (fst (place t j)) = tret (next_entry t (Suc j))"
proof -
  show "lj_tab_next t T_nil = tret (next_entry t 0)" by (simp add: lj_tab_next_def keyindex_def)
  assume "j \<in> set (places t i)"
  then have j: "j < asize t + length (t_node t)" "snd (place t j) \<noteq> T_nil" by auto
  with table_extent [OF assms] have "(j + 1) mod 2 ^ 32 = Suc j" by simp
  with keyindex_place [OF assms j] show "lj_tab_next t (fst (place t j)) = tret (next_entry t (Suc j))"
    by (simp add: lj_tab_next_def)
qed

lemma places_Cons:
  assumes "places t i = j # js"
  shows "places t (Suc j) = js"
proof -
  from assms obtain us vs where s: "[i..<asize t + length (t_node t)] = us @ j # vs" "js = filter (\<lambda>j. snd (place t j) \<noteq> T_nil) vs"
    by (auto simp: filter_eq_Cons_iff)
  have l: "length us < length [i..<asize t + length (t_node t)]" unfolding s(1) by simp
  have "vs = drop (Suc (length us)) [i..<asize t + length (t_node t)]" "j = [i..<asize t + length (t_node t)] ! length us"
    unfolding s(1) by simp_all
  then have "vs = [Suc j..<asize t + length (t_node t)]" using l by simp
  with s(2) show ?thesis by simp
qed

text \<open>A loop over a table, as \<open>pairs\<close> and \<open>lua_next\<close> run it: from a key until there is no next one.\<close>

fun traverse :: "nat \<Rightarrow> GCtab \<Rightarrow> TValue \<Rightarrow> (TValue \<times> TValue) list tres" where
  "traverse 0 t key = None"
| "traverse (Suc n) t key = tbind (lj_tab_next t key) (\<lambda>r. case r of
     None \<Rightarrow> tret []
   | Some (k, v) \<Rightarrow> tbind (traverse n t k) (\<lambda>kvs. tret ((k, v) # kvs)))"

lemma traverse_places:
  assumes "tab_ok t" "lj_tab_next t k = tret (next_entry t i)" "n > length (places t i)"
  shows "traverse n t k = tret (map (place t) (places t i))"
  using assms(2,3)
proof (induction n arbitrary: k i)
  case (Suc n)
  show ?case
  proof (cases "places t i")
    case Nil
    with Suc.prems(1) next_entry_places [OF assms(1), of i] show ?thesis by simp
  next
    case (Cons j js)
    note js = places_Cons [OF Cons]
    have j: "j \<in> set (places t i)" using Cons by simp
    obtain k' v where kv: "place t j = (k', v)" by fastforce
    have "traverse n t k' = tret (map (place t) js)"
      using Suc.IH [OF lj_tab_next_places(2) [OF assms(1) j]] Suc.prems(2) Cons js kv by simp
    with Cons kv Suc.prems(1) next_entry_places [OF assms(1), of i] show ?thesis by simp
  qed
qed simp

text \<open>
  C28: a traversal that starts with nil and goes from each key to the next one visits every entry of the
  table exactly once, the array part in order and then the nodes in order, and ends.
\<close>

theorem lj_tab_next_visits:
  assumes "tab_ok t" "n > length (entries t)"
  shows "traverse n t T_nil = tret (entries t) \<and> distinct (map fst (entries t)) \<and>
    (\<forall>k v. good_key k \<longrightarrow> v \<noteq> T_nil \<longrightarrow> ((k, v) \<in> set (entries t) \<longleftrightarrow> lj_tab_get t k = Some v))"
proof -
  have "traverse n t T_nil = tret (entries t)"
    using traverse_places [OF assms(1) lj_tab_next_places(1) [OF assms(1)]] assms(2) by (simp add: entries_places)
  then show ?thesis
    using distinct_entries [OF assms(1)] entries_lookup [OF assms(1)] lj_tab_get_lookup [OF assms(1)] by simp
qed

definition sample_table :: GCtab where
  "sample_table = \<lparr>t_nomm = 0, t_array = [T_nil, T_bool True], t_node = [empty_node], t_freetop = 0\<rparr>"

lemma sample_table_ok: "tab_ok sample_table" "entries sample_table = [(T_num (num_of_int 1), T_bool True)]"
proof -
  have s: "sample_table = fresh sample_table 0" by (simp add: fresh_def sample_table_def)
  show "tab_ok sample_table" by (subst s, rule fresh_ok) (simp_all add: sample_table_def asize_def)
  show "entries sample_table = [(T_num (num_of_int 1), T_bool True)]"
    by (simp add: sample_table_def entries_def arr_entries_Cons node_entries_def empty_node_def) (simp add: arr_entries_def)
qed

theorem lj_tab_next_visits_witness:
  "traverse 2 sample_table T_nil = tret [(T_num (num_of_int 1), T_bool True)]"
  using lj_tab_next_visits [of sample_table 2] by (simp add: sample_table_ok)
subsection \<open>Length\<close>

lemma binary_search_border:
  assumes "\<And>m. i < m \<Longrightarrow> m < j \<Longrightarrow> p m = Some (P m)" "i < j" "\<not> P j"
  shows "\<exists>n. binary_search p i j = Some n \<and> i \<le> n \<and> n < j \<and> (n = i \<or> P n) \<and> \<not> P (Suc n)"
  using assms
proof (induction p i j rule: binary_search.induct)
  case (1 p i j)
  let ?m = "(i + j) div 2"
  show ?case
  proof (cases "j - i > 1")
    case True
    then have m: "i < ?m" "?m < j" by auto
    note pm = 1(3) [OF m]
    show ?thesis
    proof (cases "P ?m")
      case yes: True
      have "\<exists>n. binary_search p ?m j = Some n \<and> ?m \<le> n \<and> n < j \<and> (n = ?m \<or> P n) \<and> \<not> P (Suc n)"
        by (rule 1(1) [OF True refl pm yes]) (use 1(3,5) m in auto)
      with yes True pm m show ?thesis by (subst binary_search.simps) (auto simp: Let_def)
    next
      case no: False
      have "\<exists>n. binary_search p i ?m = Some n \<and> i \<le> n \<and> n < ?m \<and> (n = i \<or> P n) \<and> \<not> P (Suc n)"
        by (rule 1(2) [OF True refl pm no]) (use 1(3) m no in auto)
      with no True pm m show ?thesis by (subst binary_search.simps) (auto simp: Let_def)
    qed
  next
    case False
    then have "j = Suc i" using 1(4) by simp
    with 1(5) show ?thesis by (subst binary_search.simps) simp
  qed
qed

text \<open>Whether an integer index has a value, and the borders of a table.\<close>

definition present :: "GCtab \<Rightarrow> nat \<Rightarrow> bool" where
  "present t j \<longleftrightarrow> lookup t (T_num (num_of_int (int j))) \<noteq> T_nil"

definition border :: "GCtab \<Rightarrow> nat \<Rightarrow> bool" where
  "border t n \<longleftrightarrow> n < INT_MAX \<and> (n = 0 \<or> present t n) \<and> \<not> present t (Suc n)"

lemma int_present_present:
  assumes "tab_ok t" "j < 2 ^ 31"
  shows "int_present t j = Some (present t j)"
proof -
  have i: "int32 (int j)" using assms(2) by simp
  have "sint (of_nat j :: 32 word) = int j"
    using assms(2) by (simp add: signed_of_nat signed_take_bit_int_eq_self)
  moreover have "lj_tab_get t (T_num (num_of_int (int j))) = Some (lookup t (T_num (num_of_int (int j))))"
    by (rule lj_tab_get_lookup [OF assms(1) num_of_int_good [OF i]])
  ultimately show ?thesis
    using num2int_num_of_int [OF i] by (auto simp: int_present_def lj_tab_get_def get_slot_def present_def split: option.splits)
qed

lemma present_array: "tab_ok t \<Longrightarrow> j < asize t \<Longrightarrow> present t j \<longleftrightarrow> t_array t ! j \<noteq> T_nil"
  using arr_index_num [of j t] tab_okD(1) [of t] by (simp add: present_def lookup_def)

lemma num_of_int_inj: "num_of_int i = num_of_int j \<Longrightarrow> int32 i \<Longrightarrow> int32 j \<Longrightarrow> i = j"
  by (metis num2int_num_of_int option.inject)

lemma absent_index:
  assumes "tab_ok t"
  obtains a where "0 < a" "a \<le> 2 ^ 28" "\<not> present t a" "\<And>m. 0 < m \<Longrightarrow> m < a \<Longrightarrow> present t m"
proof -
  let ?key = "\<lambda>j. T_num (num_of_int (int j))" and ?N = "asize t + length (t_node t)"
  have "\<exists>a. 0 < a \<and> a \<le> Suc ?N \<and> \<not> present t a"
  proof (rule ccontr)
    assume "\<not> ?thesis"
    then have all: "0 < a \<Longrightarrow> a \<le> Suc ?N \<Longrightarrow> present t a" for a by blast
    have i32: "int32 (int a)" if "a \<le> Suc ?N" for a using that table_extent [OF assms] by simp
    have "inj_on ?key {1..Suc ?N}"
    proof (rule inj_onI)
      fix x y
      assume "x \<in> {1..Suc ?N}" "y \<in> {1..Suc ?N}" "?key x = ?key y"
      then have "int x = int y" by (intro num_of_int_inj i32) auto
      then show "x = y" by simp
    qed
    then have "Suc ?N = card (?key ` {1..Suc ?N})" by (simp add: card_image)
    also have "\<dots> \<le> card {k. good_key k \<and> lookup t k \<noteq> T_nil}"
    proof (intro card_mono entries_card(2) [OF assms] image_subsetI)
      fix x
      assume "x \<in> {1..Suc ?N}"
      with all [of x] num_of_int_good [OF i32, of x] show "?key x \<in> {k. good_key k \<and> lookup t k \<noteq> T_nil}"
        by (simp add: present_def)
    qed
    also have "\<dots> \<le> ?N"
      unfolding entries_card(1) [OF assms, symmetric] entries_places length_map
      by (rule le_trans [OF length_filter_le]) simp
    finally show False by simp
  qed
  then have ex: "\<exists>a. 0 < a \<and> \<not> present t a" and "\<exists>a. 0 < a \<and> a \<le> Suc ?N \<and> \<not> present t a" by blast+
  define a where "a = (LEAST a. 0 < a \<and> \<not> present t a)"
  show thesis
  proof (rule that [of a])
    show "0 < a" "\<not> present t a" using LeastI_ex [OF ex] by (simp_all add: a_def)
    show "present t m" if "0 < m" "m < a" for m using not_less_Least [of m "\<lambda>a. 0 < a \<and> \<not> present t a"] that by (simp add: a_def)
    from \<open>\<exists>a. 0 < a \<and> a \<le> Suc ?N \<and> \<not> present t a\<close> obtain b where "0 < b" "b \<le> Suc ?N" "\<not> present t b" by blast
    then have "a \<le> Suc ?N" using Least_le [of "\<lambda>a. 0 < a \<and> \<not> present t a" b] by (simp add: a_def)
    with table_extent [OF assms] show "a \<le> 2 ^ 28" by simp
  qed
qed

lemma linear_search_border:
  assumes "tab_ok t" "0 < a" "a \<le> 2 ^ 28" "\<not> present t a" "\<And>m. 0 < m \<Longrightarrow> m < a \<Longrightarrow> present t m" "0 < i" "i \<le> a"
  shows "linear_search t i = Some (a - 1)"
  using assms(6,7)
proof (induction "a - i" arbitrary: i)
  case 0
  then have "i = a" by simp
  with int_present_present [OF assms(1), of a] assms(3,4) show ?case by (subst linear_search.simps) simp
next
  case (Suc d)
  then have i: "i < a" "present t i" "(i + 1) mod 2 ^ 32 = Suc i" using assms(3,5) by auto
  have "linear_search t (Suc i) = Some (a - 1)" using Suc by (intro Suc.hyps(1)) auto
  with i int_present_present [OF assms(1), of i] assms(3) show ?case by (subst linear_search.simps) simp
qed

lemma linear_search_ok:
  assumes "tab_ok t"
  obtains n where "linear_search t 1 = Some n" "border t n"
proof -
  obtain a where a: "0 < a" "a \<le> 2 ^ 28" "\<not> present t a" "\<And>m. 0 < m \<Longrightarrow> m < a \<Longrightarrow> present t m"
    by (rule absent_index [OF assms]) (rule that)
  have "linear_search t 1 = Some (a - 1)" by (rule linear_search_border [OF assms a]) (use a(1) in simp_all)
  moreover have "border t (a - 1)" using a(1-3) a(4) [of "a - 1"] by (cases "a = 1") (auto simp: border_def)
  ultimately show thesis by (rule that)
qed

lemma unbound_search_loop_ok:
  assumes "tab_ok t" "i = 0 \<or> present t i" "i < j" "j \<le> INT_MAX - 2"
  shows "\<exists>n. unbound_search_loop t i j = Some n \<and> border t n"
  using assms(2-4)
proof (induction "INT_MAX - j" arbitrary: i j rule: less_induct)
  case less
  note ip = int_present_present [OF assms(1)]
  show ?case
  proof (cases "present t j")
    case True
    show ?thesis
    proof (cases "j * 2 > INT_MAX - 2")
      case big: True
      from linear_search_ok [OF assms(1)] obtain n where "linear_search t 1 = Some n" "border t n" .
      with True big ip [of j] less.prems show ?thesis by (subst unbound_search_loop.simps) simp
    next
      case False
      have "\<exists>n. unbound_search_loop t j (j * 2) = Some n \<and> border t n"
        using less.prems False True by (intro less.hyps) auto
      with True False ip [of j] less.prems show ?thesis by (subst unbound_search_loop.simps) simp
    qed
  next
    case False
    have "\<exists>n. binary_search (int_present t) i j = Some n \<and> i \<le> n \<and> n < j \<and> (n = i \<or> present t n) \<and> \<not> present t (Suc n)"
      using less.prems False by (intro binary_search_border ip) auto
    with False ip [of j] less.prems show ?thesis by (subst unbound_search_loop.simps) (auto simp: border_def)
  qed
qed

lemma array_search_ok:
  assumes "tab_ok t" "asize t > 1" "t_array t ! (asize t - 1) = T_nil"
  obtains n where "binary_search (\<lambda>m. Some (t_array t ! (m - 1) \<noteq> T_nil)) 1 (asize t) = Some n" "border t (n - 1)"
proof -
  let ?P = "\<lambda>m. t_array t ! (m - 1) \<noteq> T_nil"
  from binary_search_border [of 1 "asize t" "\<lambda>m. Some (?P m)" ?P] assms(2,3) obtain n where
    n: "binary_search (\<lambda>m. Some (?P m)) 1 (asize t) = Some n" "1 \<le> n" "n < asize t" "n = 1 \<or> ?P n" "\<not> ?P (Suc n)" by auto
  have "n - 1 < asize t" using n(3) by simp
  with n present_array [OF assms(1), of "n - 1"] present_array [OF assms(1), of n] tab_okD(1) [OF assms(1)] have "border t (n - 1)"
    by (auto simp: border_def)
  with n(1) that show thesis by blast
qed

lemma lj_tab_len_ok:
  assumes "tab_ok t"
  obtains n where "lj_tab_len t = Some n" "border t n"
proof -
  let ?j = "asize t"
  have last: "?j - 1 = 0 \<or> present t (?j - 1)" if "\<not> (?j > 1 \<and> t_array t ! (?j - 1) = T_nil)"
    using that present_array [OF assms, of "?j - 1"] by (cases "?j > 1") auto
  consider "?j > 1 \<and> t_array t ! (?j - 1) = T_nil" | "\<not> (?j > 1 \<and> t_array t ! (?j - 1) = T_nil)" "hmask t = 0"
    | "\<not> (?j > 1 \<and> t_array t ! (?j - 1) = T_nil)" "hmask t \<noteq> 0" by blast
  then show thesis
  proof cases
    case 1
    then obtain n where "binary_search (\<lambda>m. Some (t_array t ! (m - 1) \<noteq> T_nil)) 1 ?j = Some n" "border t (n - 1)"
      using array_search_ok [OF assms] by blast
    with 1 show thesis by (intro that [of "n - 1"]) (simp_all add: lj_tab_len_def)
  next
    case 2
    have ns: "t_node t = [empty_node]" using tab_okD(2) [OF assms 2(2)] by simp
    have "\<not> present t (Suc (?j - 1))"
    proof -
      have "int32 (int (Suc (?j - 1)))" using tab_okD(1) [OF assms] by simp
      from arr_index_num [OF this] have "?j > 0 \<Longrightarrow> arr_index t (T_num (num_of_int (int (Suc (?j - 1))))) = None" by simp
      moreover have "arr_index t k = None" if "?j = 0" for k using that arr_index_bound [of t k] by (cases "arr_index t k") auto
      ultimately show ?thesis by (cases "?j = 0") (simp_all add: present_def lookup_def ns val_of_def empty_node_def)
    qed
    with last [OF 2(1)] tab_okD(1) [OF assms] have "border t (?j - 1)" by (simp add: border_def)
    with 2 show thesis by (intro that [of "?j - 1"]) (auto simp: lj_tab_len_def Let_def)
  next
    case 3
    have "\<exists>n. unbound_search_loop t (?j - 1) (?j - 1 + 1) = Some n \<and> border t n"
      using last [OF 3(1)] tab_okD(1) [OF assms] by (intro unbound_search_loop_ok [OF assms]) auto
    with 3 that show thesis by (auto simp: lj_tab_len_def unbound_search_def Let_def)
  qed
qed

lemma present_get:
  assumes "tab_ok t" "j < 2 ^ 31"
  shows "present t j \<longleftrightarrow> lj_tab_get t (T_num (num_of_int (int j))) \<noteq> Some T_nil"
proof -
  have "good_key (T_num (num_of_int (int j)))" by (rule num_of_int_good) (use assms(2) in simp)
  from lj_tab_get_lookup [OF assms(1) this] show ?thesis by (simp add: present_def)
qed

text \<open>
  The length operator ends on every table and returns a border of it: an index \<open>n\<close> such that \<open>t[n]\<close> is not nil,
  or \<open>n = 0\<close>, and \<open>t[n + 1]\<close> is nil.
\<close>

theorem lj_tab_len_border:
  assumes "tab_ok t"
  shows "\<exists>n. lj_tab_len t = Some n \<and> (n = 0 \<or> lj_tab_get t (T_num (num_of_int (int n))) \<noteq> Some T_nil) \<and>
    lj_tab_get t (T_num (num_of_int (int (Suc n)))) = Some T_nil"
proof -
  obtain n where n: "lj_tab_len t = Some n" "border t n" by (rule lj_tab_len_ok [OF assms]) (rule that)
  have "n < 2 ^ 31" "Suc n < 2 ^ 31" using n(2) by (simp_all add: border_def)
  with n present_get [OF assms, of n] present_get [OF assms, of "Suc n"] show ?thesis
    unfolding border_def by blast
qed

theorem lj_tab_len_border_witness:
  "\<exists>n. lj_tab_len sample_table = Some n \<and> (n = 0 \<or> lj_tab_get sample_table (T_num (num_of_int (int n))) \<noteq> Some T_nil) \<and>
    lj_tab_get sample_table (T_num (num_of_int (int (Suc n)))) = Some T_nil"
  by (rule lj_tab_len_border [OF sample_table_ok(1)])

end
