(* ===== verification/Lj_Str.thy ===== *)
theory Lj_Str
  imports Lj_Tab
begin

text \<open>
  \<open>lj_str.c\<close>: comparison and interning of strings, printing of numbers, and formatted messages. The two
  comparisons read words of four bytes and so up to three bytes behind the end of a string; the
  bytes there are an argument of the model. The string table is a list of chains of objects; an
  object carries its address. Allocation succeeds, and the marks of the garbage collector are left
  out, except that a string table is not resized while it is being swept.
\<close>

subsection \<open>Comparison\<close>

text \<open>The bytes of a word in the opposite order.\<close>

definition lj_bswap :: "32 word \<Rightarrow> 32 word" where
  "lj_bswap x =
     push_bit 24 x OR push_bit 8 (x AND 0xff00) OR (drop_bit 8 x AND 0xff00) OR drop_bit 24 x"

text \<open>
  Bytes of both strings with what follows them, their lengths, the shorter length, and the index.
\<close>

function str_cmp_loop :: "string \<Rightarrow> string \<Rightarrow> nat \<Rightarrow> nat \<Rightarrow> nat \<Rightarrow> nat \<Rightarrow> 32 word" where
  "str_cmp_loop a b la lb n i =
     (if i < n then
        let va = lj_getu32 a i; vb = lj_getu32 b i in
        if va \<noteq> vb then
          let va1 = lj_bswap va; vb1 = lj_bswap vb; j = of_nat i - of_nat n :: 32 word in
          if sint j \<ge> -3 then
            let sh = unat (32 + push_bit 3 j); va2 = drop_bit sh va1; vb2 = drop_bit sh vb1
            in if va2 = vb2 then of_nat la - of_nat lb else if va2 < vb2 then -1 else 1
          else if va1 < vb1 then -1 else 1
        else str_cmp_loop a b la lb n (i + 4)
      else of_nat la - of_nat lb)"
  by auto
termination by (relation "measure (\<lambda>(a, b, la, lb, n, i). n - i)") auto

declare str_cmp_loop.simps [simp del]

definition lj_str_cmp :: "string \<times> string \<Rightarrow> string \<times> string \<Rightarrow> 32 word" where
  "lj_str_cmp a b =
     str_cmp_loop (fst a @ snd a) (fst b @ snd b) (length (fst a)) (length (fst b))
       (if length (fst a) > length (fst b) then length (fst b) else length (fst a)) 0"

function str_fastcmp_loop :: "string \<Rightarrow> string \<Rightarrow> nat \<Rightarrow> nat \<Rightarrow> 32 word" where
  "str_fastcmp_loop a b len i =
     (let v = lj_getu32 a i XOR lj_getu32 b i in
      if v \<noteq> 0 then
        let j = of_nat i - of_nat len :: 32 word
        in if sint j \<ge> -3 then push_bit (unat (32 + push_bit 3 j)) v else 1
      else if i + 4 < len then str_fastcmp_loop a b len (i + 4) else 0)"
  by auto
termination by (relation "measure (\<lambda>(a, b, len, i). len - i)") auto

declare str_fastcmp_loop.simps [simp del]

definition str_fastcmp :: "string \<Rightarrow> string \<Rightarrow> nat \<Rightarrow> 32 word" where
  "str_fastcmp a b len = str_fastcmp_loop a b len 0"

subsection \<open>Interning\<close>

record GCstr =
  s_addr :: nat
  s_hash :: "32 word"
  s_data :: string
  s_behind :: string

record strtab =
  g_strhash :: "GCstr list list"
  g_strmask :: "32 word"
  g_strnum :: "32 word"
  g_sweeping :: bool
  g_alloc :: nat

abbreviation LJ_MAX_STRTAB :: "32 word" where "LJ_MAX_STRTAB \<equiv> 0x4000000"
abbreviation LJ_MIN_STRTAB :: "32 word" where "LJ_MIN_STRTAB \<equiv> 256"
abbreviation LJ_MAX_STR :: nat where "LJ_MAX_STR \<equiv> 0x7fffff00"

text \<open>Before the first resize there is no table; the mask is all ones.\<close>

definition strtab_init :: strtab where
  "strtab_init = \<lparr>g_strhash = [], g_strmask = -1, g_strnum = 0, g_sweeping = False, g_alloc = 1\<rparr>"

text \<open>An object at the head of its chain.\<close>

definition chain_push :: "32 word \<Rightarrow> GCstr \<Rightarrow> GCstr list list \<Rightarrow> GCstr list list" where
  "chain_push mk s hs = hs[unat (s_hash s AND mk) := s # hs ! unat (s_hash s AND mk)]"

definition lj_str_resize :: "strtab \<Rightarrow> 32 word \<Rightarrow> strtab" where
  "lj_str_resize g newmask =
     (if g_sweeping g \<or> newmask \<ge> LJ_MAX_STRTAB - 1 then g
      else g\<lparr>g_strhash := fold (chain_push newmask) (concat (rev (g_strhash g))) (replicate (Suc (unat newmask)) []),
             g_strmask := newmask\<rparr>)"

text \<open>The empty string is an object of the global state, outside the table.\<close>

definition strempty :: GCstr where
  "strempty = \<lparr>s_addr = 0, s_hash = 0, s_data = [], s_behind = [CHR 0x00]\<rparr>"

text \<open>
  \<open>str\<close> is followed by the bytes \<open>after\<close> in memory; \<open>near_page\<close> tells that its end is close to a page boundary, so
  that the bytes must not be read; \<open>junk\<close> is what the memory behind a new object holds.
\<close>

definition lj_str_new :: "bool \<Rightarrow> string \<Rightarrow> string \<Rightarrow> strtab \<Rightarrow> string \<Rightarrow> (GCstr \<times> strtab) option" where
  "lj_str_new near_page after junk g str =
     (if length str \<ge> LJ_MAX_STR then None
      else if str = [] then Some (strempty, g)
      else
        let h = str_hash str;
            same = (\<lambda>sx. length (s_data sx) = length str \<and>
              (if near_page then s_data sx = str else str_fastcmp (str @ after) (s_data sx @ s_behind sx) (length str) = 0))
        in case find same (g_strhash g ! unat (h AND g_strmask g)) of
             Some sx \<Rightarrow> Some (sx, g)
           | None \<Rightarrow>
               let s = \<lparr>s_addr = g_alloc g, s_hash = h, s_data = str, s_behind = CHR 0x00 # junk\<rparr>;
                   g1 = g\<lparr>g_strhash := chain_push (g_strmask g) s (g_strhash g), g_strnum := g_strnum g + 1, g_alloc := Suc (g_alloc g)\<rparr>
               in Some (s, if g_strnum g > g_strmask g then lj_str_resize g1 (push_bit 1 (g_strmask g) + 1) else g1))"

text \<open>The collector has taken the object out of its chain when it frees it.\<close>

definition lj_str_free :: "strtab \<Rightarrow> strtab" where
  "lj_str_free g = g\<lparr>g_strnum := g_strnum g - 1\<rparr>"

subsection \<open>Type conversions\<close>

text \<open>\<open>numfmt\<close> is \<open>sprintf\<close> with the format \<open>LUA_NUMBER_FMT\<close>.\<close>

definition lj_str_bufnum :: "(64 word \<Rightarrow> string) \<Rightarrow> 64 word \<Rightarrow> string" where
  "lj_str_bufnum numfmt w =
     (let hi = ucast (drop_bit 32 w) :: 32 word; lo = ucast w :: 32 word in
      if push_bit 1 hi < 0xffe00000 then numfmt w
      else if (hi AND 0x000fffff) OR lo \<noteq> 0 then ''nan''
      else if hi AND 0x80000000 = 0 then ''inf''
      else ''-inf'')"

lemma unat_div_less: "u div 10 \<noteq> 0 \<Longrightarrow> unat (u div 10) < unat u" for u :: "32 word"
  by (cases "u = 0") (simp_all add: unat_div unat_gt_0)

function bufint_loop :: "32 word \<Rightarrow> string \<Rightarrow> string" where
  "bufint_loop u p =
     (let p' = char_of (48 + unat (u mod 10)) # p; u' = u div 10
      in if u' \<noteq> 0 then bufint_loop u' p' else p')"
  by auto
termination by (relation "measure (\<lambda>(u, p). unat u)") (auto intro: unat_div_less)

declare bufint_loop.simps [simp del]

text \<open>
  The code negates the number as an \<open>int32_t\<close>, which is undefined for the smallest one; the model wraps there, as
  the machine does.
\<close>

definition lj_str_bufint :: "32 word \<Rightarrow> string" where
  "lj_str_bufint k =
     (let p = bufint_loop (if k <s 0 then - k else k) [] in if k <s 0 then CHR ''-'' # p else p)"

subsection \<open>Buffers and formatted messages\<close>

text \<open>The first \<open>n\<close> bytes of a buffer, and its size.\<close>

record SBuf =
  sb_buf :: string
  sb_sz :: "32 word"

definition sb_n :: "SBuf \<Rightarrow> 32 word" where "sb_n sb = of_nat (length (sb_buf sb))"

abbreviation LJ_MIN_SBUF :: "32 word" where "LJ_MIN_SBUF \<equiv> 32"

definition lj_str_needbuf :: "SBuf \<Rightarrow> 32 word \<Rightarrow> SBuf" where
  "lj_str_needbuf sb sz = (if sz > sb_sz sb then sb\<lparr>sb_sz := (if sz < LJ_MIN_SBUF then LJ_MIN_SBUF else sz)\<rparr> else sb)"

partial_function (option) grow_size :: "32 word \<Rightarrow> 32 word \<Rightarrow> 32 word option" where
  "grow_size need sz = (if need > sz then grow_size need (sz * 2) else Some sz)"

declare grow_size.simps [code]

definition addstr :: "SBuf \<Rightarrow> string \<Rightarrow> SBuf option" where
  "addstr sb str =
     (let need = sb_n sb + of_nat (length str) in
      case (if need > sb_sz sb then grow_size need (sb_sz sb * 2) else Some (sb_sz sb)) of
        None \<Rightarrow> None
      | Some sz \<Rightarrow> Some \<lparr>sb_buf = sb_buf sb @ str, sb_sz = sz\<rparr>)"

definition addchar :: "SBuf \<Rightarrow> char \<Rightarrow> SBuf" where
  "addchar sb c = \<lparr>sb_buf = sb_buf sb @ [c], sb_sz = (if sb_n sb + 1 > sb_sz sb then sb_sz sb * 2 else sb_sz sb)\<rparr>"

text \<open>Arguments by the type they were passed with; a null pointer to characters is \<open>None\<close>.\<close>

datatype fmt_arg = A_s "string option" | A_c "32 word" | A_d "32 word" | A_f "64 word" | A_p "64 word"

abbreviation ptr_digits :: string where "ptr_digits \<equiv> ''0123456789abcdef''"

primrec bufptr_loop :: "nat \<Rightarrow> 64 word \<Rightarrow> string \<Rightarrow> string" where
  "bufptr_loop 0 p buf = buf"
| "bufptr_loop (Suc i) p buf = bufptr_loop i (drop_bit 4 p) (ptr_digits ! unat (p AND 15) # buf)"

definition bufptr :: "64 word \<Rightarrow> string" where
  "bufptr p =
     (if p = 0 then ''NULL''
      else let hi = ucast (drop_bit 32 p) :: 32 word;
               lasti = 2 + 2 * 4 + (if drop_bit 32 p \<noteq> 0 then 2 + 2 * (fls_nat (unat hi) div 8) else 0)
           in ''0x'' @ bufptr_loop (lasti - 2) p [])"

text \<open>
  One conversion: the buffer and the remaining arguments, or \<open>None\<close> if the argument is missing or of another
  type, which C leaves undefined.
\<close>

definition directive :: "(64 word \<Rightarrow> string) \<Rightarrow> char \<Rightarrow> fmt_arg list \<Rightarrow> SBuf \<Rightarrow> (SBuf \<times> fmt_arg list) option" where
  "directive numfmt c args sb =
     (let add = (\<lambda>str as. map_option (\<lambda>sb'. (sb', as)) (addstr sb str)) in
      if c = CHR ''s'' then (case args of A_s s # as \<Rightarrow> add (case s of None \<Rightarrow> ''(null)'' | Some x \<Rightarrow> x) as | _ \<Rightarrow> None)
      else if c = CHR ''c'' then (case args of A_c k # as \<Rightarrow> Some (addchar sb (char_of (unat k)), as) | _ \<Rightarrow> None)
      else if c = CHR ''d'' then (case args of A_d k # as \<Rightarrow> add (lj_str_bufint k) as | _ \<Rightarrow> None)
      else if c = CHR ''f'' then (case args of A_f w # as \<Rightarrow> add (lj_str_bufnum numfmt w) as | _ \<Rightarrow> None)
      else if c = CHR ''p'' then (case args of A_p p # as \<Rightarrow> add (bufptr p) as | _ \<Rightarrow> None)
      else if c = CHR ''%'' then Some (addchar sb (CHR ''%''), args)
      else Some (addchar (addchar sb (CHR ''%'')) c, args))"

text \<open>
  The loop over the format. After a final percent sign the source takes the terminating NUL for the conversion
  and goes on behind it: \<open>None\<close>.
\<close>

lemma dropWhile_shorter: "dropWhile P xs = x # c # rest \<Longrightarrow> length rest < length xs"
  using length_dropWhile_le [of P xs] by simp

function pushvf_loop :: "(64 word \<Rightarrow> string) \<Rightarrow> string \<Rightarrow> fmt_arg list \<Rightarrow> SBuf \<Rightarrow> SBuf option" where
  "pushvf_loop numfmt fmt args sb =
     (case dropWhile (\<lambda>c. c \<noteq> CHR ''%'') fmt of
        [] \<Rightarrow> addstr sb fmt
      | [_] \<Rightarrow> None
      | _ # c # rest \<Rightarrow>
          (case addstr sb (takeWhile (\<lambda>c. c \<noteq> CHR ''%'') fmt) of
             None \<Rightarrow> None
           | Some sb1 \<Rightarrow>
               (case directive numfmt c args sb1 of
                  None \<Rightarrow> None
                | Some (sb2, args') \<Rightarrow> pushvf_loop numfmt rest args' sb2)))"
  by auto
termination
  by (relation "measure (\<lambda>(numfmt, fmt, args, sb). length fmt)") (auto dest: dropWhile_shorter)

declare pushvf_loop.simps [simp del]

text \<open>The message as a string object; the memory around the buffer as for \<open>lj_str_new\<close>.\<close>

definition lj_str_pushvf :: "(64 word \<Rightarrow> string) \<Rightarrow> bool \<Rightarrow> string \<Rightarrow> string \<Rightarrow> strtab \<Rightarrow> SBuf \<Rightarrow> string \<Rightarrow> fmt_arg list
    \<Rightarrow> (GCstr \<times> strtab \<times> SBuf) option" where
  "lj_str_pushvf numfmt near_page after junk g tmpbuf fmt args =
     (let sb = (lj_str_needbuf tmpbuf (of_nat (length fmt)))\<lparr>sb_buf := []\<rparr> in
      case pushvf_loop numfmt fmt args sb of
        None \<Rightarrow> None
      | Some sb' \<Rightarrow> map_option (\<lambda>(s, g'). (s, g', sb')) (lj_str_new near_page after junk g (sb_buf sb')))"

definition lj_str_fromint :: "bool \<Rightarrow> string \<Rightarrow> string \<Rightarrow> strtab \<Rightarrow> 32 word \<Rightarrow> (GCstr \<times> strtab) option" where
  "lj_str_fromint near_page after junk g k = lj_str_new near_page after junk g (lj_str_bufint k)"

definition lj_str_fromnum :: "(64 word \<Rightarrow> string) \<Rightarrow> bool \<Rightarrow> string \<Rightarrow> string \<Rightarrow> strtab \<Rightarrow> 64 word \<Rightarrow> (GCstr \<times> strtab) option" where
  "lj_str_fromnum numfmt near_page after junk g w = lj_str_new near_page after junk g (lj_str_bufnum numfmt w)"

end
