(* ===== verification/Lj_Str_Props.thy ===== *)
theory Lj_Str_Props
  imports Lj_Str Lj_Tab_Keys
begin

text \<open>
  Properties of the string functions: the comparisons by words are comparisons by bytes, whatever
  follows the strings.
\<close>

subsection \<open>Words as bytes\<close>

abbreviation byte :: "string \<Rightarrow> nat \<Rightarrow> nat" where
  "byte s i \<equiv> of_char (s ! i)"

text \<open>The first bytes as a number, the first byte most significant.\<close>

primrec big_endian :: "nat \<Rightarrow> (nat \<Rightarrow> nat) \<Rightarrow> nat" where
  "big_endian 0 f = 0"
| "big_endian (Suc q) f = big_endian q f * 256 + f q"

lemma digit_less: "x < 256 \<Longrightarrow> y < 256 \<Longrightarrow> a * 256 + x < b * 256 + y \<longleftrightarrow> a < b \<or> a = b \<and> x < y" for x y a b :: nat
  by (cases a b rule: linorder_cases) auto

lemma digit_eq: "x < 256 \<Longrightarrow> y < 256 \<Longrightarrow> a * 256 + x = b * 256 + y \<longleftrightarrow> a = b \<and> x = y" for x y a b :: nat
  using digit_less [of x y a b] digit_less [of y x b a] by (cases a b rule: linorder_cases) auto

lemma big_endian_eq:
  assumes "\<And>k. k < q \<Longrightarrow> f k < 256" "\<And>k. k < q \<Longrightarrow> g k < 256"
  shows "big_endian q f = big_endian q g \<longleftrightarrow> (\<forall>k < q. f k = g k)"
  using assms
proof (induction q)
  case (Suc q)
  note digit_eq [OF Suc.prems(1) [of q] Suc.prems(2) [of q]]
  with Suc show ?case by (auto simp: less_Suc_eq)
qed simp

lemma big_endian_less:
  assumes "\<And>k. k < q \<Longrightarrow> f k < 256" "\<And>k. k < q \<Longrightarrow> g k < 256"
  shows "big_endian q f < big_endian q g \<longleftrightarrow> (\<exists>m < q. (\<forall>k < m. f k = g k) \<and> f m < g m)"
  using assms
proof (induction q)
  case (Suc q)
  note digit_less [OF Suc.prems(1) [of q] Suc.prems(2) [of q]]
  with Suc big_endian_eq [of q f g] show ?case by (auto simp: less_Suc_eq)
qed simp

text \<open>The word at an index, and the words the comparisons make of it.\<close>

definition le4 :: "string \<Rightarrow> nat \<Rightarrow> nat" where
  "le4 s i = byte s i + 256 * (byte s (i + 1) + 256 * (byte s (i + 2) + 256 * byte s (i + 3)))"

lemma horner:
  fixes x y :: nat
  assumes "x < 256"
  shows "(x + 256 * y) mod 256 = x" "(x + 256 * y) div 256 = y" "y < n \<Longrightarrow> x + 256 * y < 256 * n"
  using assms by auto

lemma le4_bytes:
  "le4 s i mod 256 = byte s i" "le4 s i div 256 mod 256 = byte s (i + 1)"
  "le4 s i div 256 div 256 mod 256 = byte s (i + 2)" "le4 s i div 256 div 256 div 256 = byte s (i + 3)"
  unfolding le4_def by (simp_all only: horner nat_of_char_less_256)

lemma le4_bound: "le4 s i < 2 ^ 32"
proof -
  have "le4 s i < 256 * (256 * (256 * 256))" unfolding le4_def by (intro horner(3) nat_of_char_less_256)
  then show ?thesis by simp
qed

lemma lj_getu32_of_nat: "lj_getu32 s i = of_nat (le4 s i)"
  unfolding lj_getu32_def le4_def by (simp add: algebra_simps of_nat_of_char)

lemma unat_getu32: "unat (lj_getu32 s i) = le4 s i"
  using le4_bound [of s i] unfolding lj_getu32_of_nat by (simp add: unsigned_of_nat take_bit_nat_eq_self)

lemma word_eq_bytes: "lj_getu32 a i = lj_getu32 b i \<longleftrightarrow> (\<forall>k < 4. byte a (i + k) = byte b (i + k))"
proof
  assume "lj_getu32 a i = lj_getu32 b i"
  then have "le4 a i = le4 b i" by (metis unat_getu32)
  then have "byte a i = byte b i" "byte a (i + 1) = byte b (i + 1)" "byte a (i + 2) = byte b (i + 2)" "byte a (i + 3) = byte b (i + 3)"
    by (metis le4_bytes)+
  moreover have "k = 0 \<or> k = 1 \<or> k = 2 \<or> k = 3" if "k < 4" for k :: nat using that by linarith
  ultimately show "\<forall>k < 4. byte a (i + k) = byte b (i + k)" by (metis add_0_right)
next
  assume eq: "\<forall>k < 4. byte a (i + k) = byte b (i + k)"
  have "le4 a i = le4 b i"
    using eq [rule_format, of 0] eq [rule_format, of 1] eq [rule_format, of 2] eq [rule_format, of 3] by (simp add: le4_def)
  then show "lj_getu32 a i = lj_getu32 b i" by (simp add: lj_getu32_of_nat)
qed

lemma word_of_unat: "unat w = m \<Longrightarrow> w = of_nat m" for w :: "32 word"
  by (metis of_nat_unat ucast_id)

lemma unat_drop: "unat (drop_bit n x) = unat x div 2 ^ n" for x :: "32 word"
  by (simp only: unat_drop_bit_eq) (rule drop_bit_eq_div)

lemma unat_take8: "unat (take_bit 8 x) = unat x mod 256" for x :: "32 word"
proof -
  have "unat (take_bit 8 x) = take_bit 8 (unat x)" by (rule unsigned_take_bit_eq)
  also have "\<dots> = unat x mod 256" by (simp add: take_bit_eq_mod)
  finally show ?thesis .
qed

lemma word_byte: "take_bit 8 (drop_bit n x) = of_nat (unat x div 2 ^ n mod 256)" for x :: "32 word"
  by (rule word_of_unat) (simp only: unat_take8 unat_drop)

lemma word_top: "drop_bit n x = of_nat (unat x div 2 ^ n)" for x :: "32 word"
  by (rule word_of_unat) (rule unat_drop)

abbreviation from_byte :: "string \<Rightarrow> nat \<Rightarrow> nat \<Rightarrow> nat" where
  "from_byte s i \<equiv> \<lambda>k. byte s (i + k)"

lemma big_endian_bound: "(\<And>k. k < q \<Longrightarrow> f k < 256) \<Longrightarrow> big_endian q f < 256 ^ q"
proof (induction q)
  case (Suc q)
  then have "big_endian q f < 256 ^ q" "f q < 256" by auto
  then show ?case by (simp only: big_endian.simps power_Suc)
qed simp

lemma big_endian_4: "big_endian 4 f = ((f 0 * 256 + f 1) * 256 + f 2) * 256 + f 3"
proof -
  have "big_endian (Suc (Suc (Suc (Suc 0)))) f = ((f 0 * 256 + f 1) * 256 + f (Suc 1)) * 256 + f (Suc (Suc 1))" by simp
  moreover have "Suc (Suc (Suc (Suc 0))) = 4" "Suc 1 = 2" "Suc (Suc 1) = 3" by simp_all
  ultimately show ?thesis by (simp only:)
qed

lemma or_add: "a AND b = 0 \<Longrightarrow> a OR b = a + b" for a b :: "32 word"
  using word_plus_and_or [of a b] by simp

lemma lj_bswap_bytes:
  "lj_bswap x = 0x1000000 * take_bit 8 x + 0x10000 * take_bit 8 (drop_bit 8 x) + 0x100 * take_bit 8 (drop_bit 16 x) + drop_bit 24 x"
proof -
  let ?a = "push_bit 24 (take_bit 8 x)" and ?b = "push_bit 16 (take_bit 8 (drop_bit 8 x))" and ?c = "push_bit 8 (take_bit 8 (drop_bit 16 x))" and ?d = "drop_bit 24 x"
  have ff: "0xff00 = push_bit 8 (mask 8 :: 32 word)" by (simp add: push_bit_eq_mult mask_eq_exp_minus_1)
  have "push_bit 24 x = ?a" "push_bit 8 (x AND 0xff00) = ?b" "drop_bit 8 x AND 0xff00 = ?c"
    unfolding ff by (rule bit_word_eqI; auto simp: bit_simps)+
  moreover have "?c AND ?d = 0" "?b AND (?c OR ?d) = 0" "?a AND (?b OR ?c OR ?d) = 0"
    by (rule bit_word_eqI; auto simp: bit_simps dest: bit_imp_le_length)+
  then have "?a OR ?b OR ?c OR ?d = ?a + (?b + (?c + ?d))" by (simp add: or_add)
  ultimately show ?thesis by (simp add: lj_bswap_def push_bit_eq_mult mult.commute add.assoc)
qed

lemma unat_bswap: "unat (lj_bswap (lj_getu32 s i)) = big_endian 4 (from_byte s i)"
proof -
  let ?x = "lj_getu32 s i"
  have d: "2 ^ 24 = 256 * (256 * (256 :: nat))" "2 ^ 16 = 256 * (256 :: nat)" "2 ^ 8 = (256 :: nat)" by simp_all
  have 0: "take_bit 8 ?x = of_nat (byte s i)"
    using word_byte [of 0 ?x] unfolding unat_getu32 by (simp add: le4_bytes)
  have 1: "take_bit 8 (drop_bit 8 ?x) = of_nat (byte s (i + 1))"
    using word_byte [of 8 ?x] unfolding d unat_getu32 le4_bytes .
  have 2: "take_bit 8 (drop_bit 16 ?x) = of_nat (byte s (i + 2))"
    using word_byte [of 16 ?x] unfolding d unat_getu32 div_mult2_eq le4_bytes .
  have 3: "drop_bit 24 ?x = of_nat (byte s (i + 3))"
    using word_top [of 24 ?x] unfolding d unat_getu32 div_mult2_eq le4_bytes .
  have "lj_bswap ?x = of_nat (big_endian 4 (from_byte s i))"
    unfolding lj_bswap_bytes 0 1 2 3 big_endian_4 by (simp add: algebra_simps)
  moreover have "big_endian 4 (from_byte s i) < 2 ^ 32"
    using big_endian_bound [of 4 "from_byte s i"] by simp
  ultimately show ?thesis by (simp add: unsigned_of_nat take_bit_nat_eq_self)
qed

lemma big_endian_div: "r \<le> q \<Longrightarrow> (\<And>k. k < q \<Longrightarrow> f k < 256) \<Longrightarrow> big_endian q f div 256 ^ (q - r) = big_endian r f"
proof (induction q)
  case (Suc q)
  show ?case
  proof (cases "r = Suc q")
    case False
    then have r: "r \<le> q" "Suc q - r = Suc (q - r)" using Suc.prems(1) by auto
    have "big_endian (Suc q) f div 256 ^ (Suc q - r) = big_endian (Suc q) f div 256 div 256 ^ (q - r)"
      unfolding r(2) by (simp add: div_mult2_eq)
    also have "big_endian (Suc q) f div 256 = big_endian q f" using Suc.prems(2) [of q] by simp
    finally show ?thesis using Suc r by simp
  qed simp
qed simp

text \<open>The comparison keeps the bytes of both strings up to the end of the shorter one.\<close>

lemma unat_bswap_shift: "r \<le> 4 \<Longrightarrow> unat (drop_bit (8 * (4 - r)) (lj_bswap (lj_getu32 s i))) = big_endian r (from_byte s i)"
proof -
  assume r: "r \<le> 4"
  have "(2 :: nat) ^ (8 * (4 - r)) = 256 ^ (4 - r)" by (simp add: power_mult)
  with big_endian_div [OF r nat_of_char_less_256] show ?thesis
    by (simp only: unat_drop unat_bswap)
qed
subsection \<open>Comparison\<close>

text \<open>The order of strings: by the first byte that differs, and a prefix before what it is a prefix of.\<close>

fun str_less :: "string \<Rightarrow> string \<Rightarrow> bool" where
  "str_less _ [] = False"
| "str_less [] (_ # _) = True"
| "str_less (x # xs) (y # ys) = (of_char x < (of_char y :: nat) \<or> x = y \<and> str_less xs ys)"

lemma str_less_at:
  assumes "m < length a" "m < length b" "\<forall>j < m. a ! j = b ! j" "byte a m \<noteq> byte b m"
  shows "str_less a b \<longleftrightarrow> byte a m < byte b m" "a \<noteq> b"
proof -
  show "a \<noteq> b" using assms(4) by auto
  show "str_less a b \<longleftrightarrow> byte a m < byte b m"
    using assms
  proof (induction a b arbitrary: m rule: str_less.induct)
    case (3 x xs y ys)
    show ?case
    proof (cases m)
      case (Suc k)
      have "str_less xs ys \<longleftrightarrow> byte xs k < byte ys k"
        using 3(2-5) Suc by (intro 3(1)) (auto simp: nth_Cons' split: if_splits)
      moreover have "x = y" using 3(4) Suc by auto
      ultimately show ?thesis using Suc by simp
    qed (use 3 in auto)
  qed auto
qed

lemma str_less_prefix:
  assumes "\<forall>j < min (length a) (length b). a ! j = b ! j"
  shows "str_less a b \<longleftrightarrow> length a < length b" "a = b \<longleftrightarrow> length a = length b"
proof -
  show "a = b \<longleftrightarrow> length a = length b" using assms by (auto intro: nth_equalityI)
  show "str_less a b \<longleftrightarrow> length a < length b"
    using assms
  proof (induction a b rule: str_less.induct)
    case (3 x xs y ys)
    have "xs ! j = ys ! j" if "j < min (length xs) (length ys)" for j using 3(2) [rule_format, of "Suc j"] that by simp
    moreover have "x = y" using 3(2) by force
    ultimately show ?case using 3(1) by simp
  qed auto
qed

text \<open>A result of a comparison tells the order by its sign.\<close>

definition cmp_tells :: "string \<Rightarrow> string \<Rightarrow> 32 word \<Rightarrow> bool" where
  "cmp_tells a b r \<longleftrightarrow> (r = 0 \<longleftrightarrow> a = b) \<and> (sint r < 0 \<longleftrightarrow> str_less a b)"

lemma sint_of_int32: "int32 i \<Longrightarrow> sint (word_of_int i :: 32 word) = i"
  by (simp add: signed_of_int signed_take_bit_int_eq_self)

lemma cmp_tells_lengths:
  assumes "\<forall>j < min (length a) (length b). a ! j = b ! j" "length a < 2 ^ 31" "length b < 2 ^ 31"
  shows "cmp_tells a b (of_nat (length a) - of_nat (length b))"
proof -
  let ?d = "int (length a) - int (length b)"
  have w: "of_nat (length a) - of_nat (length b) = (word_of_int ?d :: 32 word)" by simp
  have d: "int32 ?d" using assms(2,3) by simp
  note s = sint_of_int32 [OF d]
  have "(word_of_int ?d :: 32 word) = 0 \<longleftrightarrow> ?d = 0" using s by (metis of_int_0 sint_0)
  then show ?thesis unfolding cmp_tells_def w s using str_less_prefix [OF assms(1)] by auto
qed

lemma cmp_tells_at:
  assumes "m < length a" "m < length b" "\<forall>j < m. a ! j = b ! j" "byte a m \<noteq> byte b m"
  shows "cmp_tells a b (if byte a m < byte b m then -1 else 1)"
  using str_less_at [OF assms] by (simp add: cmp_tells_def)

text \<open>The distance to the end of the shorter string, as the source computes it in unsigned arithmetic.\<close>

lemma distance:
  assumes "i < n" "n < 2 ^ 31"
  shows "sint (of_nat i - of_nat n :: 32 word) \<ge> -3 \<longleftrightarrow> n - i \<le> 3"
    and "n - i \<le> 3 \<Longrightarrow> unat (32 + push_bit 3 (of_nat i - of_nat n) :: 32 word) = 8 * (4 - (n - i))"
proof -
  have w: "of_nat i - of_nat n = (word_of_int (int i - int n) :: 32 word)" by simp
  have "int32 (int i - int n)" using assms by simp
  note s = sint_of_int32 [OF this]
  show "sint (of_nat i - of_nat n :: 32 word) \<ge> -3 \<longleftrightarrow> n - i \<le> 3"
    unfolding w s using assms(1) by linarith
  assume "n - i \<le> 3"
  then consider "int i - int n = -1" "n - i = 1" | "int i - int n = -2" "n - i = 2" | "int i - int n = -3" "n - i = 3"
    using assms(1) by linarith
  then show "unat (32 + push_bit 3 (of_nat i - of_nat n) :: 32 word) = 8 * (4 - (n - i))"
    unfolding w push_bit_eq_mult by cases simp_all
qed

text \<open>
  The first bytes of two words that differ: after the shift only those before the end of the shorter
  string are left, and if they are the same, the lengths decide.
\<close>

lemma swapped_words:
  assumes "i < n" "n < 2 ^ 31" "lj_getu32 a i \<noteq> lj_getu32 b i"
  defines "r \<equiv> min (n - i) 4"
  shows "(let va1 = lj_bswap (lj_getu32 a i); vb1 = lj_bswap (lj_getu32 b i); j = of_nat i - of_nat n :: 32 word in
      if sint j \<ge> -3 then
        let sh = unat (32 + push_bit 3 j); va2 = drop_bit sh va1; vb2 = drop_bit sh vb1
        in if va2 = vb2 then l else if va2 < vb2 then -1 else 1
      else if va1 < vb1 then -1 else 1) =
    (if \<forall>k < r. byte a (i + k) = byte b (i + k) then l
     else if \<exists>m < r. (\<forall>k < m. byte a (i + k) = byte b (i + k)) \<and> byte a (i + m) < byte b (i + m) then -1 else 1)" (is "?L = ?R")
proof -
  let ?A = "big_endian r (from_byte a i)" and ?B = "big_endian r (from_byte b i)"
  have r4: "r \<le> 4" by (simp add: r_def)
  have eq: "?A = ?B \<longleftrightarrow> (\<forall>k < r. byte a (i + k) = byte b (i + k))"
    by (rule big_endian_eq) (rule nat_of_char_less_256)+
  have less: "?A < ?B \<longleftrightarrow> (\<exists>m < r. (\<forall>k < m. byte a (i + k) = byte b (i + k)) \<and> byte a (i + m) < byte b (i + m))"
    by (rule big_endian_less) (rule nat_of_char_less_256)+
  show ?thesis
  proof (cases "n - i \<le> 3")
    case True
    then have r: "r = n - i" by (simp add: r_def)
    note d = distance(1) [OF assms(1,2)] distance(2) [OF assms(1,2) True]
    have "unat (drop_bit (8 * (4 - (n - i))) (lj_bswap (lj_getu32 s i))) = big_endian r (from_byte s i)" for s
      using unat_bswap_shift [OF r4, of s i] unfolding r .
    then show ?thesis unfolding eq [symmetric] less [symmetric] using True d by (simp add: Let_def word_unat_eq_iff word_less_nat_alt)
  next
    case False
    then have r: "r = 4" by (simp add: r_def)
    have "?A \<noteq> ?B" using assms(3) eq unfolding r word_eq_bytes by simp
    then show ?thesis unfolding eq [symmetric] less [symmetric] using False distance(1) [OF assms(1,2)]
      by (simp add: Let_def word_less_nat_alt unat_bswap r)
  qed
qed
lemma first_difference:
  fixes f g :: "nat \<Rightarrow> nat"
  assumes "\<not> (\<forall>k < r. f k = g k)"
  obtains m where "m < r" "f m \<noteq> g m" "\<forall>k < m. f k = g k"
    "(\<exists>m' < r. (\<forall>k < m'. f k = g k) \<and> f m' < g m') \<longleftrightarrow> f m < g m"
proof -
  define m where "m = (LEAST k. k < r \<and> f k \<noteq> g k)"
  have "\<exists>k. k < r \<and> f k \<noteq> g k" using assms by blast
  from LeastI_ex [OF this] have m: "m < r" "f m \<noteq> g m" unfolding m_def by blast+
  have below: "\<forall>k < m. f k = g k"
  proof (intro allI impI)
    fix k
    assume "k < m"
    then show "f k = g k" using not_less_Least [of k "\<lambda>k. k < r \<and> f k \<noteq> g k"] m(1) unfolding m_def by auto
  qed
  have "m' = m" if "\<forall>k < m'. f k = g k" "f m' < g m'" for m'
    using m(2) that below by (cases m m' rule: linorder_cases) auto
  then have "(\<exists>m' < r. (\<forall>k < m'. f k = g k) \<and> f m' < g m') \<longleftrightarrow> f m < g m" using m below by blast
  with m below that show thesis by blast
qed

text \<open>Strings that agree before an index and in the bytes after it.\<close>

lemma agree_extend:
  assumes "n \<le> length a" "n \<le> length b" "\<forall>j < i. a ! j = b ! j" "\<forall>k < m. byte (a @ pa) (i + k) = byte (b @ pb) (i + k)" "l \<le> i + m"
  shows "\<forall>j < min l n. a ! j = b ! j"
proof (intro allI impI)
  fix j
  assume j: "j < min l n"
  show "a ! j = b ! j"
  proof (cases "j < i")
    case False
    with j assms(5) have "byte (a @ pa) (i + (j - i)) = byte (b @ pb) (i + (j - i))" by (intro assms(4) [rule_format]) auto
    with False j assms(1,2) show ?thesis by (simp add: nth_append)
  qed (use assms(3) in simp)
qed

lemma str_cmp_loop_tells:
  assumes "n = min (length a) (length b)" "length a < 2 ^ 31" "length b < 2 ^ 31" "\<forall>j < min i n. a ! j = b ! j"
  shows "cmp_tells a b (str_cmp_loop (a @ pa) (b @ pb) (length a) (length b) n i)"
  using assms(4)
proof (induction "n - i" arbitrary: i rule: less_induct)
  case less
  let ?a = "a @ pa" and ?b = "b @ pb" and ?l = "of_nat (length a) - of_nat (length b) :: 32 word"
  have len: "n \<le> length a" "n \<le> length b" "n < 2 ^ 31" using assms by auto
  have prefix: "cmp_tells a b ?l" if "\<forall>j < min n n. a ! j = b ! j"
    by (rule cmp_tells_lengths) (use that assms in simp_all)
  show ?case
  proof (cases "i < n")
    case False
    with less.prems prefix show ?thesis by (subst str_cmp_loop.simps) (simp add: min_def)
  next
    case i: True
    then have before: "\<forall>j < i. a ! j = b ! j" using less.prems by simp
    note extend = agree_extend [OF len(1,2) before, where pa = pa and pb = pb]
    show ?thesis
    proof (cases "lj_getu32 ?a i = lj_getu32 ?b i")
      case True
      then have "\<forall>j < min (i + 4) n. a ! j = b ! j" unfolding word_eq_bytes by (rule extend) simp_all
      then have "cmp_tells a b (str_cmp_loop ?a ?b (length a) (length b) n (i + 4))"
        using i by (intro less.hyps) auto
      with True i show ?thesis by (subst str_cmp_loop.simps) simp
    next
      case False
      let ?r = "min (n - i) 4"
      have run: "str_cmp_loop ?a ?b (length a) (length b) n i =
        (if \<forall>k < ?r. byte ?a (i + k) = byte ?b (i + k) then ?l
         else if \<exists>m < ?r. (\<forall>k < m. byte ?a (i + k) = byte ?b (i + k)) \<and> byte ?a (i + m) < byte ?b (i + m) then -1 else 1)"
        using i False swapped_words [OF i len(3) False, of ?l] by (subst str_cmp_loop.simps) (simp add: Let_def)
      show ?thesis
      proof (cases "\<forall>k < ?r. byte ?a (i + k) = byte ?b (i + k)")
        case True
        moreover have "\<not> 4 \<le> n - i" using True False unfolding word_eq_bytes by (auto simp: min_def)
        ultimately have "\<forall>j < min n n. a ! j = b ! j" by (intro extend [of ?r]) auto
        with True run prefix show ?thesis by simp
      next
        case differ: False
        obtain m where m: "m < ?r" "byte ?a (i + m) \<noteq> byte ?b (i + m)" "\<forall>k < m. byte ?a (i + k) = byte ?b (i + k)"
          and less: "(\<exists>m' < ?r. (\<forall>k < m'. byte ?a (i + k) = byte ?b (i + k)) \<and> byte ?a (i + m') < byte ?b (i + m')) \<longleftrightarrow>
            byte ?a (i + m) < byte ?b (i + m)"
          by (rule first_difference [OF differ]) (rule that)
        have at: "i + m < length a" "i + m < length b" using m(1) len by auto
        then have bytes: "byte ?a (i + m) = byte a (i + m)" "byte ?b (i + m) = byte b (i + m)" by (simp_all add: nth_append)
        have res: "str_cmp_loop ?a ?b (length a) (length b) n i = (if byte a (i + m) < byte b (i + m) then -1 else 1)"
          using run unfolding if_not_P [OF differ] less bytes .
        have "\<forall>j < min (i + m) n. a ! j = b ! j" using m(1,3) by (intro extend [of m]) auto
        moreover have "min (i + m) n = i + m" using m(1) by linarith
        ultimately have "\<forall>j < i + m. a ! j = b ! j" by (simp only:)
        then show ?thesis unfolding res by (rule cmp_tells_at [OF at]) (use m(2) bytes in simp)
      qed
    qed
  qed
qed

lemma lj_str_cmp_sign:
  assumes "length a < LJ_MAX_STR" "length b < LJ_MAX_STR"
  shows "lj_str_cmp (a, pa) (b, pb) = 0 \<longleftrightarrow> a = b" "sint (lj_str_cmp (a, pa) (b, pb)) < 0 \<longleftrightarrow> str_less a b"
proof -
  have "cmp_tells a b (str_cmp_loop (a @ pa) (b @ pb) (length a) (length b) (min (length a) (length b)) 0)"
    by (rule str_cmp_loop_tells) (use assms in simp_all)
  moreover have "(if length a > length b then length b else length a) = min (length a) (length b)" by simp
  ultimately show "lj_str_cmp (a, pa) (b, pb) = 0 \<longleftrightarrow> a = b" "sint (lj_str_cmp (a, pa) (b, pb)) < 0 \<longleftrightarrow> str_less a b"
    by (simp_all only: lj_str_cmp_def fst_conv snd_conv cmp_tells_def)
qed

text \<open>
  \<open>lj_str_cmp\<close> compares strings byte by byte, the bytes as unsigned numbers: its result is zero for equal strings
  and negative exactly if the first byte that differs is the smaller one or the first string is a
  proper prefix of the second, whatever bytes follow the two strings in memory.
\<close>

theorem lj_str_cmp_order:
  assumes "length a < LJ_MAX_STR" "length b < LJ_MAX_STR"
  shows "(lj_str_cmp (a, pa) (b, pb) = 0 \<longleftrightarrow> a = b) \<and> (sint (lj_str_cmp (a, pa) (b, pb)) < 0 \<longleftrightarrow> str_less a b)"
  using lj_str_cmp_sign [OF assms] by blast

theorem lj_str_cmp_order_witness:
  "(lj_str_cmp (''abcde'', ''xyz'') (''abcdf'', ''123'') = 0 \<longleftrightarrow> ''abcde'' = ''abcdf'') \<and>
    (sint (lj_str_cmp (''abcde'', ''xyz'') (''abcdf'', ''123'')) < 0 \<longleftrightarrow> str_less ''abcde'' ''abcdf'')"
  by (rule lj_str_cmp_order) simp_all
subsection \<open>Equality\<close>

lemma small_ranges: "(\<forall>k < 2. P k) \<longleftrightarrow> P 0 \<and> P 1" "(\<forall>k < 3. P k) \<longleftrightarrow> P 0 \<and> P 1 \<and> P 2" for P :: "nat \<Rightarrow> bool"
  by (auto simp: less_Suc_eq numeral_2_eq_2 numeral_3_eq_3)

text \<open>Little-endian prefixes: the low bytes of a word are the first bytes.\<close>

lemma take_bit_bytes:
  assumes "r \<le> 3"
  shows "take_bit (8 * r) (lj_getu32 a i) = take_bit (8 * r) (lj_getu32 b i) \<longleftrightarrow> (\<forall>k < r. byte a (i + k) = byte b (i + k))"
proof -
  have u: "unat (take_bit n (lj_getu32 s i)) = le4 s i mod 2 ^ n" for s n
  proof -
    have "unat (take_bit n (lj_getu32 s i)) = take_bit n (unat (lj_getu32 s i))" by (rule unsigned_take_bit_eq)
    then show ?thesis by (simp add: take_bit_eq_mod unat_getu32)
  qed
  have m: "le4 s i mod 256 = byte s i" "le4 s i mod (256 * 256) = byte s i + 256 * byte s (i + 1)"
    "le4 s i mod (256 * (256 * 256)) = byte s i + 256 * (byte s (i + 1) + 256 * byte s (i + 2))" for s
    by (simp_all only: mod_mult2_eq le4_bytes div_mult2_eq) (simp_all add: algebra_simps le4_bytes)
  have h: "x + 256 * y = x' + 256 * y' \<longleftrightarrow> x = x' \<and> y = y'" if "x < 256" "x' < 256" for x y x' y' :: nat
    using digit_eq [OF that, of y y'] by (auto simp: ac_simps)
  consider "r = 0" | "r = 1" | "r = 2" | "r = 3" using assms by linarith
  then show ?thesis
  proof cases
    case 2
    with m(1) show ?thesis unfolding word_unat_eq_iff u by simp
  next
    case 3
    with m(2) show ?thesis unfolding word_unat_eq_iff u by (simp add: h small_ranges)
  next
    case 4
    have pw: "(2 :: nat) ^ (8 * 3) = 256 * (256 * 256)" by simp
    have "take_bit (8 * 3) (lj_getu32 a i) = take_bit (8 * 3) (lj_getu32 b i) \<longleftrightarrow>
        byte a i = byte b i \<and> byte a (i + 1) = byte b (i + 1) \<and> byte a (i + 2) = byte b (i + 2)"
      unfolding word_unat_eq_iff u pw m(3) by (simp only: h nat_of_char_less_256)
    with 4 show ?thesis by (simp add: small_ranges)
  qed simp
qed

lemma xor_zero_iff: "x XOR y = 0 \<longleftrightarrow> x = y" for x y :: "32 word"
proof
  assume "x XOR y = 0"
  then have "bit x n = bit y n" for n by (metis bit_0_eq bit_xor_iff bot_apply bot_bool_def)
  then show "x = y" by (simp add: bit_eq_iff)
qed simp

lemma push_bit_zero:
  fixes v :: "32 word"
  assumes "n + m = 32"
  shows "push_bit n v = 0 \<longleftrightarrow> take_bit m v = 0"
proof
  assume push: "push_bit n v = 0"
  show "take_bit m v = 0"
  proof (rule bit_eqI)
    fix j
    have "bit (push_bit n v) (n + j) \<longleftrightarrow> bit v j" if "j < m" using that assms by (simp add: bit_push_bit_iff)
    then show "bit (take_bit m v) j \<longleftrightarrow> bit 0 j" unfolding push by (auto simp: bit_take_bit_iff)
  qed
next
  assume take: "take_bit m v = 0"
  show "push_bit n v = 0"
  proof (rule bit_eqI)
    fix j
    have "\<not> bit v (j - n)" if "n \<le> j" "j < 32"
    proof -
      have "\<not> bit (take_bit m v) (j - n)" by (simp add: take)
      with that assms show ?thesis by (simp add: bit_take_bit_iff)
    qed
    then show "bit (push_bit n v) j \<longleftrightarrow> bit 0 j" by (auto simp: bit_push_bit_iff)
  qed
qed

lemma fastcmp_rest:
  assumes "r \<le> 3"
  shows "push_bit (8 * (4 - r)) (lj_getu32 a i XOR lj_getu32 b i) = 0 \<longleftrightarrow> (\<forall>k < r. byte a (i + k) = byte b (i + k))"
proof -
  have "8 * (4 - r) + 8 * r = 32" using assms by simp
  then have "push_bit (8 * (4 - r)) (lj_getu32 a i XOR lj_getu32 b i) = 0 \<longleftrightarrow> take_bit (8 * r) (lj_getu32 a i XOR lj_getu32 b i) = 0"
    by (rule push_bit_zero)
  also have "\<dots> \<longleftrightarrow> take_bit (8 * r) (lj_getu32 a i) = take_bit (8 * r) (lj_getu32 b i)"
    unfolding take_bit_xor by (rule xor_zero_iff)
  finally show ?thesis unfolding take_bit_bytes [OF assms] .
qed

lemma str_fastcmp_loop_eq:
  assumes "len \<le> length a" "len \<le> length b" "len < 2 ^ 31" "i < len" "\<forall>j < i. a ! j = b ! j"
  shows "str_fastcmp_loop (a @ pa) (b @ pb) len i = 0 \<longleftrightarrow> (\<forall>j < len. a ! j = b ! j)"
  using assms(4,5)
proof (induction "len - i" arbitrary: i rule: less_induct)
  case less
  let ?a = "a @ pa" and ?b = "b @ pb"
  let ?v = "lj_getu32 ?a i XOR lj_getu32 ?b i"
  note extend = agree_extend [OF assms(1,2) less.prems(2), where pa = pa and pb = pb]
  have bytes: "byte ?a (i + k) = byte ?b (i + k) \<longleftrightarrow> a ! (i + k) = b ! (i + k)" if "i + k < len" for k
    using that assms(1,2) by (simp add: nth_append)
  show ?case
  proof (cases "?v = 0")
    case True
    then have "lj_getu32 ?a i = lj_getu32 ?b i" by (simp only: xor_zero_iff)
    then have four: "\<forall>j < min (i + 4) len. a ! j = b ! j" unfolding word_eq_bytes by (rule extend) simp
    show ?thesis
    proof (cases "i + 4 < len")
      case more: True
      with True four less.hyps [of "i + 4"] less.prems show ?thesis
        by (subst str_fastcmp_loop.simps) (simp add: min_def)
    next
      case False
      with True four show ?thesis by (subst str_fastcmp_loop.simps) (simp add: min_def split: if_splits)
    qed
  next
    case False
    have diff: "\<not> (\<forall>k < 4. byte ?a (i + k) = byte ?b (i + k))" using False unfolding word_eq_bytes [symmetric] by auto
    have run: "str_fastcmp_loop ?a ?b len i =
        (if len - i \<le> 3 then push_bit (8 * (4 - (len - i))) ?v else 1)"
      using False distance [OF less.prems(1) assms(3)] by (subst str_fastcmp_loop.simps) (simp add: Let_def)
    show ?thesis
    proof (cases "len - i \<le> 3")
      case True
      have "str_fastcmp_loop ?a ?b len i = 0 \<longleftrightarrow> (\<forall>k < len - i. byte ?a (i + k) = byte ?b (i + k))"
        using run True fastcmp_rest [OF True] by simp
      also have "\<dots> \<longleftrightarrow> (\<forall>j < len. a ! j = b ! j)"
      proof
        assume "\<forall>k < len - i. byte ?a (i + k) = byte ?b (i + k)"
        from extend [OF this, of len] less.prems(1) show "\<forall>j < len. a ! j = b ! j" by simp
      qed (use bytes in simp)
      finally show ?thesis .
    next
      case big: False
      have "\<not> (\<forall>j < len. a ! j = b ! j)"
      proof
        assume "\<forall>j < len. a ! j = b ! j"
        then have "byte ?a (i + k) = byte ?b (i + k)" if "k < 4" for k using bytes [of k] big that by simp
        with diff show False by blast
      qed
      with run big show ?thesis by simp
    qed
  qed
qed

lemma str_fastcmp_eq:
  assumes "length a = length b" "b \<noteq> []" "length b < LJ_MAX_STR"
  shows "str_fastcmp (a @ pa) (b @ pb) (length b) = 0 \<longleftrightarrow> a = b"
proof -
  have "str_fastcmp (a @ pa) (b @ pb) (length b) = 0 \<longleftrightarrow> (\<forall>j < length b. a ! j = b ! j)"
    unfolding str_fastcmp_def by (rule str_fastcmp_loop_eq) (use assms in simp_all)
  with assms(1) show ?thesis by (auto intro: nth_equalityI)
qed

end
