(* ===== verification/Lj_Str_Table.thy ===== *)
theory Lj_Str_Table
  imports Lj_Str_Props "HOL-Library.Multiset"
begin

text \<open>
  Interning: the string table holds each string once, so that two strings are equal if and only if
  their objects are the same.
\<close>

subsection \<open>The invariant of the string table\<close>

definition strings :: "strtab \<Rightarrow> GCstr list" where
  "strings g = concat (g_strhash g)"

definition bucket :: "32 word \<Rightarrow> GCstr \<Rightarrow> nat" where
  "bucket mk s = unat (s_hash s AND mk)"

lemma bucket_bound: "bucket mk s \<le> unat mk"
  unfolding bucket_def by (metis word_and_le1 word_le_nat_alt)

lemma mem_strings: "s \<in> set (strings g) \<longleftrightarrow> (\<exists>i < length (g_strhash g). s \<in> set (g_strhash g ! i))"
  by (simp add: strings_def) (metis in_set_conv_nth)

subsection \<open>Resizing\<close>

lemma chain_push_nth:
  assumes "length hs = Suc (unat mk)"
  shows "length (chain_push mk s hs) = length hs"
    "i < length hs \<Longrightarrow> chain_push mk s hs ! i = (if i = bucket mk s then s # hs ! i else hs ! i)"
  using assms by (auto simp: chain_push_def bucket_def)

lemma chain_push_mset:
  assumes "length hs = Suc (unat mk)"
  shows "mset (concat (chain_push mk s hs)) = add_mset s (mset (concat hs))"
proof -
  have b: "bucket mk s < length hs" using bucket_bound [of mk s] assms by simp
  then have "hs = take (bucket mk s) hs @ hs ! bucket mk s # drop (Suc (bucket mk s)) hs" by (rule id_take_nth_drop)
  then have "mset (concat hs) = mset (concat (take (bucket mk s) hs)) + mset (hs ! bucket mk s) + mset (concat (drop (Suc (bucket mk s)) hs))"
    by (metis concat.simps(2) concat_append mset_append add.assoc)
  moreover have "chain_push mk s hs = take (bucket mk s) hs @ (s # hs ! bucket mk s) # drop (Suc (bucket mk s)) hs"
    unfolding chain_push_def bucket_def [symmetric] by (rule upd_conv_take_nth_drop [OF b])
  ultimately show ?thesis by simp
qed

definition in_buckets :: "32 word \<Rightarrow> GCstr list list \<Rightarrow> bool" where
  "in_buckets mk hs \<longleftrightarrow> length hs = Suc (unat mk) \<and> (\<forall>i < length hs. \<forall>s \<in> set (hs ! i). bucket mk s = i)"

lemma in_buckets_push: "in_buckets mk hs \<Longrightarrow> in_buckets mk (chain_push mk s hs)"
  using chain_push_nth [where hs = hs and mk = mk and s = s] by (auto simp: in_buckets_def)

lemma fold_chain_push:
  assumes "in_buckets mk hs"
  shows "in_buckets mk (fold (chain_push mk) xs hs) \<and> mset (concat (fold (chain_push mk) xs hs)) = mset xs + mset (concat hs)"
  using assms
proof (induction xs arbitrary: hs)
  case (Cons x xs)
  from Cons.IH [OF in_buckets_push [OF Cons.prems]] Cons.prems chain_push_mset [of hs mk x] show ?case
    by (simp add: in_buckets_def)
qed simp

lemma distinct_map_mset: "mset xs = mset ys \<Longrightarrow> distinct (map f xs) = distinct (map f ys)"
  by (metis mset_eq_imp_distinct_iff mset_map)

text \<open>What holds of the objects in a table.\<close>

definition pool_ok :: "nat \<Rightarrow> GCstr list \<Rightarrow> bool" where
  "pool_ok lim ss \<longleftrightarrow> (\<forall>s \<in> set ss. s_hash s = str_hash (s_data s) \<and> s_data s \<noteq> [] \<and> length (s_data s) < LJ_MAX_STR \<and>
       0 < s_addr s \<and> s_addr s < lim) \<and>
     distinct (map s_addr ss) \<and> distinct (map s_data ss)"

definition str_ok :: "strtab \<Rightarrow> bool" where
  "str_ok g \<longleftrightarrow> in_buckets (g_strmask g) (g_strhash g) \<and> pool_ok (g_alloc g) (strings g)"

lemma pool_ok_mset: "mset xs = mset ys \<Longrightarrow> pool_ok lim xs = pool_ok lim ys"
  using mset_eq_setD [of xs ys] distinct_map_mset [of xs ys s_addr] distinct_map_mset [of xs ys s_data] by (simp add: pool_ok_def)

lemma resize_strings:
  assumes "in_buckets (g_strmask g) (g_strhash g) \<or> g_strhash g = [] \<and> \<not> g_sweeping g \<and> newmask < LJ_MAX_STRTAB - 1"
  shows "in_buckets (g_strmask (lj_str_resize g newmask)) (g_strhash (lj_str_resize g newmask))"
    "mset (strings (lj_str_resize g newmask)) = mset (strings g)"
proof -
  have "in_buckets newmask (replicate (Suc (unat newmask)) [])" by (simp add: in_buckets_def del: replicate_Suc)
  note f = fold_chain_push [OF this, of "concat (rev (g_strhash g))"]
  have "mset (concat (replicate n [])) = {#}" for n :: nat by (induction n) simp_all
  moreover have "mset (concat (rev xs)) = mset (concat xs)" for xs :: "GCstr list list" by (induction xs) simp_all
  ultimately have m: "mset (concat (fold (chain_push newmask) (concat (rev (g_strhash g))) (replicate (Suc (unat newmask)) []))) = mset (concat (g_strhash g))"
    using f by (simp del: replicate_Suc)
  show "mset (strings (lj_str_resize g newmask)) = mset (strings g)"
    using m by (simp add: lj_str_resize_def strings_def del: replicate_Suc)
  show "in_buckets (g_strmask (lj_str_resize g newmask)) (g_strhash (lj_str_resize g newmask))"
    using f assms by (auto simp: lj_str_resize_def simp del: replicate_Suc)
qed

lemma resize_ok: "str_ok g \<Longrightarrow> str_ok (lj_str_resize g newmask)"
  using resize_strings [of g newmask] pool_ok_mset [of "strings (lj_str_resize g newmask)" "strings g"]
  by (simp add: str_ok_def) (simp add: lj_str_resize_def)

subsection \<open>Interning\<close>

lemma pool_ok_push:
  assumes "pool_ok lim ss" "x \<noteq> []" "length x < LJ_MAX_STR" "x \<notin> s_data ` set ss" "0 < lim"
  shows "pool_ok (Suc lim) (\<lparr>s_addr = lim, s_hash = str_hash x, s_data = x, s_behind = z\<rparr> # ss)"
  using assms by (auto simp: pool_ok_def)

text \<open>The object of a string: the one in the table that holds it, if there is one.\<close>

lemma lj_str_new_cases:
  assumes "str_ok g" "x \<noteq> []" "length x < LJ_MAX_STR" "0 < g_alloc g"
  obtains (old) s where "lj_str_new np after junk g x = Some (s, g)" "s \<in> set (strings g)" "s_data s = x"
    | (new) s g' where "lj_str_new np after junk g x = Some (s, g')" "x \<notin> s_data ` set (strings g)" "s_data s = x"
        "str_ok g'" "mset (strings g') = add_mset s (mset (strings g))" "g_alloc g' = Suc (g_alloc g)"
proof -
  let ?same = "\<lambda>sx. length (s_data sx) = length x \<and>
      (if np then s_data sx = x else str_fastcmp (x @ after) (s_data sx @ s_behind sx) (length x) = 0)"
  let ?i = "unat (str_hash x AND g_strmask g)"
  have b: "in_buckets (g_strmask g) (g_strhash g)" and p: "pool_ok (g_alloc g) (strings g)" using assms(1) by (simp_all add: str_ok_def)
  have i: "?i < length (g_strhash g)"
    using bucket_bound [of "g_strmask g" "strempty\<lparr>s_hash := str_hash x\<rparr>"] b by (simp add: bucket_def in_buckets_def)
  have pool: "s_hash s = str_hash (s_data s)" "s_data s \<noteq> []" "length (s_data s) < LJ_MAX_STR" if "s \<in> set (strings g)" for s
    using p that by (auto simp: pool_ok_def)
  have same: "?same s \<longleftrightarrow> s_data s = x" if "s \<in> set (strings g)" for s
  proof (cases "length (s_data s) = length x")
    case True
    have "str_fastcmp (x @ after) (s_data s @ s_behind s) (length (s_data s)) = 0 \<longleftrightarrow> x = s_data s"
      by (rule str_fastcmp_eq) (use True pool [OF that] in simp_all)
    then show ?thesis unfolding True by (cases np) auto
  next
    case False
    then have "s_data s \<noteq> x" by blast
    with False show ?thesis by blast
  qed
  have chain: "s \<in> set (g_strhash g ! ?i)" if "s \<in> set (strings g)" "s_data s = x" for s
  proof -
    from that(1) obtain j where j: "j < length (g_strhash g)" "s \<in> set (g_strhash g ! j)" by (auto simp: mem_strings)
    with b have "bucket (g_strmask g) s = j" by (simp add: in_buckets_def)
    with pool(1) [OF that(1)] that(2) j show ?thesis by (auto simp: bucket_def)
  qed
  show thesis
  proof (cases "find ?same (g_strhash g ! ?i)")
    case (Some s)
    then have s: "s \<in> set (g_strhash g ! ?i)" "?same s" by (auto simp: find_Some_iff)
    then have "s \<in> set (strings g)" using i by (auto simp: mem_strings)
    with s(2) same Some assms(2,3) show thesis by (intro old) (simp_all add: lj_str_new_def Let_def)
  next
    case None
    have fresh: "x \<notin> s_data ` set (strings g)"
    proof
      assume "x \<in> s_data ` set (strings g)"
      then obtain s where s: "s \<in> set (strings g)" "s_data s = x" by auto
      with None chain [OF s] same show False by (auto simp: find_None_iff)
    qed
    let ?s = "\<lparr>s_addr = g_alloc g, s_hash = str_hash x, s_data = x, s_behind = CHR 0x00 # junk\<rparr>"
    let ?g = "g\<lparr>g_strhash := chain_push (g_strmask g) ?s (g_strhash g), g_strnum := g_strnum g + 1, g_alloc := Suc (g_alloc g)\<rparr>"
    let ?g' = "if g_strnum g > g_strmask g then lj_str_resize ?g (push_bit 1 (g_strmask g) + 1) else ?g"
    have m: "mset (strings ?g) = mset (?s # strings g)"
      using b by (simp add: strings_def chain_push_mset in_buckets_def)
    have "str_ok ?g"
      using in_buckets_push [OF b] pool_ok_push [OF p assms(2,3) fresh assms(4)] pool_ok_mset [OF m] by (simp add: str_ok_def)
    then have "str_ok ?g'" using resize_ok by simp
    moreover have "mset (strings ?g') = add_mset ?s (mset (strings g))"
      using m b in_buckets_push [OF b] resize_strings(2) [of ?g] by simp
    moreover have "g_alloc ?g' = Suc (g_alloc g)" by (simp add: lj_str_resize_def)
    ultimately show thesis using None assms(2,3) fresh by (intro new [of ?s ?g']) (simp_all add: lj_str_new_def Let_def)
  qed
qed
subsection \<open>The interface of interning\<close>

text \<open>A sequence of calls, each with its string, and the objects they return.\<close>

fun intern_all :: "('c \<Rightarrow> 's \<Rightarrow> ('o \<times> 's) option) \<Rightarrow> 'c list \<Rightarrow> 's \<Rightarrow> ('o list \<times> 's) option" where
  "intern_all intern [] s = Some ([], s)"
| "intern_all intern (c # cs) s =
     (case intern c s of None \<Rightarrow> None
      | Some (x, s1) \<Rightarrow> map_option (\<lambda>(xs, s2). (x # xs, s2)) (intern_all intern cs s1))"

text \<open>
  What the users of interned strings rely on: a call returns an object with its text, objects stay, and
  two objects of one state have the same address if and only if they have the same text.
\<close>

locale interner =
  fixes inv :: "'s \<Rightarrow> bool" and objs :: "'s \<Rightarrow> 'o set" and fits :: "'c \<Rightarrow> bool" and text_of :: "'c \<Rightarrow> 't"
    and intern :: "'c \<Rightarrow> 's \<Rightarrow> ('o \<times> 's) option" and addr :: "'o \<Rightarrow> 'a" and data :: "'o \<Rightarrow> 't"
  assumes intern_ok: "inv s \<Longrightarrow> fits c \<Longrightarrow>
      \<exists>x s'. intern c s = Some (x, s') \<and> inv s' \<and> data x = text_of c \<and> x \<in> objs s' \<and> objs s \<subseteq> objs s'"
    and canonical: "inv s \<Longrightarrow> x \<in> objs s \<Longrightarrow> y \<in> objs s \<Longrightarrow> addr x = addr y \<longleftrightarrow> data x = data y"
begin

lemma intern_all_ok:
  assumes "inv s" "\<forall>c \<in> set cs. fits c"
  shows "\<exists>xs s'. intern_all intern cs s = Some (xs, s') \<and> inv s' \<and> map data xs = map text_of cs \<and> set xs \<subseteq> objs s' \<and> objs s \<subseteq> objs s'"
  using assms
proof (induction cs arbitrary: s)
  case (Cons c cs)
  from intern_ok [of s c] Cons.prems obtain x s1 where
    1: "intern c s = Some (x, s1)" "inv s1" "data x = text_of c" "x \<in> objs s1" "objs s \<subseteq> objs s1" by auto
  with Cons.IH [of s1] Cons.prems(2) obtain xs s' where
    "intern_all intern cs s1 = Some (xs, s')" "inv s'" "map data xs = map text_of cs" "set xs \<subseteq> objs s'" "objs s1 \<subseteq> objs s'" by auto
  with 1 show ?case by auto
qed simp

lemma intern_all_identity:
  assumes "inv s" "\<forall>c \<in> set cs. fits c"
  shows "\<exists>xs s'. intern_all intern cs s = Some (xs, s') \<and> map data xs = map text_of cs \<and>
    (\<forall>i < length cs. \<forall>j < length cs. addr (xs ! i) = addr (xs ! j) \<longleftrightarrow> text_of (cs ! i) = text_of (cs ! j))"
proof -
  from intern_all_ok [OF assms] obtain xs s' where
    xs: "intern_all intern cs s = Some (xs, s')" "inv s'" "map data xs = map text_of cs" "set xs \<subseteq> objs s'" by blast
  have len: "length xs = length cs" using map_eq_imp_length_eq [OF xs(3)] .
  have "addr (xs ! i) = addr (xs ! j) \<longleftrightarrow> text_of (cs ! i) = text_of (cs ! j)" if "i < length cs" "j < length cs" for i j
  proof -
    have "data (xs ! i) = text_of (cs ! i)" "data (xs ! j) = text_of (cs ! j)"
      using xs(3) that len by (metis nth_map)+
    moreover have "xs ! i \<in> objs s'" "xs ! j \<in> objs s'" using xs(4) that len by (auto dest: nth_mem)
    ultimately show ?thesis using canonical [OF xs(2)] by metis
  qed
  with xs(1,3) show ?thesis by blast
qed

end

text \<open>A call of \<open>lj_str_new\<close>: where the string lies, what follows it, what follows a new object, and the string.\<close>

type_synonym str_call = "bool \<times> string \<times> string \<times> string"

abbreviation call_text :: "str_call \<Rightarrow> string" where
  "call_text c \<equiv> snd (snd (snd c))"

definition call_new :: "str_call \<Rightarrow> strtab \<Rightarrow> (GCstr \<times> strtab) option" where
  "call_new c g = (case c of (near_page, after, junk, x) \<Rightarrow> lj_str_new near_page after junk g x)"

definition tab_objs :: "strtab \<Rightarrow> GCstr set" where
  "tab_objs g = insert strempty (set (strings g))"

lemma objs_canonical:
  assumes "str_ok g" "x \<in> tab_objs g" "y \<in> tab_objs g"
  shows "s_addr x = s_addr y \<longleftrightarrow> s_data x = s_data y"
proof -
  have p: "pool_ok (g_alloc g) (strings g)" using assms(1) by (simp add: str_ok_def)
  have some: "s_addr s \<noteq> 0" "s_data s \<noteq> []" if "s \<in> set (strings g)" for s using p that by (auto simp: pool_ok_def)
  have "inj_on s_addr (set (strings g))" "inj_on s_data (set (strings g))" using p by (simp_all add: pool_ok_def distinct_map)
  then have both: "s_addr s = s_addr s' \<longleftrightarrow> s_data s = s_data s'" if "s \<in> set (strings g)" "s' \<in> set (strings g)" for s s'
    using that by (simp add: inj_on_eq_iff)
  have empty: "s_addr strempty = 0" "s_data strempty = []" by (simp_all add: strempty_def)
  from assms(2,3) consider "x = strempty" "y = strempty" | "x = strempty" "y \<in> set (strings g)"
    | "x \<in> set (strings g)" "y = strempty" | "x \<in> set (strings g)" "y \<in> set (strings g)"
    unfolding tab_objs_def by blast
  then show ?thesis
  proof cases
    case 2
    with some [of y] empty show ?thesis by simp
  next
    case 3
    with some [of x] empty show ?thesis by simp
  next
    case 4
    then show ?thesis by (rule both)
  qed simp
qed

interpretation st: interner "\<lambda>g. str_ok g \<and> 0 < g_alloc g" tab_objs "\<lambda>c. length (call_text c) < LJ_MAX_STR" call_text call_new s_addr s_data
proof
  fix g c
  assume g: "str_ok g \<and> 0 < g_alloc g" and fits: "length (call_text c) < LJ_MAX_STR"
  obtain np after junk x where c: "c = (np, after, junk, x)" by (metis prod.collapse)
  show "\<exists>s g'. call_new c g = Some (s, g') \<and> (str_ok g' \<and> 0 < g_alloc g') \<and> s_data s = call_text c \<and> s \<in> tab_objs g' \<and> tab_objs g \<subseteq> tab_objs g'"
  proof (cases "x = []")
    case True
    then have "call_new c g = Some (strempty, g)" by (simp add: c call_new_def lj_str_new_def)
    moreover have "s_data strempty = call_text c" using True by (simp add: c strempty_def)
    ultimately show ?thesis using g by (auto simp: tab_objs_def)
  next
    case False
    have "length x < LJ_MAX_STR" using fits by (simp add: c)
    from conjunct1 [OF g] False this conjunct2 [OF g] show ?thesis
    proof (cases rule: lj_str_new_cases [where np = np and after = after and junk = junk])
      case (new s g')
      have "set (strings g') = insert s (set (strings g))" using mset_eq_setD [of "strings g'" "s # strings g"] new(5) by simp
      with new show ?thesis by (simp add: c call_new_def tab_objs_def subset_insertI2 insert_mono)
    qed (use g in \<open>auto simp: c call_new_def tab_objs_def\<close>)
  qed
qed (use objs_canonical in blast)

lemma initial_table: "str_ok (lj_str_resize strtab_init (LJ_MIN_STRTAB - 1)) \<and> 0 < g_alloc (lj_str_resize strtab_init (LJ_MIN_STRTAB - 1))"
proof -
  have "g_strhash strtab_init = [] \<and> \<not> g_sweeping strtab_init \<and> LJ_MIN_STRTAB - 1 < LJ_MAX_STRTAB - 1"
    by (simp add: strtab_init_def)
  note r = resize_strings [OF disjI2 [OF this]]
  have "strings strtab_init = []" by (simp add: strings_def strtab_init_def)
  with r show ?thesis by (simp add: str_ok_def pool_ok_def) (simp add: lj_str_resize_def strtab_init_def)
qed

text \<open>
  C29: interning. In a sequence of calls of \<open>lj_str_new\<close> on a new string table, wherever the strings lie in memory and
  whatever follows them, every call returns an object that holds its string, and two calls return the
  same object if and only if their strings are equal; the table grows as it fills.
\<close>

theorem lj_str_new_interns:
  assumes "\<forall>c \<in> set cs. length (call_text c) < LJ_MAX_STR"
  shows "\<exists>ss g. intern_all call_new cs (lj_str_resize strtab_init (LJ_MIN_STRTAB - 1)) = Some (ss, g) \<and>
    map s_data ss = map call_text cs \<and>
    (\<forall>i < length cs. \<forall>j < length cs. s_addr (ss ! i) = s_addr (ss ! j) \<longleftrightarrow> call_text (cs ! i) = call_text (cs ! j))"
  by (rule st.intern_all_identity [OF initial_table assms])

definition sample_calls :: "str_call list" where
  "sample_calls = [(False, ''xyz'', [], ''print''), (True, [], ''ab'', ''print''), (False, [], [], [])]"

theorem lj_str_new_interns_witness:
  "\<exists>ss g. intern_all call_new sample_calls (lj_str_resize strtab_init (LJ_MIN_STRTAB - 1)) = Some (ss, g) \<and>
    map s_data ss = [''print'', ''print'', []] \<and> s_addr (ss ! 0) = s_addr (ss ! 1) \<and> s_addr (ss ! 1) \<noteq> s_addr (ss ! 2)"
proof -
  have "\<forall>c \<in> set sample_calls. length (call_text c) < LJ_MAX_STR" by (simp add: sample_calls_def)
  from lj_str_new_interns [OF this] obtain ss g where
    run: "intern_all call_new sample_calls (lj_str_resize strtab_init (LJ_MIN_STRTAB - 1)) = Some (ss, g)"
    and data: "map s_data ss = map call_text sample_calls"
    and same: "\<And>i j. i < length sample_calls \<Longrightarrow> j < length sample_calls \<Longrightarrow>
      s_addr (ss ! i) = s_addr (ss ! j) \<longleftrightarrow> call_text (sample_calls ! i) = call_text (sample_calls ! j)" by blast
  from same [of 0 1] same [of 1 2] have "s_addr (ss ! 0) = s_addr (ss ! 1)" "s_addr (ss ! 1) \<noteq> s_addr (ss ! 2)"
    by (simp_all add: sample_calls_def)
  moreover have "map call_text sample_calls = [''print'', ''print'', []]" by (simp add: sample_calls_def)
  ultimately show ?thesis using run data by metis
qed

end
