(* ===== verification/Lj_Str_Format.thy ===== *)
theory Lj_Str_Format
  imports Lj_Str_Table Lj_Strscan_Props
begin

text \<open>
  Printing: integers are printed so that the number scanner reads them back, and a formatted message
  is the format with its conversions replaced, written within the bounds of its buffer.
\<close>

subsection \<open>Integers\<close>

lemma char_of_digit: "n < 10 \<Longrightarrow> char_of (48 + n) = digit_char n"
  by (metis char_of_char of_char_digit_char)

lemma bufint_loop_digits: "bufint_loop u p = nat_digits (unat u) @ p"
proof (induction u p rule: bufint_loop.induct)
  case (1 u p)
  have m: "unat (u mod 10) = unat u mod 10" "unat (u div 10) = unat u div 10" by (simp_all add: unat_mod unat_div)
  have z: "u div 10 = 0 \<longleftrightarrow> unat u < 10"
    using m(2) by (metis div_eq_0_iff unat_eq_0 zero_neq_numeral)
  show ?case
  proof (cases "unat u < 10")
    case True
    with z m(1) show ?thesis by (subst bufint_loop.simps) (simp add: nat_digits.simps [of "unat u"] char_of_digit)
  next
    case False
    from 1 [OF refl refl] False z have "bufint_loop (u div 10) (char_of (48 + unat (u mod 10)) # p) =
        nat_digits (unat (u div 10)) @ char_of (48 + unat (u mod 10)) # p" by simp
    with False z m show ?thesis by (subst bufint_loop.simps) (simp add: nat_digits.simps [of "unat u"] char_of_digit)
  qed
qed

lemma unat_word_of_int: "0 \<le> i \<Longrightarrow> i < 2 ^ 32 \<Longrightarrow> unat (word_of_int i :: 32 word) = nat i"
  by (simp add: unsigned_of_int take_bit_int_eq_self)

lemma unat_by_sign:
  fixes k :: "32 word"
  shows "sint k < 0 \<Longrightarrow> unat (- k) = nat (- sint k)" "0 \<le> sint k \<Longrightarrow> unat k = nat (sint k)"
proof -
  have b: "- (2 ^ 31) \<le> sint k" "sint k < 2 ^ 31" using sint_range_size [of k] by (simp_all add: word_size)
  have k: "word_of_int (sint k) = k" by simp
  show "unat k = nat (sint k)" if "0 \<le> sint k" using unat_word_of_int [of "sint k"] that b unfolding k by simp
  assume neg: "sint k < 0"
  have "word_of_int (- sint k) = - k" by (simp add: k)
  with unat_word_of_int [of "- sint k"] neg b show "unat (- k) = nat (- sint k)" by simp
qed

lemma lj_str_bufint_digits: "lj_str_bufint k = to_string_int (sint k)"
  using unat_by_sign [of k] by (simp add: lj_str_bufint_def word_sless_alt bufint_loop_digits to_string_int_def)
text \<open>
  C25: an integer printed by \<open>lj_str_bufint\<close>, the smallest one included, is read back by the number scanner: as itself
  if integers are asked for, and as the double of the same value if doubles are.
\<close>

theorem lj_str_bufint_scan:
  assumes "\<not> opt_c opt"
  shows "lj_strscan_scan toint (lj_str_bufint k) opt =
    Some (if opt_tonum opt then (STRSCAN_NUM, V_n (dbl_of_int (sint k))) else (STRSCAN_INT, V_i k))"
proof -
  have "- (2 ^ 31) \<le> sint k" "sint k < 2 ^ 31" using sint_range_size [of k] by (simp_all add: word_size)
  from lj_strscan_scan_int [OF this assms, of toint] show ?thesis by (simp add: lj_str_bufint_digits)
qed

definition sample_opt :: scan_opt where
  "sample_opt = \<lparr>opt_toint = True, opt_tonum = False, opt_imag = False, opt_ll = False, opt_c = False\<rparr>"

theorem lj_str_bufint_scan_witness:
  "lj_strscan_scan (\<lambda>_. None) (lj_str_bufint 0x80000000) sample_opt = Some (STRSCAN_INT, V_i 0x80000000)"
  using lj_str_bufint_scan [of sample_opt "\<lambda>_. None" "0x80000000"] by (simp add: sample_opt_def)

subsection \<open>Formatted messages\<close>

text \<open>The reference: the format character by character.\<close>

definition conversion :: "(64 word \<Rightarrow> string) \<Rightarrow> char \<Rightarrow> fmt_arg list \<Rightarrow> (string \<times> fmt_arg list) option" where
  "conversion numfmt c args =
     (if c = CHR ''%'' then Some (''%'', args)
      else if c \<in> set ''scdfp'' then
        (case args of [] \<Rightarrow> None
         | a # as \<Rightarrow>
             (case (c, a) of
                (CHR ''s'', A_s s) \<Rightarrow> Some (case s of None \<Rightarrow> ''(null)'' | Some x \<Rightarrow> x, as)
              | (CHR ''c'', A_c k) \<Rightarrow> Some ([char_of (unat k)], as)
              | (CHR ''d'', A_d k) \<Rightarrow> Some (to_string_int (sint k), as)
              | (CHR ''f'', A_f w) \<Rightarrow> Some (lj_str_bufnum numfmt w, as)
              | (CHR ''p'', A_p p) \<Rightarrow> Some (bufptr p, as)
              | _ \<Rightarrow> None))
      else Some ([CHR ''%'', c], args))"

fun format :: "(64 word \<Rightarrow> string) \<Rightarrow> string \<Rightarrow> fmt_arg list \<Rightarrow> string option" where
  "format numfmt [] args = Some []"
| "format numfmt [c] args = (if c = CHR ''%'' then None else Some [c])"
| "format numfmt (c # d # fmt) args =
     (if c = CHR ''%'' then
        (case conversion numfmt d args of None \<Rightarrow> None | Some (x, args') \<Rightarrow> map_option (append x) (format numfmt fmt args'))
      else map_option (Cons c) (format numfmt (d # fmt) args))"

lemma format_literal: "CHR ''%'' \<notin> set pre \<Longrightarrow> format numfmt (pre @ fmt) args = map_option (append pre) (format numfmt fmt args)"
proof (induction pre)
  case Nil
  then show ?case by (simp add: option.map_ident)
next
  case (Cons c pre)
  then have c: "c \<noteq> CHR ''%''" and IH: "format numfmt (pre @ fmt) args = map_option (append pre) (format numfmt fmt args)" by auto
  have "format numfmt (c # pre @ fmt) args = map_option (Cons c) (format numfmt (pre @ fmt) args)"
    using c by (cases "pre @ fmt") simp_all
  with IH show ?case by (simp add: option.map_comp o_def)
qed

text \<open>The buffer holds what was written.\<close>

definition buf_ok :: "SBuf \<Rightarrow> bool" where
  "buf_ok sb \<longleftrightarrow> length (sb_buf sb) \<le> unat (sb_sz sb) \<and> 0 < unat (sb_sz sb)"

lemma unat_of_nat_32: "n < 2 ^ 32 \<Longrightarrow> unat (of_nat n :: 32 word) = n"
  by (simp add: unsigned_of_nat take_bit_nat_eq_self)

lemma double_size: "unat sz < 2 ^ 31 \<Longrightarrow> unat (sz * 2) = 2 * unat sz" for sz :: "32 word"
  using unat_mult_lem [of sz 2] by simp

lemma grow_size_ok:
  assumes "unat need \<le> 2 ^ 31" "0 < unat sz"
  shows "\<exists>sz'. grow_size need sz = Some sz' \<and> need \<le> sz' \<and> 0 < unat sz'"
  using assms(2)
proof (induction "2 ^ 31 - unat sz" arbitrary: sz rule: less_induct)
  case less
  show ?case
  proof (cases "need > sz")
    case True
    then have lt: "unat sz < 2 ^ 31" using assms(1) by (simp add: word_less_nat_alt)
    note d = double_size [OF lt]
    have "\<exists>sz'. grow_size need (sz * 2) = Some sz' \<and> need \<le> sz' \<and> 0 < unat sz'"
      using d lt less.prems by (intro less.hyps) auto
    with True show ?thesis by (subst grow_size.simps) simp
  next
    case False
    with less.prems show ?thesis by (subst grow_size.simps) simp
  qed
qed

lemma addstr_buf: "addstr sb x = Some sb' \<Longrightarrow> sb_buf sb' = sb_buf sb @ x"
  by (auto simp: addstr_def Let_def split: option.splits)

lemma addstr_ok:
  assumes "buf_ok sb" "length (sb_buf sb) + length x \<le> 2 ^ 31"
  obtains sb' where "addstr sb x = Some sb'" "sb_buf sb' = sb_buf sb @ x" "buf_ok sb'"
proof -
  let ?need = "sb_n sb + of_nat (length x)"
  have need: "unat ?need = length (sb_buf sb) + length x"
    using assms(2) unat_of_nat_32 [of "length (sb_buf sb) + length x"] by (simp add: sb_n_def)
  show thesis
  proof (cases "?need > sb_sz sb")
    case True
    then have lt: "unat (sb_sz sb) < 2 ^ 31" using need assms(2) by (simp add: word_less_nat_alt)
    obtain sz' where "grow_size ?need (sb_sz sb * 2) = Some sz'" "?need \<le> sz'" "0 < unat sz'"
      using grow_size_ok [of ?need "sb_sz sb * 2"] double_size [OF lt] need assms by (auto simp: buf_ok_def)
    with True need show thesis by (intro that) (auto simp: addstr_def Let_def buf_ok_def word_le_nat_alt)
  next
    case False
    with need assms(1) show thesis by (intro that) (auto simp: addstr_def Let_def buf_ok_def word_less_nat_alt)
  qed
qed

lemma addchar_ok:
  assumes "buf_ok sb" "length (sb_buf sb) < 2 ^ 31"
  shows "buf_ok (addchar sb c)"
proof -
  have n: "unat (sb_n sb + 1) = length (sb_buf sb) + 1"
    using assms(2) unat_of_nat_32 [of "length (sb_buf sb) + 1"] by (simp add: sb_n_def add.commute)
  show ?thesis
  proof (cases "sb_n sb + 1 > sb_sz sb")
    case True
    then have "unat (sb_sz sb) = length (sb_buf sb)" using assms(1) n by (simp add: buf_ok_def word_less_nat_alt)
    with double_size [of "sb_sz sb"] assms True show ?thesis by (simp add: addchar_def buf_ok_def Suc_le_eq)
  next
    case False
    with assms(1) n show ?thesis by (simp add: addchar_def buf_ok_def word_less_nat_alt)
  qed
qed

lemma directive_eq:
  "directive numfmt c args sb =
    (case conversion numfmt c args of None \<Rightarrow> None
     | Some (x, args') \<Rightarrow>
         if c \<in> set ''sdfp'' then map_option (\<lambda>sb'. (sb', args')) (addstr sb x)
         else Some (fold (\<lambda>d sb. addchar sb d) x sb, args'))"
proof (cases "c \<in> set ''scdfp''")
  case True
  then consider "c = CHR ''s''" | "c = CHR ''c''" | "c = CHR ''d''" | "c = CHR ''f''" | "c = CHR ''p''" by auto
  then show ?thesis
    by cases (cases args; simp add: directive_def conversion_def lj_str_bufint_digits split: fmt_arg.split)+
next
  case False
  then show ?thesis by (simp add: directive_def conversion_def)
qed

lemma fold_addchar_buf: "sb_buf (fold (\<lambda>d sb. addchar sb d) x sb) = sb_buf sb @ x"
  by (induction x arbitrary: sb) (simp_all add: addchar_def)

lemma fold_addchar_ok:
  "buf_ok sb \<Longrightarrow> length (sb_buf sb) + length x \<le> 2 ^ 31 \<Longrightarrow> buf_ok (fold (\<lambda>d sb. addchar sb d) x sb)"
proof (induction x arbitrary: sb)
  case (Cons d x)
  have "buf_ok (addchar sb d)" using addchar_ok [OF Cons.prems(1)] Cons.prems(2) by simp
  with Cons.IH [OF this] Cons.prems(2) show ?case by (simp add: addchar_def)
qed simp

lemma directive_conversion:
  assumes "directive numfmt c args sb = Some (sb', args')"
  shows "\<exists>x. conversion numfmt c args = Some (x, args') \<and> sb_buf sb' = sb_buf sb @ x"
  using assms unfolding directive_eq
  by (auto dest: addstr_buf simp: fold_addchar_buf split: option.splits if_splits simp del: list.set)

lemma directive_ok:
  assumes "conversion numfmt c args = Some (x, args')" "buf_ok sb" "length (sb_buf sb) + length x \<le> 2 ^ 31"
  shows "\<exists>sb'. directive numfmt c args sb = Some (sb', args') \<and> buf_ok sb'"
proof -
  obtain sb1 where "addstr sb x = Some sb1" "buf_ok sb1" using addstr_ok [OF assms(2,3)] .
  with assms(1) fold_addchar_ok [OF assms(2,3)] show ?thesis unfolding directive_eq by (simp del: list.set)
qed

lemma format_step:
  assumes "dropWhile (\<lambda>c. c \<noteq> CHR ''%'') fmt = p # c # rest"
  shows "format numfmt fmt args = map_option (append (takeWhile (\<lambda>c. c \<noteq> CHR ''%'') fmt))
    (case conversion numfmt c args of None \<Rightarrow> None | Some (x, args') \<Rightarrow> map_option (append x) (format numfmt rest args'))"
proof -
  let ?pre = "takeWhile (\<lambda>c. c \<noteq> CHR ''%'') fmt"
  have p: "p = CHR ''%''" using hd_dropWhile [of "\<lambda>c. c \<noteq> CHR ''%''" fmt] assms by simp
  have "CHR ''%'' \<notin> set ?pre" by (auto dest: set_takeWhileD)
  from format_literal [OF this, of numfmt "p # c # rest" args] have
    "format numfmt fmt args = map_option (append ?pre) (format numfmt (p # c # rest) args)"
    using takeWhile_dropWhile_id [of "\<lambda>c. c \<noteq> CHR ''%''" fmt] assms by simp
  with p show ?thesis by simp
qed

lemma format_last:
  assumes "dropWhile (\<lambda>c. c \<noteq> CHR ''%'') fmt = ds" "length ds < 2"
  shows "format numfmt fmt args = (if ds = [] then Some fmt else None)"
proof -
  let ?pre = "takeWhile (\<lambda>c. c \<noteq> CHR ''%'') fmt"
  have f: "fmt = ?pre @ ds" using takeWhile_dropWhile_id [of "\<lambda>c. c \<noteq> CHR ''%''" fmt] assms(1) by simp
  have "CHR ''%'' \<notin> set ?pre" by (auto dest: set_takeWhileD)
  from format_literal [OF this, of numfmt ds args] f have
    e: "format numfmt fmt args = map_option (append ?pre) (format numfmt ds args)" by simp
  show ?thesis
  proof (cases ds)
    case Nil
    with e f show ?thesis by simp
  next
    case (Cons d ds')
    have "d = CHR ''%''" using hd_dropWhile [of "\<lambda>c. c \<noteq> CHR ''%''" fmt] assms(1) Cons by simp
    with e Cons assms(2) show ?thesis by simp
  qed
qed

lemma pushvf_loop_end: "dropWhile (\<lambda>c. c \<noteq> CHR ''%'') fmt = [] \<Longrightarrow> pushvf_loop numfmt fmt args sb = addstr sb fmt"
  by (subst pushvf_loop.simps) (simp only: list.case)

lemma pushvf_loop_bad: "dropWhile (\<lambda>c. c \<noteq> CHR ''%'') fmt = [p] \<Longrightarrow> pushvf_loop numfmt fmt args sb = None"
  by (subst pushvf_loop.simps) (simp only: list.case)

lemma pushvf_loop_step:
  "dropWhile (\<lambda>c. c \<noteq> CHR ''%'') fmt = p # c # rest \<Longrightarrow> pushvf_loop numfmt fmt args sb =
    (case addstr sb (takeWhile (\<lambda>c. c \<noteq> CHR ''%'') fmt) of None \<Rightarrow> None
     | Some sb1 \<Rightarrow> (case directive numfmt c args sb1 of None \<Rightarrow> None | Some (sb2, args') \<Rightarrow> pushvf_loop numfmt rest args' sb2))"
  by (subst pushvf_loop.simps) (simp only: list.case)

text \<open>The loop writes what the format says, and nothing else.\<close>

lemma pushvf_loop_sound:
  "pushvf_loop numfmt fmt args sb = Some sb' \<Longrightarrow>
    \<exists>out. format numfmt fmt args = Some out \<and> sb_buf sb' = sb_buf sb @ out"
proof (induction numfmt fmt args sb arbitrary: sb' rule: pushvf_loop.induct)
  case (1 numfmt fmt args sb)
  note run = 1(2)
  let ?ds = "dropWhile (\<lambda>c. c \<noteq> CHR ''%'') fmt"
  consider "?ds = []" | p where "?ds = [p]" | p c rest where "?ds = p # c # rest" by (metis list.exhaust)
  then show ?case
  proof cases
    case 1
    from run have "addstr sb fmt = Some sb'" unfolding pushvf_loop_end [OF 1] .
    from addstr_buf [OF this] format_last [OF 1, of numfmt args] show ?thesis by simp
  next
    case 2
    from run show ?thesis unfolding pushvf_loop_bad [OF 2] by simp
  next
    case 3
    from run [unfolded pushvf_loop_step [OF 3]] obtain sb1 sb2 args' where
      a: "addstr sb (takeWhile (\<lambda>c. c \<noteq> CHR ''%'') fmt) = Some sb1" and
      d: "directive numfmt c args sb1 = Some (sb2, args')" and
      l: "pushvf_loop numfmt rest args' sb2 = Some sb'"
      by (auto split: option.splits)
    from "1.IH" [OF 3 refl a d refl l] obtain out where
      o: "format numfmt rest args' = Some out" "sb_buf sb' = sb_buf sb2 @ out" by blast
    from directive_conversion [OF d] addstr_buf [OF a] o show ?thesis by (auto simp: format_step [OF 3])
  qed
qed

lemma pushvf_loop_ok:
  assumes "format numfmt fmt args = Some out" "buf_ok sb" "length (sb_buf sb) + length out \<le> 2 ^ 31"
  shows "\<exists>sb'. pushvf_loop numfmt fmt args sb = Some sb' \<and> buf_ok sb'"
  using assms
proof (induction numfmt fmt args sb arbitrary: out rule: pushvf_loop.induct)
  case (1 numfmt fmt args sb)
  note ok = 1(2-4)
  let ?ds = "dropWhile (\<lambda>c. c \<noteq> CHR ''%'') fmt" and ?pre = "takeWhile (\<lambda>c. c \<noteq> CHR ''%'') fmt"
  consider "?ds = []" | p where "?ds = [p]" | p c rest where "?ds = p # c # rest" by (metis list.exhaust)
  then show ?case
  proof cases
    case 1
    with ok(1) format_last [OF 1, of numfmt args] have "out = fmt" by simp
    obtain sb' where "addstr sb fmt = Some sb'" "buf_ok sb'"
      by (rule addstr_ok [OF ok(2), of fmt]) (use ok(3) \<open>out = fmt\<close> in simp_all)
    then show ?thesis unfolding pushvf_loop_end [OF 1] by simp
  next
    case 2
    with ok(1) format_last [OF 2, of numfmt args] show ?thesis by simp
  next
    case 3
    from ok(1) obtain x args' tl where
      c: "conversion numfmt c args = Some (x, args')" and f: "format numfmt rest args' = Some tl" and out: "out = ?pre @ x @ tl"
      by (auto simp: format_step [OF 3] split: option.splits)
    obtain sb1 where a: "addstr sb ?pre = Some sb1" "sb_buf sb1 = sb_buf sb @ ?pre" "buf_ok sb1"
      by (rule addstr_ok [OF ok(2), of ?pre]) (use ok(3) out in simp_all)
    obtain sb2 where d: "directive numfmt c args sb1 = Some (sb2, args')" "buf_ok sb2"
      using directive_ok [OF c a(3)] a(2) ok(3) out by auto
    have "sb_buf sb2 = sb_buf sb1 @ x" using directive_conversion [OF d(1)] c by simp
    then have "length (sb_buf sb2) + length tl \<le> 2 ^ 31" using a(2) ok(3) out by simp
    from "1.IH" [OF 3 refl a(1) d(1) refl f d(2) this] show ?thesis by (simp add: pushvf_loop_step [OF 3] a(1) d(1))
  qed
qed

lemma buf_ok_reset:
  assumes "length fmt < 2 ^ 32" "fmt \<noteq> []"
  shows "buf_ok ((lj_str_needbuf sb (of_nat (length fmt)))\<lparr>sb_buf := []\<rparr>)"
proof -
  have "0 < unat (of_nat (length fmt) :: 32 word)" using assms unat_of_nat_32 by simp
  then have "0 < (of_nat (length fmt) :: 32 word)" by (simp add: word_less_nat_alt)
  then have "0 < sb_sz (lj_str_needbuf sb (of_nat (length fmt)))"
    by (auto simp: lj_str_needbuf_def not_less intro: less_le_trans)
  then show ?thesis by (simp add: buf_ok_def word_less_nat_alt)
qed

lemma new_object:
  assumes "str_ok g" "0 < g_alloc g" "length x < LJ_MAX_STR"
  shows "\<exists>s g'. lj_str_new near_page after junk g x = Some (s, g') \<and> str_ok g' \<and> 0 < g_alloc g' \<and> s_data s = x"
  using st.intern_ok [of g "(near_page, after, junk, x)"] assms by (auto simp: call_new_def)

text \<open>
  C30: formatted messages. If the format and its arguments make the message \<open>out\<close>, and it is not too long for a string,
  \<open>lj_str_pushvf\<close> returns a string object that holds \<open>out\<close>; the buffer, whatever it was before, holds all of
  it and is never written behind its end; if the arguments do not fit the format, the call has no
  defined result.
\<close>

theorem lj_str_pushvf_format:
  assumes "str_ok g" "0 < g_alloc g" "length fmt < 2 ^ 32"
  shows "case format numfmt fmt args of
      None \<Rightarrow> lj_str_pushvf numfmt near_page after junk g tmpbuf fmt args = None
    | Some out \<Rightarrow> length out < LJ_MAX_STR \<longrightarrow>
        (\<exists>s g' sb. lj_str_pushvf numfmt near_page after junk g tmpbuf fmt args = Some (s, g', sb) \<and>
          s_data s = out \<and> str_ok g' \<and> sb_buf sb = out \<and> length out \<le> unat (sb_sz sb))"
proof (cases "format numfmt fmt args")
  case None
  then have "pushvf_loop numfmt fmt args sb = None" for sb
    using pushvf_loop_sound [of numfmt fmt args sb] by (cases "pushvf_loop numfmt fmt args sb") auto
  with None show ?thesis by (simp add: lj_str_pushvf_def)
next
  case (Some out)
  let ?sb = "(lj_str_needbuf tmpbuf (of_nat (length fmt)))\<lparr>sb_buf := []\<rparr>"
  have "\<exists>sb. pushvf_loop numfmt fmt args ?sb = Some sb \<and> length (sb_buf sb) \<le> unat (sb_sz sb)" if "length out < LJ_MAX_STR"
  proof (cases "fmt = []")
    case True
    then show ?thesis using pushvf_loop_end [of fmt] by (simp add: addstr_def Let_def sb_n_def)
  next
    case False
    from pushvf_loop_ok [OF Some buf_ok_reset [OF assms(3) this]] that show ?thesis by (simp add: buf_ok_def) blast
  qed
  moreover have "sb_buf sb = out" if "pushvf_loop numfmt fmt args ?sb = Some sb" for sb
    using pushvf_loop_sound [OF that] Some by simp
  moreover have "\<exists>s g'. lj_str_new near_page after junk g out = Some (s, g') \<and> str_ok g' \<and> s_data s = out"
    if "length out < LJ_MAX_STR" using new_object [OF assms(1,2) that, of near_page after junk] by blast
  ultimately show ?thesis using Some by (fastforce simp: lj_str_pushvf_def Let_def)
qed

definition sample_table :: strtab where
  "sample_table = lj_str_resize strtab_init (LJ_MIN_STRTAB - 1)"

theorem lj_str_pushvf_format_witness:
  "\<exists>s g' sb. lj_str_pushvf (\<lambda>_. ''1'') True [] [] sample_table \<lparr>sb_buf = [], sb_sz = 0\<rparr> ''%s:%d'' [A_s (Some ''chunk''), A_d (- 7)] =
      Some (s, g', sb) \<and>
    s_data s = ''chunk:-7'' \<and> str_ok g' \<and> sb_buf sb = ''chunk:-7'' \<and> length ''chunk:-7'' \<le> unat (sb_sz sb)"
proof -
  have t: "str_ok sample_table" "0 < g_alloc sample_table" using initial_table by (simp_all add: sample_table_def)
  have f: "format (\<lambda>_. ''1'') ''%s:%d'' [A_s (Some ''chunk''), A_d (- 7)] = Some ''chunk:-7''"
    by (simp add: conversion_def to_string_int_def nat_digits.simps digit_char_def)
  have l: "length ''%s:%d'' < 2 ^ 32" by simp
  show ?thesis
    using lj_str_pushvf_format [OF t l, where numfmt = "\<lambda>_. ''1''" and args = "[A_s (Some ''chunk''), A_d (- 7)]"
      and near_page = True and after = "[]" and junk = "[]" and tmpbuf = "\<lparr>sb_buf = [], sb_sz = 0\<rparr>"]
    unfolding f by simp
qed

end
