(* ===== verification/Lj_Match.thy ===== *)
theory Lj_Match
  imports Lj_Char Web_Prelude
begin

text \<open>
  \<open>lib_string.c\<close>: the pattern matcher and the functions built on it, \<open>string.find\<close>, \<open>string.match\<close>,
  \<open>string.gmatch\<close> and \<open>string.gsub\<close>. Pointers into the subject and the pattern are indices; both strings
  are followed by a NUL, and reading behind it is the error \<open>M_overread\<close>. The other errors are those the
  matcher raises. The array of captures is a list of its first \<open>level\<close> entries; the depth of the
  recursion, which the code counts up on entry and down on exit, is an argument.
\<close>

subsection \<open>Errors and reads\<close>

datatype pat_errmsg = ERR_STRPATB | ERR_STRPATC | ERR_STRPATE | ERR_STRPATM | ERR_STRPATU | ERR_STRPATX
  | ERR_STRCAPI | ERR_STRCAPN | ERR_STRCAPU | ERR_STRGSRV

datatype match_error = M_overread | M_err pat_errmsg | M_lua string

type_synonym 'a mres = "match_error + 'a"

definition mbind :: "'a mres \<Rightarrow> ('a \<Rightarrow> 'b mres) \<Rightarrow> 'b mres" where
  "mbind m f = (case m of Inl e \<Rightarrow> Inl e | Inr x \<Rightarrow> f x)"

lemma mbind_simps [simp]: "mbind (Inl e) f = Inl e" "mbind (Inr x) f = f x"
  by (simp_all add: mbind_def)

lemma mbind_cong [fundef_cong]: "m = n \<Longrightarrow> (\<And>x. n = Inr x \<Longrightarrow> f x = g x) \<Longrightarrow> mbind m f = mbind n g"
  by (cases n) simp_all

lemma mbind_Inr: "mbind m f = Inr y \<longleftrightarrow> (\<exists>x. m = Inr x \<and> f x = Inr y)"
  by (cases m) simp_all

lemma mbind_Inl: "mbind m f = Inl e \<longleftrightarrow> m = Inl e \<or> (\<exists>x. m = Inr x \<and> f x = Inl e)"
  by (cases m) auto

text \<open>A character of a string with its terminator, as an unsigned number.\<close>

definition rd :: "string \<Rightarrow> nat \<Rightarrow> nat mres" where
  "rd x i = (if i < length x then Inr (of_char (x ! i)) else if i = length x then Inr 0 else Inl M_overread)"

text \<open>\<open>n\<close> characters from index \<open>i\<close> on.\<close>

definition rd_mem :: "string \<Rightarrow> nat \<Rightarrow> nat \<Rightarrow> string mres" where
  "rd_mem x i n = (if i + n \<le> length x then Inr (take n (drop i x)) else Inl M_overread)"

abbreviation ch :: "char \<Rightarrow> nat" where "ch c \<equiv> of_char c"
abbreviation L_ESC :: nat where "L_ESC \<equiv> ch (CHR ''%'')"

subsection \<open>Captures\<close>

abbreviation CAP_UNFINISHED :: int where "CAP_UNFINISHED \<equiv> -1"
abbreviation CAP_POSITION :: int where "CAP_POSITION \<equiv> -2"
abbreviation LUA_MAXCAPTURES :: nat where "LUA_MAXCAPTURES \<equiv> 32"
abbreviation LJ_MAX_XLEVEL :: nat where "LJ_MAX_XLEVEL \<equiv> 200"

record capture =
  c_init :: nat
  c_len :: int

definition check_capture :: "capture list \<Rightarrow> nat \<Rightarrow> nat mres" where
  "check_capture cs l0 =
     (let l = int l0 - of_char (CHR ''1'') in
      if l < 0 \<or> l \<ge> int (length cs) \<or> c_len (cs ! nat l) = CAP_UNFINISHED then Inl (M_err ERR_STRCAPI) else Inr (nat l))"

fun capture_to_close_from :: "capture list \<Rightarrow> nat \<Rightarrow> nat mres" where
  "capture_to_close_from cs 0 = Inl (M_err ERR_STRPATC)"
| "capture_to_close_from cs (Suc level) =
     (if c_len (cs ! level) = CAP_UNFINISHED then Inr level else capture_to_close_from cs level)"

definition capture_to_close :: "capture list \<Rightarrow> nat mres" where
  "capture_to_close cs = capture_to_close_from cs (length cs)"

subsection \<open>Single characters\<close>

text \<open>The search for the end of a set; a bracket at its beginning belongs to it.\<close>

function set_end :: "string \<Rightarrow> nat \<Rightarrow> nat mres" where
  "set_end pat p =
     mbind (rd pat p) (\<lambda>c.
       if c = 0 then Inl (M_err ERR_STRPATM)
       else mbind (if c = L_ESC then mbind (rd pat (p + 1)) (\<lambda>c1. Inr (if c1 \<noteq> 0 then p + 2 else p + 1)) else Inr (p + 1)) (\<lambda>p1.
         mbind (rd pat p1) (\<lambda>c1. if c1 = ch (CHR '']'') then Inr (p1 + 1) else set_end pat p1)))"
  by auto
termination
  by (relation "measure (\<lambda>(pat, p). length pat + 1 - p)")
    (auto simp: rd_def mbind_Inr split: if_splits)

declare set_end.simps [simp del]

definition classend :: "string \<Rightarrow> nat \<Rightarrow> nat mres" where
  "classend pat p =
     mbind (rd pat p) (\<lambda>c.
       if c = L_ESC then
         mbind (rd pat (p + 1)) (\<lambda>c1. if c1 = 0 then Inl (M_err ERR_STRPATE) else Inr (p + 2))
       else if c = ch (CHR ''['') then
         mbind (rd pat (p + 1)) (\<lambda>c1. set_end pat (if c1 = ch (CHR ''^'') then p + 2 else p + 1))
       else Inr (p + 1))"

definition match_class_map :: "nat list" where
  "match_class_map =
     [0, LJ_CHAR_ALPHA, 0, LJ_CHAR_CNTRL, LJ_CHAR_DIGIT, 0, 0, LJ_CHAR_GRAPH, 0, 0, 0, 0,
      LJ_CHAR_LOWER, 0, 0, 0, LJ_CHAR_PUNCT, 0, 0, LJ_CHAR_SPACE, 0,
      LJ_CHAR_UPPER, 0, LJ_CHAR_ALNUM, LJ_CHAR_XDIGIT, 0, 0, 0, 0, 0, 0, 0]"

definition match_class :: "nat \<Rightarrow> nat \<Rightarrow> bool" where
  "match_class c cl =
     (let t = match_class_map ! (cl AND 0x1f) in
      if cl AND 0xc0 = 0x40 \<and> t \<noteq> 0 then
        (let r = lj_char_isa (int c) t in if cl AND 0x20 \<noteq> 0 then r \<noteq> 0 else r = 0)
      else if cl AND 0xc0 = 0x40 \<and> cl = ch (CHR ''z'') then c = 0
      else if cl AND 0xc0 = 0x40 \<and> cl = ch (CHR ''Z'') then c \<noteq> 0
      else cl = c)"

text \<open>The loop over a set up to \<open>ec\<close>, which increments \<open>p\<close> before it looks at it.\<close>

function bracket_loop :: "string \<Rightarrow> nat \<Rightarrow> bool \<Rightarrow> nat \<Rightarrow> nat \<Rightarrow> bool mres" where
  "bracket_loop pat c sig p0 ec =
     (let p = p0 + 1 in
      if p < ec then
        mbind (rd pat p) (\<lambda>x.
          if x = L_ESC then
            mbind (rd pat (p + 1)) (\<lambda>y. if match_class c y then Inr sig else bracket_loop pat c sig (p + 1) ec)
          else
            mbind (rd pat (p + 1)) (\<lambda>y.
              if y = ch (CHR ''-'') \<and> p + 2 < ec then
                mbind (rd pat (p + 2)) (\<lambda>z. if x \<le> c \<and> c \<le> z then Inr sig else bracket_loop pat c sig (p + 2) ec)
              else if x = c then Inr sig
              else bracket_loop pat c sig p ec))
      else Inr (\<not> sig))"
  by auto
termination by (relation "measure (\<lambda>(pat, c, sig, p, ec). ec - p)") auto

declare bracket_loop.simps [simp del]

definition matchbracketclass :: "string \<Rightarrow> nat \<Rightarrow> nat \<Rightarrow> nat \<Rightarrow> bool mres" where
  "matchbracketclass pat c p ec =
     mbind (rd pat (p + 1)) (\<lambda>x.
       if x = ch (CHR ''^'') then bracket_loop pat c False (p + 1) ec else bracket_loop pat c True p ec)"

definition singlematch :: "string \<Rightarrow> nat \<Rightarrow> nat \<Rightarrow> nat \<Rightarrow> bool mres" where
  "singlematch pat c p ep =
     mbind (rd pat p) (\<lambda>x.
       if x = ch (CHR ''.'') then Inr True
       else if x = L_ESC then mbind (rd pat (p + 1)) (\<lambda>y. Inr (match_class c y))
       else if x = ch (CHR ''['') then matchbracketclass pat c p (ep - 1)
       else Inr (x = c))"

text \<open>\<open>s<ms->src_end && singlematch(uchar(*s), p, ep)\<close>.\<close>

definition single_at :: "string \<Rightarrow> string \<Rightarrow> nat \<Rightarrow> nat \<Rightarrow> nat \<Rightarrow> bool mres" where
  "single_at src pat s p ep = (if s < length src then singlematch pat (of_char (src ! s)) p ep else Inr False)"

subsection \<open>Items\<close>

function balance_loop :: "string \<Rightarrow> nat \<Rightarrow> nat \<Rightarrow> nat \<Rightarrow> nat \<Rightarrow> nat option" where
  "balance_loop src s0 b e cont =
     (let s = s0 + 1 in
      if s < length src then
        if of_char (src ! s) = e then (if cont - 1 = 0 then Some (s + 1) else balance_loop src s b e (cont - 1))
        else if of_char (src ! s) = b then balance_loop src s b e (cont + 1)
        else balance_loop src s b e cont
      else None)"
  by auto
termination by (relation "measure (\<lambda>(src, s, b, e, cont). length src - s)") auto

declare balance_loop.simps [simp del]

definition matchbalance :: "string \<Rightarrow> string \<Rightarrow> nat \<Rightarrow> nat \<Rightarrow> nat option mres" where
  "matchbalance src pat s p =
     mbind (rd pat p) (\<lambda>b.
       if b = 0 then Inl (M_err ERR_STRPATU)
       else mbind (rd pat (p + 1)) (\<lambda>e.
         if e = 0 then Inl (M_err ERR_STRPATU)
         else mbind (rd src s) (\<lambda>x. Inr (if x \<noteq> b then None else balance_loop src s b e 1))))"

text \<open>\<open>memcmp\<close> of a capture; its length is converted to \<open>size_t\<close>.\<close>

definition match_capture :: "string \<Rightarrow> capture list \<Rightarrow> nat \<Rightarrow> nat \<Rightarrow> nat option mres" where
  "match_capture src cs s l0 =
     mbind (check_capture cs l0) (\<lambda>l.
       let len = nat (c_len (cs ! l) mod 2 ^ 64) in
       if length src - s \<ge> len then
         mbind (rd_mem src (c_init (cs ! l)) len) (\<lambda>x. mbind (rd_mem src s len) (\<lambda>y. Inr (if x = y then Some (s + len) else None)))
       else Inr None)"

text \<open>The frontier test: the previous character is outside of the set and the next one inside.\<close>

definition frontier :: "string \<Rightarrow> string \<Rightarrow> nat \<Rightarrow> nat \<Rightarrow> nat \<Rightarrow> bool mres" where
  "frontier src pat s p ep =
     mbind (if s = 0 then Inr 0 else rd src (s - 1)) (\<lambda>previous.
     mbind (matchbracketclass pat previous p (ep - 1)) (\<lambda>m.
       if m then Inr False
       else mbind (rd src s) (\<lambda>c. matchbracketclass pat c p (ep - 1))))"

text \<open>How the matcher goes on at \<open>p\<close>: the cases of its \<open>switch\<close>.\<close>

datatype item = I_open nat int | I_close | I_balance | I_frontier | I_capture nat | I_end | I_dollar | I_single

definition item_at :: "string \<Rightarrow> nat \<Rightarrow> item mres" where
  "item_at pat p =
     mbind (rd pat p) (\<lambda>c.
       if c = ch (CHR ''('') then
         mbind (rd pat (p + 1)) (\<lambda>c1. Inr (if c1 = ch (CHR '')'') then I_open (p + 2) CAP_POSITION else I_open (p + 1) CAP_UNFINISHED))
       else if c = ch (CHR '')'') then Inr I_close
       else if c = L_ESC then
         mbind (rd pat (p + 1)) (\<lambda>c1.
           Inr (if c1 = ch (CHR ''b'') then I_balance
                else if c1 = ch (CHR ''f'') then I_frontier
                else if lj_char_isdigit (int c1) then I_capture c1
                else I_single))
       else if c = 0 then Inr I_end
       else if c = ch (CHR ''$'') then
         mbind (rd pat (p + 1)) (\<lambda>c1. Inr (if c1 \<noteq> 0 then I_single else I_dollar))
       else Inr I_single)"

subsection \<open>The matcher\<close>

text \<open>The first loop of \<open>max_expand\<close>: how often the item at \<open>p\<close> matches from \<open>s + i\<close> on.\<close>

function max_count :: "string \<Rightarrow> string \<Rightarrow> nat \<Rightarrow> nat \<Rightarrow> nat \<Rightarrow> nat \<Rightarrow> nat mres" where
  "max_count src pat s p ep i =
     mbind (single_at src pat (s + i) p ep) (\<lambda>m. if m then max_count src pat s p ep (i + 1) else Inr i)"
  by auto
termination
  by (relation "measure (\<lambda>(src, pat, s, p, ep, i). length src - (s + i))") (auto simp: single_at_def split: if_splits)

declare max_count.simps [simp del]

lemma item_at_reads: "item_at pat p = Inr k \<Longrightarrow> p \<le> length pat"
  by (auto simp: item_at_def rd_def mbind_Inr split: if_splits)

lemma item_at_open: "item_at pat p = Inr (I_open p' what) \<Longrightarrow> p \<le> length pat \<and> p < p'"
  using item_at_reads [of pat p] by (auto simp: item_at_def mbind_Inr split: if_splits)

lemma set_end_progress: "set_end pat p = Inr ep \<Longrightarrow> p < ep"
proof (induction pat p rule: set_end.induct)
  case (1 pat p)
  from 1(2) show ?case
    by (subst (asm) set_end.simps) (auto simp: mbind_Inr split: if_splits dest!: 1(1) [rotated -1])
qed

lemma classend_progress: "classend pat p = Inr ep \<Longrightarrow> p < ep"
  by (auto simp: classend_def mbind_Inr split: if_splits dest!: set_end_progress)

text \<open>
  \<open>match\<close> checks the depth; \<open>match_init\<close> is the loop at its label \<open>init\<close>; \<open>max_loop\<close> and \<open>min_loop\<close> are the
  loops that try the rest of the pattern after \<open>i\<close> repetitions, and after one more each time. All four
  return the end of the match, if there is one, and the captures.
\<close>

function (sequential)
  match :: "string \<Rightarrow> string \<Rightarrow> nat \<Rightarrow> capture list \<Rightarrow> nat \<Rightarrow> nat \<Rightarrow> (nat option \<times> capture list) mres"
  and match_init :: "string \<Rightarrow> string \<Rightarrow> nat \<Rightarrow> capture list \<Rightarrow> nat \<Rightarrow> nat \<Rightarrow> (nat option \<times> capture list) mres"
  and max_loop :: "string \<Rightarrow> string \<Rightarrow> nat \<Rightarrow> capture list \<Rightarrow> nat \<Rightarrow> nat \<Rightarrow> nat \<Rightarrow> (nat option \<times> capture list) mres"
  and min_loop :: "string \<Rightarrow> string \<Rightarrow> nat \<Rightarrow> capture list \<Rightarrow> nat \<Rightarrow> nat \<Rightarrow> nat \<Rightarrow> nat \<Rightarrow> (nat option \<times> capture list) mres"
where
  "match src pat d cs s p = (if d + 1 > LJ_MAX_XLEVEL then Inl (M_err ERR_STRPATX) else match_init src pat (d + 1) cs s p)"
| "match_init src pat d cs s p =
     mbind (item_at pat p) (\<lambda>k.
       case k of
         I_open p' what \<Rightarrow>
           if length cs \<ge> LUA_MAXCAPTURES then Inl (M_err ERR_STRCAPN)
           else mbind (match src pat d (cs @ [\<lparr>c_init = s, c_len = what\<rparr>]) s p') (\<lambda>(r, cs'). Inr (r, if r = None then butlast cs' else cs'))
       | I_close \<Rightarrow>
           mbind (capture_to_close cs) (\<lambda>l.
             mbind (match src pat d (cs[l := (cs ! l)\<lparr>c_len := int s - int (c_init (cs ! l))\<rparr>]) s (p + 1)) (\<lambda>(r, cs').
               Inr (r, if r = None then cs'[l := (cs' ! l)\<lparr>c_len := CAP_UNFINISHED\<rparr>] else cs')))
       | I_balance \<Rightarrow>
           mbind (matchbalance src pat s (p + 2)) (\<lambda>r.
             case r of None \<Rightarrow> Inr (None, cs) | Some s' \<Rightarrow> match_init src pat d cs s' (p + 4))
       | I_frontier \<Rightarrow>
           mbind (rd pat (p + 2)) (\<lambda>c.
             if c \<noteq> ch (CHR ''['') then Inl (M_err ERR_STRPATB)
             else mbind (classend pat (p + 2)) (\<lambda>ep.
               mbind (frontier src pat s (p + 2) ep) (\<lambda>b. if \<not> b then Inr (None, cs) else match_init src pat d cs s ep)))
       | I_capture l \<Rightarrow>
           mbind (match_capture src cs s l) (\<lambda>r.
             case r of None \<Rightarrow> Inr (None, cs) | Some s' \<Rightarrow> match_init src pat d cs s' (p + 2))
       | I_end \<Rightarrow> Inr (Some s, cs)
       | I_dollar \<Rightarrow> Inr (if s \<noteq> length src then None else Some s, cs)
       | I_single \<Rightarrow>
           mbind (classend pat p) (\<lambda>ep.
             mbind (single_at src pat s p ep) (\<lambda>m.
               mbind (rd pat ep) (\<lambda>c.
                 if c = ch (CHR ''?'') then
                   mbind (if m then match src pat d cs (s + 1) (ep + 1) else Inr (None, cs)) (\<lambda>(r, cs').
                     case r of Some e \<Rightarrow> Inr (Some e, cs') | None \<Rightarrow> match_init src pat d cs' s (ep + 1))
                 else if c = ch (CHR ''*'') then
                   mbind (max_count src pat s p ep 0) (\<lambda>i. max_loop src pat d cs s (ep + 1) i)
                 else if c = ch (CHR ''+'') then
                   (if m then mbind (max_count src pat (s + 1) p ep 0) (\<lambda>i. max_loop src pat d cs (s + 1) (ep + 1) i)
                    else Inr (None, cs))
                 else if c = ch (CHR ''-'') then min_loop src pat d cs s p ep (ep + 1)
                 else if m then match_init src pat d cs (s + 1) ep
                 else Inr (None, cs)))))"
| "max_loop src pat d cs s p' i =
     mbind (match src pat d cs (s + i) p') (\<lambda>(r, cs').
       case r of Some e \<Rightarrow> Inr (Some e, cs')
       | None \<Rightarrow> if i = 0 then Inr (None, cs') else max_loop src pat d cs' s p' (i - 1))"
| "min_loop src pat d cs s p ep p' =
     mbind (match src pat d cs s p') (\<lambda>(r, cs').
       case r of Some e \<Rightarrow> Inr (Some e, cs')
       | None \<Rightarrow> mbind (single_at src pat s p ep) (\<lambda>m.
           if m then min_loop src pat d cs' (s + 1) p ep p' else Inr (None, cs')))"
  by pat_completeness auto
termination
  by (relation "measures [\<lambda>x. case x of
        Inl (Inl (src, pat, d, cs, s, p)) \<Rightarrow> length pat + 2 - p
      | Inl (Inr (src, pat, d, cs, s, p)) \<Rightarrow> length pat + 2 - p
      | Inr (Inl (src, pat, d, cs, s, p', i)) \<Rightarrow> length pat + 2 - p'
      | Inr (Inr (src, pat, d, cs, s, p, ep, p')) \<Rightarrow> length pat + 2 - p',
    \<lambda>x. case x of
        Inl (Inl (src, pat, d, cs, s, p)) \<Rightarrow> 1
      | Inl (Inr (src, pat, d, cs, s, p)) \<Rightarrow> 0
      | Inr (Inl (src, pat, d, cs, s, p', i)) \<Rightarrow> i + 2
      | Inr (Inr (src, pat, d, cs, s, p, ep, p')) \<Rightarrow> length src - s + 2]")
    (auto dest!: item_at_reads item_at_open classend_progress simp: single_at_def split: if_splits)

declare match.simps [simp del] match_init.simps [simp del] max_loop.simps [simp del] min_loop.simps [simp del]

end
