(* ===== verification/Lj_Match_Sem.thy ===== *)
theory Lj_Match_Sem
  imports Lj_Match
begin

text \<open>
  What a pattern means, as a relation that leaves open how often an item with a suffix repeats, and
  the matcher against it: a match it finds is a match of the relation, and where it finds none there
  is none.
\<close>

subsection \<open>The meaning of patterns\<close>

text \<open>How often an item may match, by the character behind it, and where the rest of the pattern begins.\<close>

definition reps :: "nat \<Rightarrow> nat set" where
  "reps q =
     (if q = ch (CHR ''?'') then {0, 1}
      else if q = ch (CHR ''*'') \<or> q = ch (CHR ''-'') then UNIV
      else if q = ch (CHR ''+'') then {1..}
      else {1})"

definition after_item :: "nat \<Rightarrow> nat \<Rightarrow> nat" where
  "after_item q ep = (if q \<in> ch ` set ''?*-+'' then ep + 1 else ep)"

definition matches_run :: "string \<Rightarrow> string \<Rightarrow> nat \<Rightarrow> nat \<Rightarrow> nat \<Rightarrow> nat \<Rightarrow> bool" where
  "matches_run src pat s p ep k \<longleftrightarrow> (\<forall>j < k. single_at src pat (s + j) p ep = Inr True)"

text \<open>
  From position \<open>s\<close> with captures \<open>cs\<close>, the pattern from \<open>p\<close> on matches up to \<open>e\<close> and leaves the captures \<open>cs'\<close>.
\<close>

inductive mat :: "string \<Rightarrow> string \<Rightarrow> capture list \<Rightarrow> nat \<Rightarrow> nat \<Rightarrow> nat \<Rightarrow> capture list \<Rightarrow> bool"
  for src pat where
  mat_end: "item_at pat p = Inr I_end \<Longrightarrow> mat src pat cs s p s cs"
| mat_dollar: "item_at pat p = Inr I_dollar \<Longrightarrow> s = length src \<Longrightarrow> mat src pat cs s p s cs"
| mat_open: "item_at pat p = Inr (I_open p' what) \<Longrightarrow> length cs < LUA_MAXCAPTURES \<Longrightarrow>
    mat src pat (cs @ [\<lparr>c_init = s, c_len = what\<rparr>]) s p' e cs' \<Longrightarrow> mat src pat cs s p e cs'"
| mat_close: "item_at pat p = Inr I_close \<Longrightarrow> capture_to_close cs = Inr l \<Longrightarrow>
    mat src pat (cs[l := (cs ! l)\<lparr>c_len := int s - int (c_init (cs ! l))\<rparr>]) s (p + 1) e cs' \<Longrightarrow> mat src pat cs s p e cs'"
| mat_balance: "item_at pat p = Inr I_balance \<Longrightarrow> matchbalance src pat s (p + 2) = Inr (Some s') \<Longrightarrow>
    mat src pat cs s' (p + 4) e cs' \<Longrightarrow> mat src pat cs s p e cs'"
| mat_frontier: "item_at pat p = Inr I_frontier \<Longrightarrow> rd pat (p + 2) = Inr (ch (CHR ''['')) \<Longrightarrow> classend pat (p + 2) = Inr ep \<Longrightarrow>
    frontier src pat s (p + 2) ep = Inr True \<Longrightarrow> mat src pat cs s ep e cs' \<Longrightarrow> mat src pat cs s p e cs'"
| mat_capture: "item_at pat p = Inr (I_capture l) \<Longrightarrow> match_capture src cs s l = Inr (Some s') \<Longrightarrow>
    mat src pat cs s' (p + 2) e cs' \<Longrightarrow> mat src pat cs s p e cs'"
| mat_item: "item_at pat p = Inr I_single \<Longrightarrow> classend pat p = Inr ep \<Longrightarrow> rd pat ep = Inr q \<Longrightarrow> k \<in> reps q \<Longrightarrow>
    matches_run src pat s p ep k \<Longrightarrow> mat src pat cs (s + k) (after_item q ep) e cs' \<Longrightarrow> mat src pat cs s p e cs'"

inductive_simps mat_inv: "mat src pat cs s p e cs'"

subsection \<open>Lemmas on the helpers\<close>

lemma capture_to_close_from_Inr:
  "capture_to_close_from cs n = Inr l \<Longrightarrow> l < n \<and> c_len (cs ! l) = CAP_UNFINISHED"
  by (induction n) (auto simp: less_Suc_eq split: if_splits)

lemma capture_to_close_Inr: "capture_to_close cs = Inr l \<Longrightarrow> l < length cs \<and> c_len (cs ! l) = CAP_UNFINISHED"
  unfolding capture_to_close_def by (rule capture_to_close_from_Inr)

lemma reopen_closed:
  "l < length cs \<Longrightarrow> c_len (cs ! l) = CAP_UNFINISHED \<Longrightarrow>
    cs[l := (cs ! l)\<lparr>c_len := x\<rparr>, l := (cs[l := (cs ! l)\<lparr>c_len := x\<rparr>] ! l)\<lparr>c_len := CAP_UNFINISHED\<rparr>] = cs"
  by (simp add: list_update_same_conv)

lemma matches_run_Suc: "matches_run src pat s p ep (Suc k) \<longleftrightarrow>
    single_at src pat s p ep = Inr True \<and> matches_run src pat (s + 1) p ep k"
  by (auto simp: matches_run_def less_Suc_eq_0_disj)

lemma matches_run_0 [simp]: "matches_run src pat s p ep 0"
  by (simp add: matches_run_def)

lemma max_count_run:
  "max_count src pat s p ep i = Inr n \<Longrightarrow> matches_run src pat s p ep i \<Longrightarrow>
    matches_run src pat s p ep n \<and> single_at src pat (s + n) p ep = Inr False"
proof (induction src pat s p ep i rule: max_count.induct)
  case (1 src pat s p ep i)
  from 1(2) obtain m where m: "single_at src pat (s + i) p ep = Inr m"
    "(if m then max_count src pat s p ep (i + 1) else Inr i) = Inr n"
    by (subst (asm) max_count.simps) (auto simp: mbind_Inr)
  show ?case
  proof (cases m)
    case True
    have "matches_run src pat s p ep (i + 1)" using 1(3) m(1) True by (auto simp: matches_run_def less_Suc_eq)
    with 1(1) [OF m(1) True] m(2) True show ?thesis by simp
  next
    case False
    with m 1(3) show ?thesis by simp
  qed
qed

text \<open>No run goes on behind an item that does not match.\<close>

lemma matches_run_bound: "single_at src pat (s + n) p ep = Inr False \<Longrightarrow> matches_run src pat s p ep k \<Longrightarrow> k \<le> n"
  unfolding matches_run_def by (metis not_less sum.inject(2))

subsection \<open>The matcher finds a match if there is one\<close>

text \<open>A result of the matcher is right if it is a match, or there is none and the captures are unchanged.\<close>

definition right :: "string \<Rightarrow> string \<Rightarrow> capture list \<Rightarrow> nat set \<Rightarrow> nat \<Rightarrow> (nat option \<times> capture list) \<Rightarrow> bool" where
  "right src pat cs S p res \<longleftrightarrow>
     (case res of
        (Some e, cs') \<Rightarrow> \<exists>s \<in> S. mat src pat cs s p e cs'
      | (None, cs') \<Rightarrow> cs' = cs \<and> (\<forall>s \<in> S. \<forall>e cs''. \<not> mat src pat cs s p e cs''))"

lemma right_simps [simp]:
  "right src pat cs S p (Some e, cs') \<longleftrightarrow> (\<exists>s \<in> S. mat src pat cs s p e cs')"
  "right src pat cs S p (None, cs') \<longleftrightarrow> cs' = cs \<and> (\<forall>s \<in> S. \<forall>e cs''. \<not> mat src pat cs s p e cs'')"
  by (simp_all add: right_def)

text \<open>Where the rest of the pattern has to be tried decides about the whole of it.\<close>

lemma right_step:
  assumes "\<And>e cs'. mat src pat cs s p e cs' \<longleftrightarrow> (\<exists>s' \<in> S. mat src pat cs s' p' e cs')" "right src pat cs S p' res"
  shows "right src pat cs {s} p res"
  using assms by (cases res; cases "fst res") (auto simp: right_def)

lemma mat_single:
  assumes "item_at pat p = Inr I_single" "classend pat p = Inr ep" "rd pat ep = Inr q"
  shows "mat src pat cs s p e cs' \<longleftrightarrow>
    (\<exists>s' \<in> {s + k |k. k \<in> reps q \<and> matches_run src pat s p ep k}. mat src pat cs s' (after_item q ep) e cs')"
  by (subst mat_inv) (auto simp: assms)

lemma item_starts:
  assumes "single_at src pat s p ep = Inr m"
  shows "{s + k |k. k \<in> reps (ch (CHR ''?'')) \<and> matches_run src pat s p ep k} = (if m then {s, s + 1} else {s})"
    and "q \<notin> ch ` set ''?*-+'' \<Longrightarrow> {s + k |k. k \<in> reps q \<and> matches_run src pat s p ep k} = (if m then {s + 1} else {})"
    and "\<not> m \<Longrightarrow> {s + k |k. k \<in> reps (ch (CHR ''+'')) \<and> matches_run src pat s p ep k} = {}"
    and "max_count src pat s p ep 0 = Inr n \<Longrightarrow> {s + k |k. k \<in> reps (ch (CHR ''*'')) \<and> matches_run src pat s p ep k} = {s..s + n}"
    and "m \<Longrightarrow> max_count src pat (s + 1) p ep 0 = Inr n \<Longrightarrow>
      {s + k |k. k \<in> reps (ch (CHR ''+'')) \<and> matches_run src pat s p ep k} = {s + 1..s + 1 + n}"
proof -
  have one: "matches_run src pat s p ep (Suc 0) \<longleftrightarrow> m" using assms by (simp add: matches_run_Suc)
  show "{s + k |k. k \<in> reps (ch (CHR ''?'')) \<and> matches_run src pat s p ep k} = (if m then {s, s + 1} else {s})"
    using one by (auto simp: reps_def)
  show "q \<notin> ch ` set ''?*-+'' \<Longrightarrow> {s + k |k. k \<in> reps q \<and> matches_run src pat s p ep k} = (if m then {s + 1} else {})"
    using one by (auto simp: reps_def)
  show "\<not> m \<Longrightarrow> {s + k |k. k \<in> reps (ch (CHR ''+'')) \<and> matches_run src pat s p ep k} = {}"
    using assms by (auto simp: reps_def matches_run_def intro!: exI [of _ 0])
  have runs: "matches_run src pat t p ep k \<longleftrightarrow> k \<le> n" if "max_count src pat t p ep 0 = Inr n" for t k n
    using max_count_run [OF that] matches_run_bound [of src pat t n p ep k] by (auto simp: matches_run_def)
  show "{s + k |k. k \<in> reps (ch (CHR ''*'')) \<and> matches_run src pat s p ep k} = {s..s + n}"
    if "max_count src pat s p ep 0 = Inr n"
    using runs [OF that] by (auto simp: reps_def nat_le_iff_add image_iff) 
  show "{s + k |k. k \<in> reps (ch (CHR ''+'')) \<and> matches_run src pat s p ep k} = {s + 1..s + 1 + n}"
    if m and "max_count src pat (s + 1) p ep 0 = Inr n"
  proof -
    have "k \<in> reps (ch (CHR ''+'')) \<and> matches_run src pat s p ep k \<longleftrightarrow> 1 \<le> k \<and> k \<le> Suc n" for k
      using runs [OF that(2)] assms that(1) by (cases k) (auto simp: reps_def matches_run_Suc)
    then show ?thesis by (auto simp: nat_le_iff_add)
  qed
qed

lemma min_starts:
  assumes "single_at src pat s p ep = Inr m"
  shows "{s + k |k. matches_run src pat s p ep k} = insert s (if m then {s + 1 + k |k. matches_run src pat (s + 1) p ep k} else {})"
proof -
  have "matches_run src pat s p ep k \<longleftrightarrow> k = 0 \<or> m \<and> (\<exists>j. k = Suc j \<and> matches_run src pat (s + 1) p ep j)" for k
    using assms by (cases k) (auto simp: matches_run_Suc)
  then show ?thesis by auto
qed

text \<open>Trying one start after another.\<close>

lemma right_insert:
  assumes "right src pat cs {s} p (r, cs1)"
  shows "r = Some e \<Longrightarrow> s \<in> S \<Longrightarrow> right src pat cs S p (Some e, cs1)"
    and "r = None \<Longrightarrow> right src pat cs1 S p res \<Longrightarrow> right src pat cs (insert s S) p res"
  using assms by (auto simp: right_def split: prod.splits option.splits)

lemma right_empty [simp]: "right src pat cs {} p (None, cs)"
  by simp

lemma mat_open_iff:
  "item_at pat p = Inr (I_open p' what) \<Longrightarrow> mat src pat cs s p e cs' \<longleftrightarrow>
    length cs < LUA_MAXCAPTURES \<and> mat src pat (cs @ [\<lparr>c_init = s, c_len = what\<rparr>]) s p' e cs'"
  by (subst mat_inv) simp

lemma mat_close_iff:
  "item_at pat p = Inr I_close \<Longrightarrow> capture_to_close cs = Inr l \<Longrightarrow> mat src pat cs s p e cs' \<longleftrightarrow>
    mat src pat (cs[l := (cs ! l)\<lparr>c_len := int s - int (c_init (cs ! l))\<rparr>]) s (p + 1) e cs'"
  by (subst mat_inv) simp

lemma mat_balance_iff:
  "item_at pat p = Inr I_balance \<Longrightarrow> matchbalance src pat s (p + 2) = Inr r \<Longrightarrow> mat src pat cs s p e cs' \<longleftrightarrow>
    (\<exists>s' \<in> set_option r. mat src pat cs s' (p + 4) e cs')"
  by (subst mat_inv) (cases r; simp)

lemma mat_frontier_iff:
  "item_at pat p = Inr I_frontier \<Longrightarrow> rd pat (p + 2) = Inr (ch (CHR ''['')) \<Longrightarrow> classend pat (p + 2) = Inr ep \<Longrightarrow>
    frontier src pat s (p + 2) ep = Inr b \<Longrightarrow> mat src pat cs s p e cs' \<longleftrightarrow> b \<and> mat src pat cs s ep e cs'"
  by (subst mat_inv) simp

lemma mat_capture_iff:
  "item_at pat p = Inr (I_capture l) \<Longrightarrow> match_capture src cs s l = Inr r \<Longrightarrow> mat src pat cs s p e cs' \<longleftrightarrow>
    (\<exists>s' \<in> set_option r. mat src pat cs s' (p + 2) e cs')"
  by (subst mat_inv) (cases r; simp)

lemma mat_end_iff:
  "item_at pat p = Inr I_end \<Longrightarrow> mat src pat cs s p e cs' \<longleftrightarrow> e = s \<and> cs' = cs"
  "item_at pat p = Inr I_dollar \<Longrightarrow> mat src pat cs s p e cs' \<longleftrightarrow> s = length src \<and> e = s \<and> cs' = cs"
  by (subst mat_inv; auto)+

lemma right_same:
  "(\<And>e cs'. mat src pat cs s p e cs' \<longleftrightarrow> mat src pat cs s' p' e cs') \<Longrightarrow> right src pat cs {s'} p' res \<Longrightarrow> right src pat cs {s} p res"
  by (rule right_step [where S = "{s'}"]) simp

lemma right_open:
  assumes "item_at pat p = Inr (I_open p' what)" "length cs < LUA_MAXCAPTURES"
    "right src pat (cs @ [\<lparr>c_init = s, c_len = what\<rparr>]) {s} p' (r, cs1)"
  shows "right src pat cs {s} p (r, if r = None then butlast cs1 else cs1)"
  using assms by (cases r) (auto simp: mat_open_iff)

lemma right_close:
  assumes "item_at pat p = Inr I_close" "capture_to_close cs = Inr l"
    "right src pat (cs[l := (cs ! l)\<lparr>c_len := int s - int (c_init (cs ! l))\<rparr>]) {s} (p + 1) (r, cs1)"
  shows "right src pat cs {s} p (r, if r = None then cs1[l := (cs1 ! l)\<lparr>c_len := CAP_UNFINISHED\<rparr>] else cs1)"
  using assms reopen_closed [of l cs] capture_to_close_Inr [OF assms(2)] by (cases r) (auto simp: mat_close_iff)

text \<open>The item under a suffix.\<close>

lemma right_single:
  assumes "item_at pat p = Inr I_single" "classend pat p = Inr ep" "rd pat ep = Inr q"
    "S = {s + k |k. k \<in> reps q \<and> matches_run src pat s p ep k}" "right src pat cs S (after_item q ep) res"
  shows "right src pat cs {s} p res"
  by (rule right_step [OF _ assms(5)]) (use mat_single [OF assms(1-3)] assms(4) in simp)

theorem match_right:
  "match src pat d cs s p = Inr res \<Longrightarrow> right src pat cs {s} p res"
  "match_init src pat d cs s p = Inr res \<Longrightarrow> right src pat cs {s} p res"
  "max_loop src pat d cs s p' i = Inr res \<Longrightarrow> right src pat cs {s..s + i} p' res"
  "min_loop src pat d cs s p ep p' = Inr res \<Longrightarrow> right src pat cs {s + k |k. matches_run src pat s p ep k} p' res"
proof (induction src pat d cs s p and src pat d cs s p and src pat d cs s p' i and src pat d cs s p ep p'
    arbitrary: res and res and res and res rule: match_match_init_max_loop_min_loop.induct)
  case (1 src pat d cs s p)
  from "1.prems" [unfolded match.simps [of src pat d cs s p]] "1.IH" show ?case by (simp split: if_splits)
next
  case (2 src pat d cs s p)
  note IH = "2.IH"
  from "2.prems" obtain k where k: "item_at pat p = Inr k" by (subst (asm) match_init.simps) (auto simp: mbind_Inr)
  note run = "2.prems" [unfolded match_init.simps [of src pat d cs s p] k mbind_simps]
  show ?case
  proof (cases k)
    case (I_open p' what)
    with run obtain r cs1 where "length cs < LUA_MAXCAPTURES" "match src pat d (cs @ [\<lparr>c_init = s, c_len = what\<rparr>]) s p' = Inr (r, cs1)"
      "res = (r, if r = None then butlast cs1 else cs1)" by (cases "length cs < LUA_MAXCAPTURES") (auto simp: mbind_Inr)
    with IH(1) [OF k I_open] right_open k I_open show ?thesis by fastforce
  next
    case I_close
    with run obtain l r cs1 where "capture_to_close cs = Inr l"
      "match src pat d (cs[l := (cs ! l)\<lparr>c_len := int s - int (c_init (cs ! l))\<rparr>]) s (p + 1) = Inr (r, cs1)"
      "res = (r, if r = None then cs1[l := (cs1 ! l)\<lparr>c_len := CAP_UNFINISHED\<rparr>] else cs1)" by (auto simp: mbind_Inr)
    with IH(2) [OF k I_close] right_close k I_close show ?thesis by fastforce
  next
    case I_balance
    with run obtain r where r: "matchbalance src pat s (p + 2) = Inr r"
      "(case r of None \<Rightarrow> Inr (None, cs) | Some s' \<Rightarrow> match_init src pat d cs s' (p + 4)) = Inr res" by (auto simp: mbind_Inr)
    have "right src pat cs (set_option r) (p + 4) res"
      using IH(3) [OF k I_balance r(1)] r(2) by (cases r) auto
    with mat_balance_iff [OF _ r(1)] k I_balance show ?thesis by (intro right_step) simp_all
  next
    case I_frontier
    with run obtain ep b where f: "rd pat (p + 2) = Inr (ch (CHR ''[''))" "classend pat (p + 2) = Inr ep"
      "frontier src pat s (p + 2) ep = Inr b" "(if \<not> b then Inr (None, cs) else match_init src pat d cs s ep) = Inr res"
      by (auto simp: mbind_Inr split: if_splits)
    have "right src pat cs (if b then {s} else {}) ep res"
      using IH(4) [OF k I_frontier f(1) _ f(2,3)] f(4) by (cases b) auto
    with mat_frontier_iff [OF _ f(1-3)] k I_frontier show ?thesis by (intro right_step) simp_all
  next
    case (I_capture l)
    from run [unfolded I_capture item.case mbind_Inr] obtain r where r: "match_capture src cs s l = Inr r"
      "(case r of None \<Rightarrow> Inr (None, cs) | Some s' \<Rightarrow> match_init src pat d cs s' (p + 2)) = Inr res" by blast
    have "right src pat cs (set_option r) (p + 2) res"
      using IH(5) [OF k I_capture r(1)] r(2) by (cases r) auto
    with mat_capture_iff [OF _ r(1)] k I_capture show ?thesis by (intro right_step) simp_all
  next
    case I_end
    with run k show ?thesis by (auto simp: mat_end_iff)
  next
    case I_dollar
    with run k show ?thesis by (auto simp: mat_end_iff split: if_splits)
  next
    case I_single
    with run obtain ep m q where i: "classend pat p = Inr ep" "single_at src pat s p ep = Inr m" "rd pat ep = Inr q"
      by (auto simp: mbind_Inr)
    note run' = run [unfolded I_single item.case i mbind_simps]
    note starts = item_starts [OF i(2)] and single = right_single [OF k [unfolded I_single] i(1,3)]
    note IH' = IH(6-11) [OF k I_single i]
    consider "q = ch (CHR ''?'')" | "q = ch (CHR ''*'')" | "q = ch (CHR ''+'')" | "q = ch (CHR ''-'')" | "q \<notin> ch ` set ''?*-+''" by auto
    then show ?thesis
    proof cases
      case 1
      from run' 1 obtain r cs1 where
        r: "(if m then match src pat d cs (s + 1) (ep + 1) else Inr (None, cs)) = Inr (r, cs1)"
        "(case r of Some e \<Rightarrow> Inr (Some e, cs1) | None \<Rightarrow> match_init src pat d cs1 s (ep + 1)) = Inr res"
        by (auto simp: mbind_Inr)
      have one: "right src pat cs (if m then {s + 1} else {}) (ep + 1) (r, cs1)" using IH'(1) [OF 1] r(1) by (cases m) auto
      have "right src pat cs (if m then {s, s + 1} else {s}) (ep + 1) res"
      proof (cases r)
        case (Some e)
        with r(2) one show ?thesis by (cases m) auto
      next
        case None
        with r(2) have "right src pat cs1 {s} (ep + 1) res" using IH'(2) [OF 1 r(1) refl None] by simp
        with one None show ?thesis by (cases m) (auto simp: right_def split: prod.splits option.splits)
      qed
      with 1 starts(1) show ?thesis by (intro single) (simp_all add: after_item_def)
    next
      case 2
      from run' 2 obtain n where n: "max_count src pat s p ep 0 = Inr n" "max_loop src pat d cs s (ep + 1) n = Inr res"
        by (auto simp: mbind_Inr)
      have "right src pat cs {s..s + n} (ep + 1) res" using IH'(3) [OF _ 2 n] 2 by simp
      with 2 starts(4) [OF n(1)] show ?thesis by (intro single) (simp_all add: after_item_def)
    next
      case 3
      show ?thesis
      proof (cases m)
        case True
        from run' 3 True obtain n where n: "max_count src pat (s + 1) p ep 0 = Inr n" "max_loop src pat d cs (s + 1) (ep + 1) n = Inr res"
          by (auto simp: mbind_Inr)
        have "right src pat cs {s + 1..s + 1 + n} (ep + 1) res" using IH'(4) [OF _ _ 3 True n] 3 by simp
        with 3 starts(5) [OF True n(1)] show ?thesis by (intro single) (simp_all add: after_item_def)
      next
        case False
        with run' 3 have "res = (None, cs)" by simp
        with 3 starts(3) [OF False] show ?thesis by (intro single [where S = "{}"]) (simp_all add: after_item_def)
      qed
    next
      case 4
      have "right src pat cs {s + k |k. matches_run src pat s p ep k} (ep + 1) res" using IH'(5) [OF _ _ _ 4] run' 4 by simp
      with 4 show ?thesis by (intro single) (simp_all add: after_item_def reps_def)
    next
      case 5
      have "right src pat cs (if m then {s + 1} else {}) ep res" using IH'(6) 5 run' by (cases m) auto
      with 5 starts(2) [OF 5] show ?thesis by (intro single) (simp_all add: after_item_def)
    qed
  qed
next
  case (3 src pat d cs s p' i)
  from "3.prems" obtain r cs1 where r: "match src pat d cs (s + i) p' = Inr (r, cs1)"
    "(case r of Some e \<Rightarrow> Inr (Some e, cs1) | None \<Rightarrow> if i = 0 then Inr (None, cs1) else max_loop src pat d cs1 s p' (i - 1)) = Inr res"
    by (subst (asm) max_loop.simps) (auto simp: mbind_Inr)
  note one = "3.IH"(1) [OF r(1)]
  show ?case
  proof (cases r)
    case (Some e)
    with r(2) have "res = (Some e, cs1)" by simp
    with right_insert(1) [OF one Some, of "{s..s + i}"] show ?thesis by (simp del: right_simps)
  next
    case None
    show ?thesis
    proof (cases "i = 0")
      case True
      with r(2) one None show ?thesis by auto
    next
      case False
      with None r(2) have "max_loop src pat d cs1 s p' (i - 1) = Inr res" by simp
      note rest = "3.IH"(2) [OF r(1) refl None False this]
      have "{s..s + i} = insert (s + i) {s..s + (i - 1)}" using False by auto
      with right_insert(2) [OF one None rest] show ?thesis by simp
    qed
  qed
next
  case (4 src pat d cs s p ep p')
  from "4.prems" obtain r cs1 where r: "match src pat d cs s p' = Inr (r, cs1)"
    "(case r of Some e \<Rightarrow> Inr (Some e, cs1) | None \<Rightarrow> mbind (single_at src pat s p ep) (\<lambda>m.
        if m then min_loop src pat d cs1 (s + 1) p ep p' else Inr (None, cs1))) = Inr res"
    by (subst (asm) min_loop.simps) (auto simp: mbind_Inr)
  note one = "4.IH"(1) [OF r(1)]
  show ?case
  proof (cases r)
    case (Some e)
    have "s \<in> {s + k |k. matches_run src pat s p ep k}" using matches_run_0 by force
    moreover from r(2) Some have "res = (Some e, cs1)" by simp
    ultimately show ?thesis using right_insert(1) [OF one Some] by (simp del: right_simps)
  next
    case None
    with r(2) obtain m where m: "single_at src pat s p ep = Inr m"
      "(if m then min_loop src pat d cs1 (s + 1) p ep p' else Inr (None, cs1)) = Inr res" by (auto simp: mbind_Inr)
    have "right src pat cs1 (if m then {s + 1 + k |k. matches_run src pat (s + 1) p ep k} else {}) p' res"
      using "4.IH"(2) [OF r(1) refl None m(1)] m(2) by (cases m) auto
    from right_insert(2) [OF one None this] show ?thesis unfolding min_starts [OF m(1)] .
  qed
qed

end
