(* ===== verification/Lj_Match_Props.thy ===== *)
theory Lj_Match_Props
  imports Lj_Match_Sem
begin

text \<open>
  The matcher never reads behind the end of the subject or the pattern, and the matches and captures
  it returns lie within the subject.
\<close>

subsection \<open>Reads\<close>

definition in_bounds :: "'a mres \<Rightarrow> bool" where
  "in_bounds m \<longleftrightarrow> m \<noteq> Inl M_overread"

lemma in_bounds_simps [simp]:
  "in_bounds (Inr x)" "in_bounds (Inl (M_err e))" "in_bounds (Inl (M_lua t))"
  "in_bounds (mbind m f) \<longleftrightarrow> in_bounds m \<and> (\<forall>x. m = Inr x \<longrightarrow> in_bounds (f x))"
  by (auto simp: in_bounds_def mbind_def split: sum.splits)

lemma in_bounds_rd [simp]: "in_bounds (rd x i) \<longleftrightarrow> i \<le> length x"
  by (auto simp: in_bounds_def rd_def)

lemma rd_next: "rd x i = Inr c \<Longrightarrow> c \<noteq> 0 \<Longrightarrow> i < length x"
  by (auto simp: rd_def split: if_splits)

lemma rd_some: "i \<le> length x \<Longrightarrow> \<exists>c. rd x i = Inr c"
  by (simp add: rd_def)

lemma isdigit_pos: "lj_char_isdigit (int c) \<Longrightarrow> c \<noteq> 0"
  by (rule notI) (simp add: lj_char_isdigit_def lj_char_isa_def lj_char_bits_def)

lemma item_at_in_bounds [simp]: "p \<le> length pat \<Longrightarrow> in_bounds (item_at pat p)"
  by (auto simp: item_at_def dest!: rd_next)

lemma item_at_next:
  assumes "item_at pat p = Inr k"
  shows "k = I_open p' what \<Longrightarrow> p' \<le> length pat" "k = I_close \<Longrightarrow> p + 1 \<le> length pat"
    "k = I_balance \<Longrightarrow> p + 2 \<le> length pat" "k = I_frontier \<Longrightarrow> p + 2 \<le> length pat"
    "k = I_capture l \<Longrightarrow> p + 2 \<le> length pat" "k = I_single \<Longrightarrow> p < length pat"
  using assms
  by (auto simp: item_at_def mbind_Inr dest!: rd_next dest: isdigit_pos split: if_splits)

lemma set_end_ok: "p \<le> length pat \<Longrightarrow> in_bounds (set_end pat p) \<and> (\<forall>ep. set_end pat p = Inr ep \<longrightarrow> ep \<le> length pat)"
proof (induction pat p rule: set_end.induct)
  case (1 pat p)
  obtain c where c: "rd pat p = Inr c" using rd_some [OF "1.prems"] by blast
  show ?case
  proof (cases "c = 0")
    case True
    with c show ?thesis by (subst (1 2) set_end.simps) simp
  next
    case False
    from rd_next [OF c this] have p: "p < length pat" .
    obtain p1 where p1: "(if c = L_ESC then mbind (rd pat (p + 1)) (\<lambda>c1. Inr (if c1 \<noteq> 0 then p + 2 else p + 1)) else Inr (p + 1)) = Inr p1"
      "p1 \<le> length pat"
    proof (cases "c = L_ESC")
      case True
      obtain c1 where c1: "rd pat (p + 1) = Inr c1" using rd_some [of "p + 1" pat] p by auto
      show thesis using that True c1 p rd_next [OF c1] by (cases "c1 = 0") auto
    qed (use that p in auto)
    obtain c1 where c1: "rd pat p1 = Inr c1" using rd_some [OF p1(2)] by blast
    show ?thesis
    proof (cases "c1 = ch (CHR '']'')")
      case True
      with rd_next [OF c1] have "p1 < length pat" by simp
      with True c c1 p1 False show ?thesis by (subst (1 2) set_end.simps) simp
    next
      case False2: False
      from "1.IH" [OF c False p1(1) c1 False2 p1(2)] False2 c c1 p1 False show ?thesis
        by (subst (1 2) set_end.simps) simp
    qed
  qed
qed

lemma classend_ok: "p \<le> length pat \<Longrightarrow> in_bounds (classend pat p) \<and> (\<forall>ep. classend pat p = Inr ep \<longrightarrow> p \<noteq> length pat \<longrightarrow> ep \<le> length pat)"
proof (cases "p = length pat")
  case True
  then show ?thesis by (simp add: classend_def rd_def)
next
  case False
  assume "p \<le> length pat"
  with False obtain c where c: "rd pat p = Inr c" "p + 1 \<le> length pat" using rd_some [of p pat] by auto
  then obtain c1 where c1: "rd pat (p + 1) = Inr c1" using rd_some by blast
  have n: "c1 \<noteq> 0 \<Longrightarrow> p + 2 \<le> length pat" using rd_next [OF c1] by simp
  have "in_bounds (set_end pat q) \<and> (\<forall>ep. set_end pat q = Inr ep \<longrightarrow> ep \<le> length pat)"
    if "q = (if c1 = ch (CHR ''^'') then p + 2 else p + 1)" for q
    using set_end_ok [of q pat] that n c(2) by (cases "c1 = ch (CHR ''^'')") simp_all
  with c c1 n show ?thesis unfolding classend_def by simp
qed

lemma bracket_loop_in_bounds: "ec \<le> length pat \<Longrightarrow> in_bounds (bracket_loop pat c sig p ec)"
proof (induction pat c sig p ec rule: bracket_loop.induct)
  case (1 pat c sig p0 ec)
  let ?p = "p0 + 1"
  show ?case
  proof (cases "?p < ec")
    case True
    then have "in_bounds (rd pat ?p)" "in_bounds (rd pat (?p + 1))" "?p + 2 < ec \<Longrightarrow> in_bounds (rd pat (?p + 2))"
      using "1.prems" by simp_all
    with "1.IH" [OF refl True] "1.prems" True show ?thesis
      unfolding bracket_loop.simps [of pat c sig p0 ec] Let_def by (simp only: if_True in_bounds_simps split: if_split) blast
  next
    case False
    then show ?thesis by (subst bracket_loop.simps) simp
  qed
qed

lemma matchbracketclass_in_bounds: "p < length pat \<Longrightarrow> ec \<le> length pat \<Longrightarrow> in_bounds (matchbracketclass pat c p ec)"
  by (simp add: matchbracketclass_def bracket_loop_in_bounds)

lemma single_at_in_bounds: "p < length pat \<Longrightarrow> ep \<le> length pat \<Longrightarrow> in_bounds (single_at src pat s p ep)"
  by (auto simp: single_at_def singlematch_def intro!: matchbracketclass_in_bounds)

lemma max_count_in_bounds: "p < length pat \<Longrightarrow> ep \<le> length pat \<Longrightarrow> in_bounds (max_count src pat s p ep i)"
proof (induction src pat s p ep i rule: max_count.induct)
  case (1 src pat s p ep i)
  then show ?case by (subst max_count.simps) (simp add: single_at_in_bounds)
qed

lemma frontier_in_bounds:
  "s \<le> length src \<Longrightarrow> p < length pat \<Longrightarrow> ep \<le> length pat \<Longrightarrow> in_bounds (frontier src pat s p ep)"
  by (auto simp: frontier_def intro!: matchbracketclass_in_bounds)

lemma matchbalance_in_bounds: "s \<le> length src \<Longrightarrow> p \<le> length pat \<Longrightarrow> in_bounds (matchbalance src pat s p)"
  by (auto simp: matchbalance_def dest!: rd_next)

lemma check_capture_in_bounds [simp]: "in_bounds (check_capture cs l)"
  by (simp add: check_capture_def Let_def)

lemma in_bounds_rd_mem [simp]: "in_bounds (rd_mem x i n) \<longleftrightarrow> i + n \<le> length x"
  by (auto simp: in_bounds_def rd_mem_def)

lemma capture_to_close_in_bounds [simp]: "in_bounds (capture_to_close cs)"
proof -
  have "in_bounds (capture_to_close_from cs n)" for n by (induction n) simp_all
  then show ?thesis by (simp add: capture_to_close_def)
qed

subsection \<open>Positions\<close>

text \<open>A step of the matcher stays where it is or moves forward within the subject.\<close>

definition moves :: "string \<Rightarrow> nat \<Rightarrow> nat \<Rightarrow> bool" where
  "moves src s e \<longleftrightarrow> e = s \<or> s < e \<and> e \<le> length src"

lemma moves_trans: "moves src s t \<Longrightarrow> moves src t e \<Longrightarrow> moves src s e"
  by (auto simp: moves_def)

lemma balance_loop_moves: "balance_loop src s b e n = Some t \<Longrightarrow> s < t \<and> t \<le> length src"
proof (induction src s b e n rule: balance_loop.induct)
  case (1 src s0 b e cont)
  from "1.prems" [unfolded balance_loop.simps [of src s0 b e cont] Let_def] have s: "s0 + 1 < length src"
    by (simp split: if_splits)
  from "1.prems" [unfolded balance_loop.simps [of src s0 b e cont] Let_def] s
    "1.IH" [OF refl s] show ?case by (auto split: if_splits)
qed

lemma matchbalance_moves:
  assumes "matchbalance src pat s p = Inr (Some t)"
  shows "moves src s t \<and> p + 2 \<le> length pat"
  using assms by (auto simp: matchbalance_def mbind_Inr moves_def split: if_splits dest!: rd_next balance_loop_moves)

lemma match_capture_moves: "match_capture src cs s l = Inr (Some t) \<Longrightarrow> moves src s t"
  by (auto simp: match_capture_def mbind_Inr Let_def moves_def split: if_splits)

lemma single_at_less: "single_at src pat s p ep = Inr True \<Longrightarrow> s < length src"
  by (simp add: single_at_def split: if_splits)

lemma matches_run_moves: "matches_run src pat s p ep k \<Longrightarrow> moves src s (s + k)"
  using single_at_less [of src pat "s + (k - 1)" p ep] by (cases k) (auto simp: matches_run_def moves_def)

lemma mat_moves: "mat src pat cs s p e cs' \<Longrightarrow> moves src s e"
proof (induction rule: mat.induct)
  case (mat_item p ep q k s cs e cs')
  then show ?case using matches_run_moves moves_trans by blast
qed (use moves_trans matchbalance_moves match_capture_moves in \<open>blast | simp add: moves_def\<close>)+

lemma match_progress:
  assumes "match src pat d cs s p = Inr (Some e, cs')"
  shows "s \<le> e \<and> (s < e \<longrightarrow> e \<le> length src)"
  using mat_moves [of src pat cs s p e cs'] match_right(1) [OF assms] by (auto simp: moves_def)

subsection \<open>Captures\<close>

text \<open>Every capture lies before the current position; one that is still open has begun there.\<close>

definition caps_ok :: "nat \<Rightarrow> capture list \<Rightarrow> bool" where
  "caps_ok s cs \<longleftrightarrow> length cs \<le> LUA_MAXCAPTURES \<and>
     (\<forall>c \<in> set cs. c_init c \<le> s \<and> (c_len c \<in> {CAP_UNFINISHED, CAP_POSITION} \<or> 0 \<le> c_len c \<and> int (c_init c) + c_len c \<le> int s))"

lemma caps_ok_mono: "caps_ok s cs \<Longrightarrow> s \<le> e \<Longrightarrow> caps_ok e cs"
  by (fastforce simp: caps_ok_def)

lemma caps_ok_open: "caps_ok s cs \<Longrightarrow> length cs < LUA_MAXCAPTURES \<Longrightarrow> what \<in> {CAP_UNFINISHED, CAP_POSITION} \<Longrightarrow>
    caps_ok s (cs @ [\<lparr>c_init = s, c_len = what\<rparr>])"
  by (auto simp: caps_ok_def)

lemma caps_ok_close: "caps_ok s cs \<Longrightarrow> l < length cs \<Longrightarrow> caps_ok s (cs[l := (cs ! l)\<lparr>c_len := int s - int (c_init (cs ! l))\<rparr>])"
  using nth_mem [of l cs] by (auto simp: caps_ok_def dest!: set_update_subset_insert [THEN subsetD])

lemma item_at_open_what: "item_at pat p = Inr (I_open p' what) \<Longrightarrow> what \<in> {CAP_UNFINISHED, CAP_POSITION}"
  by (auto simp: item_at_def mbind_Inr split: if_splits)

lemma mat_caps: "mat src pat cs s p e cs' \<Longrightarrow> caps_ok s cs \<Longrightarrow> caps_ok e cs'"
proof (induction rule: mat.induct)
  case (mat_open p p' what cs s e cs')
  then show ?case using caps_ok_open item_at_open_what by simp
next
  case (mat_close p cs l s e cs')
  then show ?case using caps_ok_close capture_to_close_Inr by simp
next
  case (mat_balance p s s' cs e cs')
  then show ?case using caps_ok_mono matchbalance_moves by (fastforce simp: moves_def)
next
  case (mat_capture p l cs s s' e cs')
  then show ?case using caps_ok_mono match_capture_moves by (fastforce simp: moves_def)
next
  case (mat_item p ep q k s cs e cs')
  then show ?case using caps_ok_mono [of s cs "s + k"] by simp
qed simp_all

lemma match_capture_in_bounds:
  assumes "caps_ok s cs" "s \<le> length src" "length src < 2 ^ 63"
  shows "in_bounds (match_capture src cs s l0)"
proof -
  have "c_init (cs ! l) + nat (c_len (cs ! l) mod 2 ^ 64) \<le> length src"
    if l: "check_capture cs l0 = Inr l" and n: "nat (c_len (cs ! l) mod 2 ^ 64) \<le> length src - s" for l
  proof -
    have c: "cs ! l \<in> set cs" "c_len (cs ! l) \<noteq> CAP_UNFINISHED"
      using l by (auto simp: check_capture_def Let_def split: if_splits)
    have "c_len (cs ! l) \<noteq> CAP_POSITION" using n assms(3) by auto
    with c assms(1) have b: "0 \<le> c_len (cs ! l)" "int (c_init (cs ! l)) + c_len (cs ! l) \<le> int s"
      by (auto simp: caps_ok_def)
    then have "c_len (cs ! l) mod 2 ^ 64 = c_len (cs ! l)" using assms(2,3) by (intro mod_pos_pos_trivial) simp_all
    with b assms(2) show ?thesis by simp
  qed
  then show ?thesis using assms(2) by (auto simp: match_capture_def Let_def)
qed

lemma match_None: "match src pat d cs s p = Inr (None, cs1) \<Longrightarrow> cs1 = cs"
  by (drule match_right(1)) simp

lemma moves_le: "moves src s e \<Longrightarrow> s \<le> length src \<Longrightarrow> s \<le> e \<and> e \<le> length src"
  by (auto simp: moves_def)

lemma max_count_moves: "max_count src pat s p ep 0 = Inr n \<Longrightarrow> s \<le> length src \<Longrightarrow> s + n \<le> length src"
  using max_count_run [of src pat s p ep 0 n] matches_run_moves [of src pat s p ep n] by (auto simp: moves_def)

lemma single_in_bounds_step:
  assumes "item_at pat p = Inr I_single" "classend pat p = Inr ep"
  shows "p < length pat" "ep \<le> length pat" "rd pat ep = Inr q \<Longrightarrow> q \<noteq> 0 \<Longrightarrow> ep + 1 \<le> length pat"
  using item_at_next(6) [OF assms(1) refl] classend_ok [of p pat] assms(2) rd_next [of pat ep q] by auto

theorem match_in_bounds:
  "length src < 2 ^ 63 \<Longrightarrow> caps_ok s cs \<Longrightarrow> p \<le> length pat \<Longrightarrow> s \<le> length src \<Longrightarrow> in_bounds (match src pat d cs s p)"
  "length src < 2 ^ 63 \<Longrightarrow> caps_ok s cs \<Longrightarrow> p \<le> length pat \<Longrightarrow> s \<le> length src \<Longrightarrow> in_bounds (match_init src pat d cs s p)"
  "length src < 2 ^ 63 \<Longrightarrow> caps_ok s cs \<Longrightarrow> p' \<le> length pat \<Longrightarrow> s + i \<le> length src \<Longrightarrow> in_bounds (max_loop src pat d cs s p' i)"
  "length src < 2 ^ 63 \<Longrightarrow> caps_ok s cs \<Longrightarrow> p' \<le> length pat \<Longrightarrow> s \<le> length src \<Longrightarrow> p < length pat \<Longrightarrow> ep \<le> length pat \<Longrightarrow> in_bounds (min_loop src pat d cs s p ep p')"
proof (induction src pat d cs s p and src pat d cs s p and src pat d cs s p' i and src pat d cs s p ep p'
    rule: match_match_init_max_loop_min_loop.induct)
  case (1 src pat d cs s p)
  then show ?case by (subst match.simps) simp
next
  case (2 src pat d cs s p)
  note IH = "2.IH" and n = "2.prems"(1) and c = "2.prems"(2) and p = "2.prems"(3) and s = "2.prems"(4)
  show ?case
  proof (cases "item_at pat p")
    case (Inl e)
    with item_at_in_bounds [OF p] show ?thesis by (subst match_init.simps) (auto simp: in_bounds_def)
  next
    case k: (Inr k)
    note next_p = item_at_next [OF k]
    show ?thesis
    proof (cases k)
      case (I_open p' what)
      note o = item_at_open_what [OF k [unfolded I_open]]
      have "in_bounds (match src pat d (cs @ [\<lparr>c_init = s, c_len = what\<rparr>]) s p')" if "length cs < LUA_MAXCAPTURES"
        using IH(1) [OF k I_open] caps_ok_open [OF c that o] that n next_p(1) I_open s by simp
      with k I_open show ?thesis by (subst match_init.simps) (simp add: split_beta)
    next
      case I_close
      have "in_bounds (match src pat d (cs[l := (cs ! l)\<lparr>c_len := int s - int (c_init (cs ! l))\<rparr>]) s (p + 1))"
        if "capture_to_close cs = Inr l" for l
        using IH(2) [OF k I_close that n caps_ok_close [OF c]] capture_to_close_Inr [OF that] next_p(2) I_close s by simp
      with k I_close show ?thesis by (subst match_init.simps) (simp add: split_beta)
    next
      case I_balance
      have "in_bounds (matchbalance src pat s (p + 2))" using matchbalance_in_bounds s next_p(3) I_balance by simp
      moreover have "in_bounds (match_init src pat d cs s' (p + 4))" if "matchbalance src pat s (p + 2) = Inr (Some s')" for s'
        using IH(3) [OF k I_balance that refl n] matchbalance_moves [OF that] moves_le [OF conjunct1 [OF matchbalance_moves [OF that]] s]
          caps_ok_mono [OF c] by simp
      ultimately show ?thesis using k I_balance by (subst match_init.simps) (simp split: option.split)
    next
      case I_frontier
      have p2: "p + 2 \<le> length pat" using next_p(4) I_frontier by simp
      have ce: "in_bounds (classend pat (p + 2))" using classend_ok [OF p2] by simp
      have "in_bounds (frontier src pat s (p + 2) ep) \<and>
          (frontier src pat s (p + 2) ep = Inr True \<longrightarrow> in_bounds (match_init src pat d cs s ep))"
        if "rd pat (p + 2) = Inr (ch (CHR ''[''))" "classend pat (p + 2) = Inr ep" for ep
      proof -
        have "p + 2 < length pat" using rd_next [OF that(1)] by simp
        then have "ep \<le> length pat" using classend_ok [of "p + 2" pat] that(2) by auto
        with frontier_in_bounds [OF s \<open>p + 2 < length pat\<close>] IH(4) [OF k I_frontier that(1) _ that(2)] s n c show ?thesis by simp
      qed
      with k ce p2 I_frontier show ?thesis by (subst match_init.simps) simp
    next
      case (I_capture l)
      have "in_bounds (match_init src pat d cs s' (p + 2))" if "match_capture src cs s l = Inr (Some s')" for s'
        using IH(5) [OF k I_capture that refl n] moves_le [OF match_capture_moves [OF that] s] next_p(5) I_capture caps_ok_mono [OF c] by simp
      then show ?thesis using k I_capture match_capture_in_bounds [OF c s n] by (subst match_init.simps) (simp split: option.split)
    next
      case I_single
      note k' = k [unfolded I_single]
      have b: "in_bounds (classend pat p)" using classend_ok [OF p] by simp
      note unf = match_init.simps [of src pat d cs s p, unfolded k' mbind_simps item.case]
      show ?thesis
      proof (cases "classend pat p")
        case (Inl e)
        with b show ?thesis by (simp add: unf in_bounds_def)
      next
        case ep: (Inr ep)
        note e = single_in_bounds_step [OF k' ep]
        note b = single_at_in_bounds [OF e(1,2), of src s]
        obtain q where q: "rd pat ep = Inr q" using rd_some [OF e(2)] by blast
        show ?thesis
        proof (cases "single_at src pat s p ep")
          case (Inl x)
          with b ep show ?thesis by (simp add: unf in_bounds_def)
        next
          case m: (Inr m)
          note unf' = unf [unfolded ep mbind_simps m q]
          note IH' = IH(6-11) [OF k I_single ep m q]
          note e' = e(3) [OF q]
          have s1: "m \<Longrightarrow> s + 1 \<le> length src" using single_at_less m by (metis Suc_leI Suc_eq_plus1)
          consider "q = ch (CHR ''?'')" | "q = ch (CHR ''*'')" | "q = ch (CHR ''+'')" | "q = ch (CHR ''-'')" | "q \<notin> ch ` set ''?*-+''" by auto
          then show ?thesis
          proof cases
            case 1
            have "in_bounds (if m then match src pat d cs (s + 1) (ep + 1) else Inr (None, cs))"
              using IH'(1) [OF 1] e' s1 1 n caps_ok_mono [OF c, of "s + 1"] by (cases m) simp_all
            moreover have "in_bounds (match_init src pat d cs1 s (ep + 1))"
              if "(if m then match src pat d cs (s + 1) (ep + 1) else Inr (None, cs)) = Inr (None, cs1)" for cs1
            proof -
              have "cs1 = cs" using that by (cases m) (auto dest: match_None)
              with IH'(2) [OF 1 that refl refl n] e' s 1 c show ?thesis by simp
            qed
            ultimately show ?thesis using 1 unfolding unf' by (auto split: option.split)
          next
            case 2
            have "in_bounds (max_loop src pat d cs s (ep + 1) i)" if n: "max_count src pat s p ep 0 = Inr i" for i
              using IH'(3) [OF _ 2 n] 2 e' max_count_moves [OF n s] \<open>length src < 2 ^ 63\<close> c by simp
            with 2 max_count_in_bounds [OF e(1,2)] show ?thesis unfolding unf' by simp
          next
            case 3
            have "in_bounds (max_loop src pat d cs (s + 1) (ep + 1) i)" if m: m and n: "max_count src pat (s + 1) p ep 0 = Inr i" for i
              using IH'(4) [OF _ _ 3 m n] 3 e' max_count_moves [OF n s1 [OF m]] \<open>length src < 2 ^ 63\<close> caps_ok_mono [OF c, of "s + 1"] by simp
            with 3 max_count_in_bounds [OF e(1,2)] show ?thesis unfolding unf' by simp
          next
            case 4
            with IH'(5) [OF _ _ _ 4] e e' s n c show ?thesis unfolding unf' by simp
          next
            case 5
            with IH'(6) e s1 n caps_ok_mono [OF c, of "s + 1"] show ?thesis unfolding unf' by simp
          qed
        qed
      qed
    qed (use k in \<open>subst match_init.simps, simp\<close>)+
  qed
next
  case (3 src pat d cs s p' i)
  have "in_bounds (match src pat d cs (s + i) p')" using "3.IH"(1) "3.prems" caps_ok_mono [of s cs "s + i"] by simp
  moreover have "in_bounds (max_loop src pat d cs1 s p' (i - 1))" if "match src pat d cs (s + i) p' = Inr (None, cs1)" "i \<noteq> 0" for cs1
    using "3.IH"(2) [OF that(1) refl refl that(2)] "3.prems" match_None [OF that(1)] by simp
  ultimately show ?case by (subst max_loop.simps) (auto split: option.split)
next
  case (4 src pat d cs s p ep p')
  have "in_bounds (min_loop src pat d cs1 (s + 1) p ep p')"
    if "match src pat d cs s p' = Inr (None, cs1)" "single_at src pat s p ep = Inr True" for cs1
    using "4.IH"(2) [OF that(1) refl refl that(2)] "4.prems" single_at_less [OF that(2)] match_None [OF that(1)]
      caps_ok_mono [of s cs "s + 1"] by simp
  with 4 show ?case by (subst min_loop.simps) (auto simp: single_at_in_bounds split: option.split)
qed

end
