(* ===== verification/Lj_Strlib.thy ===== *)
theory Lj_Strlib
  imports Lj_Match_Props
begin

text \<open>
  \<open>lib_string.c\<close>: \<open>string.find\<close>, \<open>string.match\<close>, \<open>string.gmatch\<close> and \<open>string.gsub\<close> on top of the
  matcher, and \<open>string.byte\<close>, \<open>string.char\<close> and \<open>string.rep\<close>. Functions the script passes are arguments,
  with the state they may change.
\<close>

subsection \<open>Plain search\<close>

text \<open>
  \<open>memchr\<close> and \<open>memcmp\<close>, the latter for equality; the bytes they are given must lie in the string. The
  difference of two sizes wraps.
\<close>

definition memchr_pos :: "string \<Rightarrow> nat \<Rightarrow> char \<Rightarrow> nat \<Rightarrow> nat option" where
  "memchr_pos x i c n = map_option (\<lambda>k. i + k) (List.find (\<lambda>k. x ! (i + k) = c) [0..<n])"

definition memchr :: "string \<Rightarrow> nat \<Rightarrow> char \<Rightarrow> nat \<Rightarrow> nat option mres" where
  "memchr x i c n = mbind (rd_mem x i n) (\<lambda>_. Inr (memchr_pos x i c n))"

definition memcmp_eq :: "string \<Rightarrow> nat \<Rightarrow> string \<Rightarrow> nat \<Rightarrow> nat \<Rightarrow> bool mres" where
  "memcmp_eq x i y j n = mbind (rd_mem x i n) (\<lambda>a. mbind (rd_mem y j n) (\<lambda>b. Inr (a = b)))"

definition size_diff :: "nat \<Rightarrow> nat \<Rightarrow> nat" where
  "size_diff a b = (if b \<le> a then a - b else a + 2 ^ 64 - b)"

lemma memchr_result: "memchr x i c n = Inr (Some j) \<Longrightarrow> i \<le> j \<and> j < i + n"
  by (auto simp: memchr_def memchr_pos_def mbind_Inr find_Some_iff)

text \<open>
  \<open>s1\<close> points to index \<open>i\<close> of \<open>x\<close>; \<open>l1\<close> is what is left to search, \<open>l2\<close> the length of \<open>s2\<close> without its
  first character.
\<close>

function lmemfind_loop :: "string \<Rightarrow> nat \<Rightarrow> nat \<Rightarrow> string \<Rightarrow> nat \<Rightarrow> nat option mres" where
  "lmemfind_loop x i l1 s2 l2 =
     (if l1 > 0 then
        mbind (rd s2 0) (\<lambda>c. mbind (memchr x i (char_of c) l1) (\<lambda>r.
          case r of
            None \<Rightarrow> Inr None
          | Some j \<Rightarrow>
              let init = j + 1 in
              mbind (memcmp_eq x init s2 1 l2) (\<lambda>eq.
                if eq then Inr (Some (init - 1))
                else lmemfind_loop x init (l1 - (init - i)) s2 l2)))
      else Inr None)"
  by auto
termination
  by (relation "measure (\<lambda>(x, i, l1, s2, l2). l1)") (auto dest!: memchr_result)

declare lmemfind_loop.simps [simp del]

definition lmemfind :: "string \<Rightarrow> nat \<Rightarrow> nat \<Rightarrow> string \<Rightarrow> nat \<Rightarrow> nat option mres" where
  "lmemfind x i l1 s2 l2 =
     (if l2 = 0 then Inr (Some i)
      else if l2 > l1 then Inr None
      else let l2 = l2 - 1; l1 = size_diff l1 l2 in lmemfind_loop x i l1 s2 l2)"

subsection \<open>Captures as results\<close>

text \<open>The Lua values these functions take and return; a number carries the text it is converted to.\<close>

datatype lval = L_nil | L_false | L_int int | L_num string | L_str string | L_other string

definition push_onecapture :: "string \<Rightarrow> capture list \<Rightarrow> nat \<Rightarrow> nat \<Rightarrow> nat \<Rightarrow> lval mres" where
  "push_onecapture src cs i s e =
     (if i \<ge> length cs then
        if i = 0 then mbind (rd_mem src s (e - s)) (\<lambda>x. Inr (L_str x)) else Inl (M_err ERR_STRCAPI)
      else let l = c_len (cs ! i) in
        if l = CAP_UNFINISHED then Inl (M_err ERR_STRCAPU)
        else if l = CAP_POSITION then Inr (L_int (int (c_init (cs ! i)) + 1))
        else mbind (rd_mem src (c_init (cs ! i)) (nat l)) (\<lambda>x. Inr (L_str x)))"

primrec push_each :: "string \<Rightarrow> capture list \<Rightarrow> nat \<Rightarrow> nat \<Rightarrow> nat list \<Rightarrow> lval list mres" where
  "push_each src cs s e [] = Inr []"
| "push_each src cs s e (i # is) =
     mbind (push_onecapture src cs i s e) (\<lambda>v. mbind (push_each src cs s e is) (\<lambda>vs. Inr (v # vs)))"

text \<open>\<open>span\<close> is the match, or \<open>None\<close> for the null pointer that \<open>string.find\<close> passes.\<close>

definition push_captures :: "string \<Rightarrow> capture list \<Rightarrow> (nat \<times> nat) option \<Rightarrow> lval list mres" where
  "push_captures src cs span =
     (let nlevels = (if cs = [] \<and> span \<noteq> None then 1 else length cs); (s, e) = (case span of None \<Rightarrow> (0, 0) | Some se \<Rightarrow> se)
      in push_each src cs s e [0..<nlevels])"

subsection \<open>\<open>string.find\<close> and \<open>string.match\<close>\<close>

definition posrelat :: "int \<Rightarrow> nat \<Rightarrow> int" where
  "posrelat pos len = (let pos = (if pos < 0 then pos + int len + 1 else pos) in if pos \<ge> 0 then pos else 0)"

abbreviation SPECIALS :: string where "SPECIALS \<equiv> ''^$*+?.([%-''"

text \<open>\<open>strpbrk\<close> stops at the first NUL.\<close>

definition no_specials :: "string \<Rightarrow> bool" where
  "no_specials p \<longleftrightarrow> (\<forall>c \<in> set (c_str p). c \<notin> set SPECIALS)"

definition has_anchor :: "string \<Rightarrow> bool" where
  "has_anchor pat \<longleftrightarrow> rd pat 0 = Inr (ch (CHR ''^''))"

text \<open>The loop over the start of the match; its result is the match with the captures.\<close>

function find_loop :: "string \<Rightarrow> string \<Rightarrow> bool \<Rightarrow> nat \<Rightarrow> (nat \<times> nat \<times> capture list) option mres" where
  "find_loop src pat anchor s1 =
     mbind (match src pat 0 [] s1 0) (\<lambda>(r, cs).
       case r of
         Some e \<Rightarrow> Inr (Some (s1, e, cs))
       | None \<Rightarrow> if s1 < length src \<and> \<not> anchor then find_loop src pat anchor (s1 + 1) else Inr None)"
  by auto
termination by (relation "measure (\<lambda>(src, pat, anchor, s1). length src - s1)") auto

declare find_loop.simps [simp del]

text \<open>The start of the search, and the pattern without its anchor.\<close>

definition find_start :: "string \<Rightarrow> int \<Rightarrow> nat" where
  "find_start s init0 =
     (let i0 = posrelat init0 (length s) - 1
      in if i0 < 0 then 0 else if i0 > int (length s) then length s else nat i0)"

definition pat_body :: "string \<Rightarrow> string" where
  "pat_body p = (if has_anchor p then tl p else p)"

definition str_find_aux :: "bool \<Rightarrow> string \<Rightarrow> string \<Rightarrow> int \<Rightarrow> bool \<Rightarrow> lval list mres" where
  "str_find_aux fnd s p init0 plain =
     (let init = find_start s init0
      in if fnd \<and> (plain \<or> no_specials p) then
           mbind (lmemfind s init (length s - init) p (length p)) (\<lambda>r.
             case r of
               Some s2 \<Rightarrow> Inr [L_int (int s2 + 1), L_int (int s2 + int (length p))]
             | None \<Rightarrow> Inr [L_nil])
         else
           mbind (find_loop s (pat_body p) (has_anchor p) init) (\<lambda>r.
             case r of
               None \<Rightarrow> Inr [L_nil]
             | Some (s1, res, cs) \<Rightarrow>
                 if fnd then mbind (push_captures s cs None) (\<lambda>vs. Inr (L_int (int s1 + 1) # L_int (int res) # vs))
                 else push_captures s cs (Some (s1, res))))"

definition string_find :: "string \<Rightarrow> string \<Rightarrow> int \<Rightarrow> bool \<Rightarrow> lval list mres" where
  "string_find = str_find_aux True"

definition string_match :: "string \<Rightarrow> string \<Rightarrow> int \<Rightarrow> lval list mres" where
  "string_match s p init = str_find_aux False s p init False"

subsection \<open>\<open>string.gmatch\<close>\<close>

text \<open>One step of the iterator: from the position it has kept to the captures and the next position.\<close>

function gmatch_aux :: "string \<Rightarrow> string \<Rightarrow> nat \<Rightarrow> (lval list \<times> nat) option mres" where
  "gmatch_aux str p src =
     (if src \<le> length str then
        mbind (match str p 0 [] src 0) (\<lambda>(r, cs).
          case r of
            Some e \<Rightarrow> mbind (push_captures str cs (Some (src, e))) (\<lambda>vs. Inr (Some (vs, if e = src then e + 1 else e)))
          | None \<Rightarrow> gmatch_aux str p (src + 1))
      else Inr None)"
  by auto
termination by (relation "measure (\<lambda>(str, p, src). length str + 1 - src)") auto

declare gmatch_aux.simps [simp del]

subsection \<open>\<open>string.gsub\<close>\<close>

text \<open>
  The third argument: a string or number, or what calls a function or looks up a table, with the state of
  the script they may change.
\<close>

datatype 'st repl = R_str string | R_fn "lval list \<Rightarrow> 'st \<Rightarrow> (lval \<times> 'st) mres" | R_tab "lval \<Rightarrow> 'st \<Rightarrow> (lval \<times> 'st) mres"

text \<open>Values that \<open>luaL_addvalue\<close> can add: strings and numbers.\<close>

fun lval_text :: "lval \<Rightarrow> string option" where
  "lval_text (L_str x) = Some x"
| "lval_text (L_num x) = Some x"
| "lval_text (L_int i) = Some (to_string_int i)"
| "lval_text _ = None"

text \<open>The replacement string from index \<open>i\<close> on; after a final percent sign its terminator is added.\<close>

function add_s :: "string \<Rightarrow> capture list \<Rightarrow> nat \<Rightarrow> nat \<Rightarrow> string \<Rightarrow> nat \<Rightarrow> string mres" where
  "add_s src cs s e news i =
     (if i < length news then
        if news ! i \<noteq> CHR ''%'' then mbind (add_s src cs s e news (i + 1)) (\<lambda>b. Inr (news ! i # b))
        else mbind (rd news (i + 1)) (\<lambda>c.
          mbind
            (if \<not> lj_char_isdigit (int c) then Inr [char_of c]
             else if c = ch (CHR ''0'') then rd_mem src s (e - s)
             else mbind (push_onecapture src cs (c - ch (CHR ''1'')) s e) (\<lambda>v. Inr (the (lval_text v))))
            (\<lambda>x. mbind (add_s src cs s e news (i + 2)) (\<lambda>b. Inr (x @ b))))
      else Inr [])"
  by auto
termination by (relation "measure (\<lambda>(src, cs, s, e, news, i). length news - i)") auto

declare add_s.simps [simp del]

fun lval_typename :: "lval \<Rightarrow> string" where
  "lval_typename L_nil = ''nil''"
| "lval_typename L_false = ''boolean''"
| "lval_typename (L_int _) = ''number''"
| "lval_typename (L_num _) = ''number''"
| "lval_typename (L_str _) = ''string''"
| "lval_typename (L_other t) = t"

definition add_value :: "string \<Rightarrow> capture list \<Rightarrow> nat \<Rightarrow> nat \<Rightarrow> 'st repl \<Rightarrow> 'st \<Rightarrow> (string \<times> 'st) mres" where
  "add_value src cs s e rp st =
     (case rp of
        R_str news \<Rightarrow> mbind (add_s src cs s e news 0) (\<lambda>b. Inr (b, st))
      | _ \<Rightarrow>
        mbind (case rp of
            R_fn f \<Rightarrow> mbind (push_captures src cs (Some (s, e))) (\<lambda>vs. f vs st)
          | R_tab f \<Rightarrow> mbind (push_onecapture src cs 0 s e) (\<lambda>v. f v st)
          | R_str news \<Rightarrow> Inr (L_nil, st)) (\<lambda>(v, st').
          if v = L_nil \<or> v = L_false then mbind (rd_mem src s (e - s)) (\<lambda>x. Inr (x, st'))
          else case lval_text v of
            None \<Rightarrow> Inl (M_err ERR_STRGSRV)
          | Some x \<Rightarrow> Inr (x, st')))"

text \<open>What is copied after an attempt at \<open>src\<close> that found \<open>r\<close>, and where the next one begins; \<open>None\<close> at the end.\<close>

definition gsub_advance :: "string \<Rightarrow> nat option \<Rightarrow> nat \<Rightarrow> (nat \<times> string) option" where
  "gsub_advance x r src =
     (case r of
        Some e \<Rightarrow> if e > src then Some (e, []) else if src < length x then Some (src + 1, [x ! src]) else None
      | None \<Rightarrow> if src < length x then Some (src + 1, [x ! src]) else None)"

lemma gsub_advance_less:
  assumes "match x p d cs src q = Inr (r, cs')" "gsub_advance x r src = Some (src', c)"
  shows "src < src' \<and> src < length x"
  using assms match_progress [of x p d cs src q _ cs'] by (cases r) (fastforce simp: gsub_advance_def split: if_splits)+

text \<open>The loop; \<open>b\<close> is the buffer, the result adds the position it stops at.\<close>

function gsub_loop :: "string \<Rightarrow> string \<Rightarrow> bool \<Rightarrow> int \<Rightarrow> 'st repl \<Rightarrow> nat \<Rightarrow> int \<Rightarrow> string \<Rightarrow> 'st
    \<Rightarrow> (string \<times> int \<times> nat \<times> 'st) mres" where
  "gsub_loop x p anchor max_s rp src n b st =
     (if n < max_s then
        mbind (match x p 0 [] src 0) (\<lambda>(r, cs).
          mbind (case r of None \<Rightarrow> Inr ([], st) | Some e \<Rightarrow> add_value x cs src e rp st) (\<lambda>(y, st').
            let n' = (if r = None then n else n + 1) in
            case gsub_advance x r src of
              None \<Rightarrow> Inr (b @ y, n', src, st')
            | Some (src', c) \<Rightarrow>
                if anchor then Inr (b @ y @ c, n', src', st')
                else gsub_loop x p anchor max_s rp src' n' (b @ y @ c) st'))
      else Inr (b, n, src, st))"
  by auto
termination
  by (relation "measure (\<lambda>(x, p, anchor, max_s, rp, src, n, b, st). length x - src)") (auto dest!: gsub_advance_less)

declare gsub_loop.simps [simp del]

definition string_gsub :: "string \<Rightarrow> string \<Rightarrow> 'st repl \<Rightarrow> int option \<Rightarrow> 'st \<Rightarrow> (string \<times> int \<times> 'st) mres" where
  "string_gsub x p rp max_s st =
     (let m = (case max_s of None \<Rightarrow> int (length x) + 1 | Some k \<Rightarrow> k);
          anchor = has_anchor p
      in mbind (gsub_loop x (pat_body p) anchor m rp 0 0 [] st) (\<lambda>(b, n, src, st'). Inr (b @ drop src x, n, st')))"

subsection \<open>Substrings and repetition\<close>

text \<open>\<open>string.byte\<close>: the bytes from \<open>start\<close> to \<open>stop\<close>, or \<open>None\<close> if there are too many for the stack.\<close>

abbreviation LUAI_MAXCSTACK :: int where "LUAI_MAXCSTACK \<equiv> 8000"

definition string_byte :: "string \<Rightarrow> int \<Rightarrow> int \<Rightarrow> nat list option" where
  "string_byte s start stop =
     (let len = int (length s);
          stop = (if stop < 0 then stop + len + 1 else stop); start = (if start < 0 then start + len + 1 else start);
          start = (if start \<le> 0 then 1 else start); stop = (if stop > len then len else stop)
      in if start > stop then Some []
         else let start = start - 1; n = stop - start in
           if n > LUAI_MAXCSTACK then None
           else Some (map (\<lambda>i. of_char (s ! nat (start + int i))) [0..<nat n]))"

text \<open>\<open>string.char\<close>: \<open>None\<close> if an argument is not a byte.\<close>

definition string_char :: "int list \<Rightarrow> string option" where
  "string_char ks = (if \<forall>k \<in> set ks. 0 \<le> k \<and> k < 256 then Some (map (\<lambda>k. char_of (nat k)) ks) else None)"

text \<open>
  The inner loop of \<open>string.rep\<close>, which copies at least one byte, from a string with its terminator or from
  the beginning of the buffer itself.
\<close>

definition copy_src :: "string option \<Rightarrow> string \<Rightarrow> nat \<Rightarrow> char" where
  "copy_src from b i = (let s = (case from of None \<Rightarrow> b | Some s \<Rightarrow> s) in if i < length s then s ! i else CHR 0x00)"

function rep_copy :: "string option \<Rightarrow> nat \<Rightarrow> nat \<Rightarrow> string \<Rightarrow> string" where
  "rep_copy from len i b =
     (let b' = b @ [copy_src from b i] in if i + 1 < len then rep_copy from len (i + 1) b' else b')"
  by auto
termination by (relation "measure (\<lambda>(from, len, i, b). len - i)") auto

declare rep_copy.simps [simp del]

text \<open>\<open>do ... while (--k > 0)\<close>, for \<open>k + 1\<close>.\<close>

fun rep_loop :: "string option \<Rightarrow> nat \<Rightarrow> nat \<Rightarrow> string \<Rightarrow> string" where
  "rep_loop from len 0 b = rep_copy from len 0 b"
| "rep_loop from len (Suc k) b = rep_loop from len k (rep_copy from len 0 b)"

datatype rep_result = Rep_overflow | Rep_empty | Rep_buffer string nat nat

text \<open>
  What is written to the buffer, the size that is asked for it, an unsigned 32-bit number, and the length of
  the result. The lengths of strings are at most \<open>LJ_MAX_STR\<close>, so that \<open>tlen\<close> does not overflow.
\<close>

abbreviation LJ_MAX_STRLEN :: int where "LJ_MAX_STRLEN \<equiv> 0x7fffff00"

definition string_rep :: "string \<Rightarrow> int \<Rightarrow> string option \<Rightarrow> rep_result" where
  "string_rep s k sep =
     (if k \<le> 0 then Rep_empty
      else
        let len = int (length s); seplen = (case sep of None \<Rightarrow> 0 | Some x \<Rightarrow> int (length x)); tlen = (len + seplen) * k in
        if (sep \<noteq> None \<and> len + seplen > LJ_MAX_STRLEN) \<or> tlen > LJ_MAX_STRLEN then Rep_overflow
        else if tlen = 0 then Rep_empty
        else
          let (from, len1, k1, b) =
            (case sep of
               Some x \<Rightarrow> if k > 1 then (None, length x + length s, k - 1, s @ x) else (Some s, length s, k, [])
             | None \<Rightarrow> (Some s, length s, k, []))
          in Rep_buffer (rep_loop from len1 (nat (k1 - 1)) b) (nat (tlen mod 2 ^ 32)) (nat (tlen - seplen)))"

end
