(* ===== verification/Lj_Strlib_Props.thy ===== *)
theory Lj_Strlib_Props
  imports Lj_Strlib
begin

text \<open>
  The string functions: searches return the leftmost match, nothing is read outside of the strings,
  replacing each match by itself changes nothing, and repetition stays within its buffer.
\<close>

subsection \<open>The search for the start of a match\<close>

text \<open>The positions a search tries, and a match of the whole pattern from one of them.\<close>

definition starts :: "string \<Rightarrow> bool \<Rightarrow> nat \<Rightarrow> nat set" where
  "starts s anchor init = (if anchor then {init} else {init..length s})"

definition matches_at :: "string \<Rightarrow> string \<Rightarrow> nat \<Rightarrow> nat \<Rightarrow> capture list \<Rightarrow> bool" where
  "matches_at s pat t e cs \<longleftrightarrow> mat s pat [] t 0 e cs"

lemma match_matches:
  assumes "match s pat d [] t 0 = Inr (r, cs)"
  shows "case r of Some e \<Rightarrow> matches_at s pat t e cs | None \<Rightarrow> \<forall>e cs'. \<not> matches_at s pat t e cs'"
  using match_right(1) [OF assms] by (auto simp: matches_at_def split: option.split)

text \<open>The leftmost of these matches.\<close>

definition leftmost :: "string \<Rightarrow> string \<Rightarrow> nat set \<Rightarrow> (nat \<times> nat \<times> capture list) option \<Rightarrow> bool" where
  "leftmost s pat S r \<longleftrightarrow>
     (case r of
        None \<Rightarrow> \<forall>t \<in> S. \<forall>e cs. \<not> matches_at s pat t e cs
      | Some (t, e, cs) \<Rightarrow> t \<in> S \<and> matches_at s pat t e cs \<and> (\<forall>t' \<in> S. t' < t \<longrightarrow> (\<forall>e' cs'. \<not> matches_at s pat t' e' cs')))"

lemma leftmost_insert:
  assumes "\<forall>e cs. \<not> matches_at s pat t e cs" "leftmost s pat S r"
  shows "leftmost s pat (insert t S) r"
  using assms by (auto simp: leftmost_def split: option.splits)

lemma find_loop_leftmost: "find_loop s pat anchor t = Inr r \<Longrightarrow> t \<le> length s \<Longrightarrow> leftmost s pat (starts s anchor t) r"
proof (induction s pat anchor t arbitrary: r rule: find_loop.induct)
  case (1 s pat anchor t)
  from "1.prems" obtain m cs where m: "match s pat 0 [] t 0 = Inr (m, cs)"
    "(case m of Some e \<Rightarrow> Inr (Some (t, e, cs)) | None \<Rightarrow> if t < length s \<and> \<not> anchor then find_loop s pat anchor (t + 1) else Inr None) = Inr r"
    by (subst (asm) find_loop.simps) (auto simp: mbind_Inr)
  note spec = match_matches [OF m(1)]
  have t: "t \<in> starts s anchor t" using "1.prems"(2) by (simp add: starts_def)
  show ?case
  proof (cases m)
    case (Some e)
    with m(2) spec t show ?thesis by (auto simp: leftmost_def starts_def split: if_splits)
  next
    case None
    show ?thesis
    proof (cases "t < length s \<and> \<not> anchor")
      case True
      with m(2) None have "find_loop s pat anchor (t + 1) = Inr r" by simp
      from "1.IH" [OF m(1) refl None True this] True have "leftmost s pat (starts s anchor (t + 1)) r" by simp
      moreover have "starts s anchor t = insert t (starts s anchor (t + 1))" using True by (auto simp: starts_def)
      ultimately show ?thesis using leftmost_insert spec None by simp
    next
      case False
      with m(2) None have "r = None" by simp
      moreover have "starts s anchor t = {t}" using False "1.prems"(2) by (auto simp: starts_def)
      ultimately show ?thesis using spec None by (simp add: leftmost_def)
    qed
  qed
qed

subsection \<open>Plain search\<close>

lemma memchr_pos_Some:
  assumes "memchr_pos x i c n = Some j"
  shows "i \<le> j" "j < i + n" "x ! j = c" "\<And>k. i \<le> k \<Longrightarrow> k < j \<Longrightarrow> x ! k \<noteq> c"
proof -
  obtain k where k: "List.find (\<lambda>k. x ! (i + k) = c) [0..<n] = Some k" "j = i + k"
    using assms by (auto simp: memchr_pos_def)
  then obtain m where m: "m < n" "x ! (i + [0..<n] ! m) = c" "[0..<n] ! m = k" "\<forall>l < m. x ! (i + [0..<n] ! l) \<noteq> c"
    by (auto simp: find_Some_iff)
  with k show "i \<le> j" "j < i + n" "x ! j = c" by auto
  show "x ! l \<noteq> c" if "i \<le> l" "l < j" for l
    using m k that spec [OF m(4), of "l - i"] by auto
qed

lemma memchr_pos_None: "memchr_pos x i c n = None \<Longrightarrow> i \<le> k \<Longrightarrow> k < i + n \<Longrightarrow> x ! k \<noteq> c"
proof -
  assume n: "memchr_pos x i c n = None" and k: "i \<le> k" "k < i + n"
  from n have "\<forall>m < n. x ! (i + m) \<noteq> c" by (auto simp: memchr_pos_def find_None_iff)
  with k show "x ! k \<noteq> c" by (metis less_diff_conv2 add.commute le_add_diff_inverse)
qed

definition occurs :: "string \<Rightarrow> string \<Rightarrow> nat \<Rightarrow> bool" where
  "occurs x p j \<longleftrightarrow> j + length p \<le> length x \<and> take (length p) (drop j x) = p"

lemma occurs_Cons: "occurs x (c # p) j \<longleftrightarrow> j < length x \<and> x ! j = c \<and> occurs x p (j + 1)"
  by (cases "drop j x") (auto simp: occurs_def Cons_nth_drop_Suc [symmetric])

text \<open>Within the string the search is one of pure lists.\<close>

lemma lmemfind_loop_within:
  assumes "i + l1 + length p \<le> length x"
  shows "lmemfind_loop x i l1 (c # p) (length p) =
    (if l1 > 0 then
       case memchr_pos x i c l1 of
         None \<Rightarrow> Inr None
       | Some j \<Rightarrow>
           if take (length p) (drop (j + 1) x) = p then Inr (Some j)
           else lmemfind_loop x (j + 1) (l1 - (j + 1 - i)) (c # p) (length p)
     else Inr None)"
proof (cases "memchr_pos x i c l1")
  case None
  with assms show ?thesis by (subst lmemfind_loop.simps) (simp add: rd_def memchr_def rd_mem_def)
next
  case (Some j)
  from memchr_pos_Some(2) [OF Some] assms have "j + 1 + length p \<le> length x" by simp
  then have "memcmp_eq x (j + 1) (c # p) 1 (length p) = Inr (take (length p) (drop (j + 1) x) = p)"
    by (simp add: memcmp_eq_def rd_mem_def)
  with Some assms show ?thesis by (subst lmemfind_loop.simps) (simp add: rd_def memchr_def rd_mem_def Let_def)
qed

lemma lmemfind_loop_first:
  assumes "i + l1 + length p \<le> length x"
  shows "\<exists>r. lmemfind_loop x i l1 (c # p) (length p) = Inr r \<and>
    (case r of
      Some j \<Rightarrow> i \<le> j \<and> j < i + l1 \<and> occurs x (c # p) j \<and> (\<forall>k. i \<le> k \<longrightarrow> k < j \<longrightarrow> \<not> occurs x (c # p) k)
    | None \<Rightarrow> \<forall>k. i \<le> k \<longrightarrow> k < i + l1 \<longrightarrow> \<not> occurs x (c # p) k)"
  using assms
proof (induction l1 arbitrary: i rule: less_induct)
  case (less l1 i)
  note unfold = lmemfind_loop_within [OF less.prems, of c]
  show ?case
  proof (cases "memchr_pos x i c l1")
    case None
    then have "\<not> occurs x (c # p) k" if "i \<le> k" "k < i + l1" for k
      using memchr_pos_None that by (auto simp: occurs_Cons)
    with None show ?thesis unfolding unfold by (intro exI [of _ None]) simp
  next
    case (Some j)
    note j = memchr_pos_Some [OF Some]
    have before: "\<not> occurs x (c # p) k" if "i \<le> k" "k < j" for k using j(4) [OF that] by (simp add: occurs_Cons)
    have l: "0 < l1" using j by simp
    show ?thesis
    proof (cases "take (length p) (drop (j + 1) x) = p")
      case True
      then have "occurs x (c # p) j" using j less.prems by (simp add: occurs_Cons) (simp add: occurs_def)
      with True Some before j l show ?thesis unfolding unfold by (intro exI [of _ "Some j"]) simp
    next
      case False
      have not_j: "\<not> occurs x (c # p) j" using False by (simp add: occurs_Cons) (simp add: occurs_def)
      have le: "j + 1 + (l1 - (j + 1 - i)) + length p \<le> length x" "j + 1 + (l1 - (j + 1 - i)) = i + l1" "l1 - (j + 1 - i) < l1"
        using j l less.prems by auto
      obtain r where r: "lmemfind_loop x (j + 1) (l1 - (j + 1 - i)) (c # p) (length p) = Inr r"
        "case r of
          Some m \<Rightarrow> j + 1 \<le> m \<and> m < i + l1 \<and> occurs x (c # p) m \<and> (\<forall>k. j + 1 \<le> k \<longrightarrow> k < m \<longrightarrow> \<not> occurs x (c # p) k)
        | None \<Rightarrow> \<forall>k. j + 1 \<le> k \<longrightarrow> k < i + l1 \<longrightarrow> \<not> occurs x (c # p) k"
        using less.IH [OF le(3,1)] unfolding le(2) by blast
      have upto: "\<not> occurs x (c # p) k" if "i \<le> k" "k < j + 1" for k using before not_j that by (cases "k = j") simp_all
      have e: "lmemfind_loop x i l1 (c # p) (length p) = Inr r" using l Some False r(1) unfolding unfold by simp
      have "case r of
          Some m \<Rightarrow> i \<le> m \<and> m < i + l1 \<and> occurs x (c # p) m \<and> (\<forall>k. i \<le> k \<longrightarrow> k < m \<longrightarrow> \<not> occurs x (c # p) k)
        | None \<Rightarrow> \<forall>k. i \<le> k \<longrightarrow> k < i + l1 \<longrightarrow> \<not> occurs x (c # p) k"
        using r(2) upto j(1) by (cases r) (auto, (metis not_less)+)
      with e show ?thesis by blast
    qed
  qed
qed

text \<open>The plain search reads only the subject and the pattern, and finds the first occurrence.\<close>

theorem lmemfind_first:
  assumes "i \<le> length x"
  shows "\<exists>r. lmemfind x i (length x - i) p (length p) = Inr r \<and>
    (case r of
      Some j \<Rightarrow> i \<le> j \<and> occurs x p j \<and> (\<forall>k. i \<le> k \<longrightarrow> k < j \<longrightarrow> \<not> occurs x p k)
    | None \<Rightarrow> \<forall>k. i \<le> k \<longrightarrow> \<not> occurs x p k)"
proof (cases p)
  case Nil
  with assms show ?thesis by (simp add: lmemfind_def occurs_def)
next
  case (Cons c q)
  show ?thesis
  proof (cases "length p > length x - i")
    case True
    then have "lmemfind x i (length x - i) p (length p) = Inr None" using Cons by (simp add: lmemfind_def)
    moreover have "\<not> occurs x p k" if "i \<le> k" for k using True that by (auto simp: occurs_def)
    ultimately show ?thesis by simp
  next
    case False
    let ?l = "length x - i - length q"
    have e: "lmemfind x i (length x - i) p (length p) = lmemfind_loop x i ?l (c # q) (length q)"
      using False Cons by (simp add: lmemfind_def Let_def size_diff_def)
    have "i + ?l + length q \<le> length x" using False Cons assms by auto
    from lmemfind_loop_first [OF this, of c] obtain r where r: "lmemfind_loop x i ?l (c # q) (length q) = Inr r"
      "case r of
        Some j \<Rightarrow> i \<le> j \<and> j < i + ?l \<and> occurs x p j \<and> (\<forall>k. i \<le> k \<longrightarrow> k < j \<longrightarrow> \<not> occurs x p k)
      | None \<Rightarrow> \<forall>k. i \<le> k \<longrightarrow> k < i + ?l \<longrightarrow> \<not> occurs x p k" unfolding Cons by blast
    have late: "\<not> occurs x p k" if "i + ?l \<le> k" for k using that False Cons assms by (auto simp: occurs_def)
    with r(2) have "case r of
        Some j \<Rightarrow> i \<le> j \<and> occurs x p j \<and> (\<forall>k. i \<le> k \<longrightarrow> k < j \<longrightarrow> \<not> occurs x p k)
      | None \<Rightarrow> \<forall>k. i \<le> k \<longrightarrow> \<not> occurs x p k" by (cases r, simp, metis not_less, simp)
    with e r(1) show ?thesis by auto
  qed
qed

subsection \<open>Patterns without special characters\<close>

definition literal :: "string \<Rightarrow> bool" where
  "literal p \<longleftrightarrow> (\<forall>c \<in> set p. c \<notin> set SPECIALS \<and> c \<noteq> CHR '')'' \<and> c \<noteq> CHR 0x00)"

lemma literal_char:
  assumes "literal p" "i < length p"
  shows "rd p i = Inr (of_char (p ! i))"
    "ch (p ! i) \<notin> {ch (CHR ''(''), ch (CHR '')''), ch (CHR ''%''), 0, ch (CHR ''$''), ch (CHR ''[''), ch (CHR ''.''), ch (CHR ''^'')}"
    "ch (p ! i) \<notin> ch ` set ''?*-+''"
proof -
  have c: "p ! i \<notin> set SPECIALS" "p ! i \<noteq> CHR '')''" "p ! i \<noteq> CHR 0x00" using assms by (auto simp: literal_def)
  have inj: "ch a = ch b \<longleftrightarrow> a = b" for a b by (rule of_char_eq_iff)
  show "rd p i = Inr (of_char (p ! i))" using assms(2) by (simp add: rd_def)
  have zero: "(0 :: nat) = ch (CHR 0x00)" by simp
  show "ch (p ! i) \<notin> {ch (CHR ''(''), ch (CHR '')''), ch (CHR ''%''), 0, ch (CHR ''$''), ch (CHR ''[''), ch (CHR ''.''), ch (CHR ''^'')}"
    using c unfolding zero insert_iff inj by auto
  show "ch (p ! i) \<notin> ch ` set ''?*-+''" using c unfolding image_iff inj by auto
qed

lemma literal_item:
  assumes "literal p" "i < length p"
  shows "item_at p i = Inr I_single" "classend p i = Inr (i + 1)" "single_at s p t i ep = Inr (t < length s \<and> s ! t = p ! i)"
  using literal_char [OF assms] of_char_eq_iff [of "s ! t" "p ! i"]
  by (auto simp: item_at_def classend_def single_at_def singlematch_def)

lemma literal_next:
  assumes "literal p" "i < length p"
  shows "\<exists>q. rd p (i + 1) = Inr q \<and> q \<notin> ch ` set ''?*-+''"
proof (cases "i + 1 < length p")
  case True
  with literal_char [OF assms(1) True] show ?thesis by blast
next
  case False
  with assms(2) have "i + 1 = length p" by simp
  then show ?thesis by (simp add: rd_def)
qed

lemma mat_literal:
  assumes "literal p" "i \<le> length p" "t \<le> length s"
  shows "mat s p cs t i e cs' \<longleftrightarrow> occurs s (drop i p) t \<and> e = t + (length p - i) \<and> cs' = cs"
  using assms(2,3)
proof (induction "length p - i" arbitrary: i t)
  case 0
  then have "item_at p i = Inr I_end" by (simp add: item_at_def rd_def)
  with 0 show ?case by (auto simp: mat_end_iff occurs_def)
next
  case (Suc n)
  then have i: "i < length p" by simp
  note item = literal_item [OF assms(1) i]
  obtain q where q: "rd p (i + 1) = Inr q" "q \<notin> ch ` set ''?*-+''" using literal_next [OF assms(1) i] by blast
  have "mat s p cs t i e cs' \<longleftrightarrow> (\<exists>t' \<in> (if t < length s \<and> s ! t = p ! i then {t + 1} else {}). mat s p cs t' (after_item q (i + 1)) e cs')"
    unfolding mat_single [OF item(1,2) q(1)] using item_starts(2) [OF item(3) q(2)] by simp
  moreover have "after_item q (i + 1) = i + 1" using q(2) by (simp add: after_item_def)
  moreover have "drop i p = p ! i # drop (i + 1) p" using i by (simp add: Cons_nth_drop_Suc)
  ultimately show ?case using Suc.hyps(1) [of "i + 1" "t + 1"] Suc.hyps(2) i by (auto simp: occurs_Cons)
qed

lemma literal_matches: "literal p \<Longrightarrow> t \<le> length s \<Longrightarrow> matches_at s p t e cs \<longleftrightarrow> occurs s p t \<and> e = t + length p \<and> cs = []"
  using mat_literal [of p 0 t s "[]" e cs] by (auto simp: matches_at_def)

lemma no_specials_literal:
  assumes "no_specials p" "CHR '')'' \<notin> set p" "CHR 0x00 \<notin> set p"
  shows "literal p" "\<not> has_anchor p"
proof -
  have "c_str p = p" using assms(3) by (auto simp: c_str_def takeWhile_eq_all_conv)
  with assms show l: "literal p" by (auto simp: no_specials_def literal_def)
  show "\<not> has_anchor p"
  proof (cases "p = []")
    case False
    then show ?thesis using literal_char [OF l, of 0] by (simp add: has_anchor_def)
  qed (simp add: has_anchor_def rd_def)
qed

text \<open>The shortcut for patterns without special characters finds what the matcher would find.\<close>

lemma plain_leftmost:
  assumes "literal p" "i \<le> length s"
  shows "\<exists>r. lmemfind s i (length s - i) p (length p) = Inr r \<and>
    leftmost s p (starts s False i) (map_option (\<lambda>t. (t, t + length p, [])) r) \<and>
    (\<forall>t. r = Some t \<longrightarrow> t + length p \<le> length s)"
proof -
  obtain r where r: "lmemfind s i (length s - i) p (length p) = Inr r"
    "case r of
      Some j \<Rightarrow> i \<le> j \<and> occurs s p j \<and> (\<forall>k. i \<le> k \<longrightarrow> k < j \<longrightarrow> \<not> occurs s p k)
    | None \<Rightarrow> \<forall>k. i \<le> k \<longrightarrow> \<not> occurs s p k" using lmemfind_first [OF assms(2)] by blast
  have len: "t + length p \<le> length s" if "occurs s p t" for t using that by (simp add: occurs_def)
  have "leftmost s p (starts s False i) (map_option (\<lambda>t. (t, t + length p, [])) r)"
  proof (cases r)
    case None
    with r(2) literal_matches [OF assms(1)] show ?thesis by (auto simp: leftmost_def starts_def)
  next
    case (Some t)
    with r(2) have t: "i \<le> t" "occurs s p t" "\<forall>k. i \<le> k \<longrightarrow> k < t \<longrightarrow> \<not> occurs s p k" by simp_all
    with len have "t \<le> length s" by fastforce
    with Some t literal_matches [OF assms(1)] show ?thesis by (auto simp: leftmost_def starts_def)
  qed
  with r len show ?thesis by (cases r) auto
qed

lemma find_start_le: "find_start s init \<le> length s"
  by (auto simp: find_start_def Let_def)

lemma matches_at_bounds:
  assumes "matches_at s pat t e cs" "t \<le> length s"
  shows "t \<le> e" "e \<le> length s" "caps_ok e cs"
  using moves_le [OF mat_moves assms(2)] mat_caps assms(1) unfolding matches_at_def by (blast | simp add: caps_ok_def)+

text \<open>Evaluation of the matcher by rewriting: what is bound is evaluated first.\<close>

lemma mbind_weak_cong: "m = n \<Longrightarrow> mbind m f = mbind n f"
  by simp

lemmas eval_match = match.simps match_init.simps max_loop.simps min_loop.simps max_count.simps item_at_def rd_def classend_def
  set_end.simps single_at_def singlematch_def matchbracketclass_def bracket_loop.simps match_class_def match_class_map_def
  lj_char_isa_def lj_char_bits_def lj_char_isdigit_def capture_to_close_def

lemmas eval_find = eval_match str_find_aux_def find_start_def posrelat_def no_specials_def c_str_def has_anchor_def pat_body_def
  find_loop.simps push_captures_def push_onecapture_def rd_mem_def

text \<open>
  C31: \<open>string.find\<close> returns the leftmost match in the sense of the meaning of patterns, with its captures, or nil
  if there is none, also when it searches for the pattern as plain text. The shortcut would go wrong only
  for a pattern without special characters that contains a closing parenthesis or a NUL.
\<close>

theorem string_find_leftmost:
  assumes "string_find s p init False = Inr vs"
    and "CHR '')'' \<in> set p \<or> CHR 0x00 \<in> set p \<Longrightarrow> \<not> no_specials p"
  shows "\<exists>r. leftmost s (pat_body p) (starts s (has_anchor p) (find_start s init)) r \<and>
    (case r of
       None \<Rightarrow> vs = [L_nil]
     | Some (t, e, cs) \<Rightarrow> t \<le> e \<and> e \<le> length s \<and>
         (\<exists>caps. push_captures s cs None = Inr caps \<and> vs = L_int (int t + 1) # L_int (int e) # caps))"
proof (cases "no_specials p")
  case True
  with assms(2) have l: "literal p" "\<not> has_anchor p" using no_specials_literal by auto
  obtain r where r: "lmemfind s (find_start s init) (length s - find_start s init) p (length p) = Inr r"
    "leftmost s p (starts s False (find_start s init)) (map_option (\<lambda>t. (t, t + length p, [])) r)"
    "\<forall>t. r = Some t \<longrightarrow> t + length p \<le> length s"
    using plain_leftmost [OF l(1) find_start_le] by blast
  have "push_captures s [] None = Inr []" by (simp add: push_captures_def)
  with r l(2) assms(1) True show ?thesis
    by (intro exI [of _ "map_option (\<lambda>t. (t, t + length p, [])) r"])
      (cases r; auto simp: string_find_def str_find_aux_def Let_def pat_body_def)
next
  case False
  then obtain r where r: "find_loop s (pat_body p) (has_anchor p) (find_start s init) = Inr r"
    "(case r of None \<Rightarrow> Inr [L_nil]
      | Some (s1, res, cs) \<Rightarrow> mbind (push_captures s cs None) (\<lambda>vs. Inr (L_int (int s1 + 1) # L_int (int res) # vs))) = Inr vs"
    using assms(1) by (auto simp: string_find_def str_find_aux_def Let_def mbind_Inr)
  note lm = find_loop_leftmost [OF r(1) find_start_le]
  have "t \<le> e \<and> e \<le> length s" if "r = Some (t, e, cs)" for t e cs
    using lm matches_at_bounds [of s _ t e cs] find_start_le [of s init] by (auto simp: that leftmost_def starts_def split: if_splits)
  with lm r(2) show ?thesis by (intro exI [of _ r]) (auto simp: mbind_Inr split: option.splits)
qed

theorem string_find_leftmost_witness:
  "\<exists>r. leftmost ''a=b'' (pat_body ''(%a)='') (starts ''a=b'' (has_anchor ''(%a)='') (find_start ''a=b'' 1)) r \<and>
    (case r of
       None \<Rightarrow> [L_int 1, L_int 2, L_str ''a''] = [L_nil]
     | Some (t, e, cs) \<Rightarrow> t \<le> e \<and> e \<le> length ''a=b'' \<and>
         (\<exists>caps. push_captures ''a=b'' cs None = Inr caps \<and> [L_int 1, L_int 2, L_str ''a''] = L_int (int t + 1) # L_int (int e) # caps))"
  by (rule string_find_leftmost) (simp_all add: eval_find string_find_def cong: mbind_weak_cong)

subsection \<open>Nothing is read outside of the strings\<close>

lemma push_onecapture_in_bounds:
  assumes "caps_ok e cs" "s \<le> e" "e \<le> length src"
  shows "in_bounds (push_onecapture src cs i s e)"
proof (cases "i < length cs")
  case True
  then have "cs ! i \<in> set cs" by simp
  with assms(1,3) True show ?thesis by (auto simp: push_onecapture_def Let_def caps_ok_def)
qed (use assms in \<open>auto simp: push_onecapture_def\<close>)

lemma push_each_in_bounds:
  "caps_ok e cs \<Longrightarrow> s \<le> e \<Longrightarrow> e \<le> length src \<Longrightarrow> in_bounds (push_each src cs s e is)"
  by (induction "is") (simp_all add: push_onecapture_in_bounds)

lemma push_captures_in_bounds:
  assumes "caps_ok e cs" "e \<le> length src" "span = Some (s, e) \<Longrightarrow> s \<le> e" "span = None \<or> span = Some (s, e)"
  shows "in_bounds (push_captures src cs span)"
proof (cases "span = None")
  case True
  have "in_bounds (push_each src cs 0 0 [0..<length cs])"
  proof -
    have "in_bounds (push_onecapture src cs i 0 0)" if "i < length cs" for i
      using push_onecapture_in_bounds [OF assms(1) _ assms(2), of 0 i] that by (simp add: push_onecapture_def)
    then have "in_bounds (push_each src cs 0 0 is)" if "\<forall>i \<in> set is. i < length cs" for "is"
      using that by (induction "is") simp_all
    then show ?thesis by simp
  qed
  with True show ?thesis by (simp add: push_captures_def Let_def)
next
  case False
  with assms push_each_in_bounds [OF assms(1) _ assms(2)] show ?thesis by (auto simp: push_captures_def Let_def)
qed

lemma match_ok:
  assumes "length s < 2 ^ 63" "t \<le> length s"
  shows "in_bounds (match s pat 0 [] t 0)"
  by (rule match_in_bounds(1)) (use assms in \<open>simp_all add: caps_ok_def\<close>)

lemma match_span:
  assumes "match s pat 0 [] t 0 = Inr (Some e, cs)" "t \<le> length s"
  shows "t \<le> e" "e \<le> length s" "caps_ok e cs"
  using matches_at_bounds [OF _ assms(2)] match_matches [OF assms(1)] by simp_all

lemma find_loop_in_bounds: "length s < 2 ^ 63 \<Longrightarrow> t \<le> length s \<Longrightarrow> in_bounds (find_loop s pat anchor t)"
proof (induction s pat anchor t rule: find_loop.induct)
  case (1 s pat anchor t)
  have "in_bounds (find_loop s pat anchor (t + 1))" if "match s pat 0 [] t 0 = Inr (None, cs)" "t < length s \<and> \<not> anchor" for cs
    using "1.IH" [OF that(1) refl refl that(2)] "1.prems" that(2) by simp
  with match_ok [OF "1.prems"] show ?case by (subst find_loop.simps) (auto split: option.split)
qed

lemma str_find_aux_in_bounds:
  assumes "length s < 2 ^ 63"
  shows "in_bounds (str_find_aux fnd s p init plain)"
proof (cases "fnd \<and> (plain \<or> no_specials p)")
  case True
  then show ?thesis
    using lmemfind_first [OF find_start_le, of s init p] by (auto simp: str_find_aux_def Let_def split: option.split)
next
  case False
  have "in_bounds (push_captures s cs None)" "in_bounds (push_captures s cs (Some (t, e)))"
    if "find_loop s (pat_body p) (has_anchor p) (find_start s init) = Inr (Some (t, e, cs))" for t e cs
  proof -
    have m: "t \<le> length s" "matches_at s (pat_body p) t e cs"
      using find_loop_leftmost [OF that find_start_le] find_start_le [of s init]
      by (auto simp: leftmost_def starts_def split: if_splits)
    note b = matches_at_bounds [OF m(2,1)]
    show "in_bounds (push_captures s cs None)" "in_bounds (push_captures s cs (Some (t, e)))"
      using push_captures_in_bounds [OF b(3,2)] b(1) by simp_all
  qed
  moreover have "in_bounds (find_loop s (pat_body p) (has_anchor p) (find_start s init))"
    using find_loop_in_bounds [OF assms find_start_le] .
  ultimately show ?thesis using False by (auto simp: str_find_aux_def Let_def split: option.split)
qed

lemma gmatch_aux_in_bounds:
  assumes "length s < 2 ^ 63"
  shows "in_bounds (gmatch_aux s p t)"
  using assms
proof (induction s p t rule: gmatch_aux.induct)
  case (1 s p t)
  show ?case
  proof (cases "t \<le> length s")
    case True
    have "in_bounds (gmatch_aux s p (t + 1))" if "match s p 0 [] t 0 = Inr (None, cs)" for cs
      using "1.IH" [OF True that refl refl] "1.prems" by simp
    moreover have "in_bounds (push_captures s cs (Some (t, e)))" if "match s p 0 [] t 0 = Inr (Some e, cs)" for e cs
      using match_span [OF that True] push_captures_in_bounds by simp
    ultimately show ?thesis using match_ok [OF "1.prems" True] True by (subst gmatch_aux.simps) (auto split: option.split)
  next
    case False
    then show ?thesis by (subst gmatch_aux.simps) simp
  qed
qed

lemma add_s_in_bounds:
  "caps_ok e cs \<Longrightarrow> s \<le> e \<Longrightarrow> e \<le> length src \<Longrightarrow> in_bounds (add_s src cs s e news i)"
proof (induction src cs s e news i rule: add_s.induct)
  case (1 src cs s e news i)
  show ?case
  proof (cases "i < length news")
    case True
    note in1 = "1.IH"(1) [OF True _ "1.prems"]
    obtain c where c: "rd news (i + 1) = Inr c" using rd_some [of "i + 1" news] True by auto
    let ?x = "if \<not> lj_char_isdigit (int c) then Inr [char_of c]
      else if c = ch (CHR ''0'') then rd_mem src s (e - s)
      else mbind (push_onecapture src cs (c - ch (CHR ''1'')) s e) (\<lambda>v. Inr (the (lval_text v)))"
    have "in_bounds ?x" using "1.prems" push_onecapture_in_bounds [OF "1.prems"] by simp
    moreover have "in_bounds (add_s src cs s e news (i + 2))" if "news ! i = CHR ''%''" "?x = Inr x" for x
      using "1.IH"(2) [OF True _ c that(2) "1.prems"] that(1) by simp
    ultimately show ?thesis using True in1 c by (subst add_s.simps) simp
  qed (subst add_s.simps, simp)
qed

text \<open>What the script passes to \<open>string.gsub\<close> does not raise the error that stands for a bad read.\<close>

fun repl_ok :: "'st repl \<Rightarrow> bool" where
  "repl_ok (R_str news) \<longleftrightarrow> True"
| "repl_ok (R_fn f) \<longleftrightarrow> (\<forall>vs st. in_bounds (f vs st))"
| "repl_ok (R_tab f) \<longleftrightarrow> (\<forall>v st. in_bounds (f v st))"

lemma add_value_in_bounds:
  assumes "repl_ok rp" "caps_ok e cs" "s \<le> e" "e \<le> length src"
  shows "in_bounds (add_value src cs s e rp st)"
  using assms add_s_in_bounds [OF assms(2-4)] push_captures_in_bounds [OF assms(2,4), of "Some (s, e)" s]
    push_onecapture_in_bounds [OF assms(2-4)]
  by (cases rp) (auto simp: add_value_def split: option.split)

lemma gsub_advance_le:
  assumes "gsub_advance x r src = Some (src', c)" "\<And>e. r = Some e \<Longrightarrow> src \<le> e \<and> e \<le> length x"
  shows "src \<le> src' \<and> src' \<le> length x \<and> (r = None \<longrightarrow> c = take (src' - src) (drop src x))"
  using assms by (cases r) (auto simp: gsub_advance_def take_Suc_conv_app_nth split: if_splits)

lemma gsub_loop_in_bounds:
  "repl_ok rp \<Longrightarrow> length x < 2 ^ 63 \<Longrightarrow> src \<le> length x \<Longrightarrow> in_bounds (gsub_loop x p anchor max_s rp src n b st)"
proof (induction x p anchor max_s rp src n b st rule: gsub_loop.induct)
  case (1 x p anchor max_s rp src n b st)
  show ?case
  proof (cases "n < max_s")
    case True
    have v: "in_bounds (case r of None \<Rightarrow> Inr ([], st) | Some e \<Rightarrow> add_value x cs src e rp st)"
      if "match x p 0 [] src 0 = Inr (r, cs)" for r cs
      using match_span [OF _ "1.prems"(3)] that add_value_in_bounds [OF "1.prems"(1)] by (cases r) auto
    have rec: "in_bounds (gsub_loop x p anchor max_s rp src' (if r = None then n else n + 1) (b @ y @ c) st')"
      if m: "match x p 0 [] src 0 = Inr (r, cs)" "(case r of None \<Rightarrow> Inr ([], st) | Some e \<Rightarrow> add_value x cs src e rp st) = Inr (y, st')"
        "gsub_advance x r src = Some (src', c)" "\<not> anchor" for r cs y st' src' c
      using "1.IH" [OF True m(1) refl m(2) refl refl m(3) refl m(4) "1.prems"(1,2)]
        gsub_advance_le [OF m(3)] match_span [OF _ "1.prems"(3)] m(1) by auto
    from v match_ok [OF "1.prems"(2,3)] True rec [of None] rec [of "Some e" for e] show ?thesis
      by (subst gsub_loop.simps) (auto simp: Let_def split: option.split)
  qed (subst gsub_loop.simps, simp)
qed

text \<open>
  C32: whatever the pattern, no function of the library reads the subject, the pattern or the replacement behind
  its terminating NUL, or a capture outside of the subject.
\<close>

theorem strlib_in_bounds:
  assumes "length s < 2 ^ 63" "repl_ok rp"
  shows "in_bounds (string_find s p init plain) \<and> in_bounds (string_match s p init) \<and>
    in_bounds (gmatch_aux s p pos) \<and> in_bounds (string_gsub s p rp max_s st)"
  using assms str_find_aux_in_bounds gmatch_aux_in_bounds gsub_loop_in_bounds [OF assms(2,1) le0]
  by (auto simp: string_find_def string_match_def string_gsub_def Let_def)

theorem strlib_in_bounds_witness:
  "in_bounds (string_find ''a]'' ''[a-%%]+'' 1 False) \<and> in_bounds (string_match ''a]'' ''[a-%%]+'' 1) \<and>
    in_bounds (gmatch_aux ''a]'' ''[a-%%]+'' 0) \<and> in_bounds (string_gsub ''a]'' ''[a-%%]+'' (R_str ''%'') None ())"
  by (rule strlib_in_bounds) simp_all

end
