(* ===== verification/Lj_Strlib_Gsub.thy ===== *)
theory Lj_Strlib_Gsub
  imports Lj_Strlib_Props
begin

text \<open>
  Replacement by \<open>string.gsub\<close> and repetition by \<open>string.rep\<close>.
\<close>

subsection \<open>Replacement\<close>

text \<open>
  What replacing means, from position \<open>u\<close> on with at most \<open>k\<close> replacements left: the leftmost match from there
  on is replaced, and the next one is looked for from its end on, or one position further if it was empty;
  after the last one there is no match left, or no replacement. An anchored pattern is tried once.
\<close>

type_synonym piece = "nat \<times> nat \<times> capture list \<times> string"

fun replaced :: "string \<Rightarrow> string \<Rightarrow> bool \<Rightarrow> int \<Rightarrow> 'st repl \<Rightarrow> nat \<Rightarrow> 'st \<Rightarrow> piece list \<Rightarrow> 'st \<Rightarrow> bool" where
  "replaced x p anchor k rp u st [] st' \<longleftrightarrow> st' = st \<and> (k \<le> 0 \<or> leftmost x p (starts x anchor u) None)"
| "replaced x p anchor k rp u st ((t, e, cs, y) # ps) st' \<longleftrightarrow>
     0 < k \<and> leftmost x p (starts x anchor u) (Some (t, e, cs)) \<and>
     (\<exists>st1. add_value x cs t e rp st = Inr (y, st1) \<and>
       (if anchor then ps = [] \<and> st' = st1
        else replaced x p anchor (k - 1) rp (if e > t then e else t + 1) st1 ps st'))"

fun replaced_text :: "string \<Rightarrow> nat \<Rightarrow> piece list \<Rightarrow> string" where
  "replaced_text x i [] = drop i x"
| "replaced_text x i ((t, e, cs, y) # ps) = take (t - i) (drop i x) @ y @ replaced_text x e ps"

lemma take_drop_join: "i \<le> s \<Longrightarrow> take (s - i) (drop i x) @ drop s x = drop i x"
  by (metis append_take_drop_id drop_drop le_add_diff_inverse2)

lemma take_drop_Suc: "i \<le> s \<Longrightarrow> s < length x \<Longrightarrow> take (s + 1 - i) (drop i x) = take (s - i) (drop i x) @ [x ! s]"
  by (simp add: Suc_diff_le take_Suc_conv_app_nth)

lemma replaced_none:
  "\<lbrakk>\<forall>t \<in> starts x anchor u. \<forall>e cs. \<not> matches_at x p t e cs\<rbrakk> \<Longrightarrow> replaced x p anchor k rp u st [] st"
  by (simp add: leftmost_def)

text \<open>Reaching \<open>src\<close> from \<open>u\<close> without a match, the last match having ended at \<open>j\<close>.\<close>

definition gap :: "string \<Rightarrow> string \<Rightarrow> bool \<Rightarrow> nat \<Rightarrow> nat \<Rightarrow> bool" where
  "gap x p anchor u src \<longleftrightarrow> u \<le> src \<and> src \<le> length x \<and> (anchor \<longrightarrow> u = src) \<and>
     (\<forall>t. u \<le> t \<longrightarrow> t < src \<longrightarrow> (\<forall>e cs. \<not> matches_at x p t e cs))"

lemma gap_leftmost:
  assumes "gap x p anchor u src" "matches_at x p src e cs"
  shows "leftmost x p (starts x anchor u) (Some (src, e, cs))"
  using assms by (auto simp: gap_def leftmost_def starts_def)

lemma gap_end:
  assumes "gap x p anchor u src" "\<forall>e cs. \<not> matches_at x p src e cs" "anchor \<or> src = length x"
  shows "\<forall>t \<in> starts x anchor u. \<forall>e cs. \<not> matches_at x p t e cs"
proof (intro ballI)
  fix t assume "t \<in> starts x anchor u"
  with assms(1,3) have "u \<le> t" "t < src \<or> t = src" by (auto simp: gap_def starts_def split: if_splits)
  with assms(1,2) show "\<forall>e cs. \<not> matches_at x p t e cs" by (auto simp: gap_def)
qed

lemma gap_Suc:
  assumes "gap x p False u src" "\<forall>e cs. \<not> matches_at x p src e cs" "src < length x"
  shows "gap x p False u (src + 1)"
  using assms by (auto simp: gap_def less_Suc_eq)

lemma gap_refl: "src \<le> length x \<Longrightarrow> gap x p anchor src src"
  by (simp add: gap_def)

lemma gsub_advance_cases:
  assumes "match x p 0 [] src 0 = Inr (r, cs)" "src \<le> length x"
  shows "case gsub_advance x r src of
      None \<Rightarrow> src = length x \<and> (\<forall>e. r = Some e \<longrightarrow> e = src)
    | Some (s1, c) \<Rightarrow> s1 \<le> length x \<and>
        (case r of None \<Rightarrow> s1 = src + 1 \<and> c = [x ! src]
         | Some e \<Rightarrow> s1 = (if e > src then e else src + 1) \<and> c = (if e > src then [] else [x ! src]) \<and> src \<le> e \<and> e \<le> s1 \<and>
             c = take (s1 - e) (drop e x))"
proof (cases r)
  case None
  with assms(2) show ?thesis by (simp add: gsub_advance_def)
next
  case (Some e)
  from match_span [OF assms(1) [unfolded Some] assms(2)] have "src \<le> e" "e \<le> length x" by auto
  with Some assms(2) show ?thesis by (auto simp: gsub_advance_def take_Suc_conv_app_nth)
qed

lemma gsub_loop_replaced:
  assumes "gsub_loop x p anchor max_s rp src n b st = Inr (b', n', src', st')" "gap x p anchor u src"
    "j \<le> src" "b = b0 @ take (src - j) (drop j x)"
  shows "\<exists>ps. replaced x p anchor (max_s - n) rp u st ps st' \<and> n' = n + int (length ps) \<and>
    b' @ drop src' x = b0 @ replaced_text x j ps"
  using assms
proof (induction x p anchor max_s rp src n b st arbitrary: u j b0 b' n' src' st' rule: gsub_loop.induct)
  case (1 x p anchor max_s rp src n b st)
  note run = "1.prems"(1) and gap = "1.prems"(2) and j = "1.prems"(3) and b = "1.prems"(4)
  from gap have src: "src \<le> length x" by (simp add: gap_def)
  show ?case
  proof (cases "n < max_s")
    case False
    with run have "b' = b" "n' = n" "src' = src" "st' = st" by (subst (asm) gsub_loop.simps; simp)+
    with False j b show ?thesis by (intro exI [of _ "[]"]) (simp add: take_drop_join)
  next
    case True
    from run True obtain r cs where m: "match x p 0 [] src 0 = Inr (r, cs)"
      by (subst (asm) gsub_loop.simps) (auto simp: mbind_Inr)
    from run True m obtain y st1 where v: "(case r of None \<Rightarrow> Inr ([], st) | Some e \<Rightarrow> add_value x cs src e rp st) = Inr (y, st1)"
      by (subst (asm) gsub_loop.simps) (auto simp: mbind_Inr)
    let ?n = "if r = None then n else n + 1"
    from run [unfolded gsub_loop.simps [of x p anchor max_s rp src n b st]] True m v have rest:
      "(case gsub_advance x r src of None \<Rightarrow> Inr (b @ y, ?n, src, st1)
        | Some (s1, c) \<Rightarrow> if anchor then Inr (b @ y @ c, ?n, s1, st1) else gsub_loop x p anchor max_s rp s1 ?n (b @ y @ c) st1) =
       Inr (b', n', src', st')" by (simp add: Let_def)
    note adv = gsub_advance_cases [OF m src] and spec = match_matches [OF m]
    note IH = "1.IH" [OF True m refl v refl refl _ refl]
    show ?thesis
    proof (cases r)
      case None
      with v have y: "y = []" "st1 = st" by simp_all
      from spec None have no: "\<forall>e cs. \<not> matches_at x p src e cs" by simp
      show ?thesis
      proof (cases "anchor \<or> gsub_advance x r src = None")
        case True
        from adv None have "gsub_advance x r src = None \<Longrightarrow> src = length x" by simp
        with True gap_end [OF gap no] have none_left: "\<forall>t \<in> starts x anchor u. \<forall>e cs. \<not> matches_at x p t e cs" by blast
        have "n' = n \<and> st' = st \<and> b' @ drop src' x = b0 @ drop j x"
        proof (cases "gsub_advance x r src")
          case None
          with rest y \<open>r = None\<close> b j show ?thesis by (auto simp: take_drop_join)
        next
          case (Some sc)
          with True rest adv y \<open>r = None\<close> have "src' = src + 1" "b' = b @ [x ! src]" "n' = n" "st' = st" "src < length x"
            by (auto split: prod.splits)
          then have "b' @ drop src' x = b @ drop src x" by (simp add: Cons_nth_drop_Suc)
          with \<open>n' = n\<close> \<open>st' = st\<close> b take_drop_join [OF j] show ?thesis by simp
        qed
        with replaced_none [OF none_left, of "max_s - n" rp st] show ?thesis by (intro exI [of _ "[]"]) simp
      next
        case False
        then obtain s1 c where a: "gsub_advance x r src = Some (s1, c)" by (cases "gsub_advance x r src") auto
        with adv None have s1: "s1 = src + 1" "c = [x ! src]" "src < length x" by auto
        have "gap x p anchor u s1" using gap_Suc [of x p u src] gap no s1 False by simp
        moreover have "b @ y @ c = b0 @ take (s1 - j) (drop j x)" using b y s1 take_drop_Suc [OF j s1(3)] by simp
        ultimately show ?thesis using IH [OF a, of b' n' src' st' u j b0] rest a False None y s1 j by auto
      qed
    next
      case (Some e)
      with v have v: "add_value x cs src e rp st = Inr (y, st1)" by simp
      have lm: "leftmost x p (starts x anchor u) (Some (src, e, cs))" using gap_leftmost [OF gap] spec Some by simp
      from match_span [OF m [unfolded Some] src] have e: "src \<le> e" "e \<le> length x" by auto
      have piece: "\<exists>ps. replaced x p anchor (max_s - n) rp u st ps st' \<and> n' = n + int (length ps) \<and>
          b' @ drop src' x = b0 @ replaced_text x j ps"
        if "if anchor then ps = [] \<and> st' = st1 else replaced x p anchor (max_s - n - 1) rp (if e > src then e else src + 1) st1 ps st'"
          "n' = n + 1 + int (length ps)" "b' @ drop src' x = (b @ y) @ replaced_text x e ps" for ps
        using that lm v True b by (intro exI [of _ "(src, e, cs, y) # ps"]) simp
      show ?thesis
      proof (cases "gsub_advance x r src")
        case None
        with rest Some have *: "b' = b @ y" "n' = n + 1" "src' = src" "st' = st1" by auto
        from adv None Some have "src = length x" "e = src" by auto
        then have "replaced x p anchor (max_s - n - 1) rp (if e > src then e else src + 1) st1 [] st1" if "\<not> anchor"
          using that by (simp add: leftmost_def starts_def)
        with * \<open>e = src\<close> show ?thesis by (intro piece [of "[]"]) auto
      next
        case adv_some: (Some sc)
        obtain s1 c where sc: "sc = (s1, c)" by (cases sc)
        from adv adv_some Some sc have s1: "s1 = (if e > src then e else src + 1)" "e \<le> s1" "s1 \<le> length x" "c = take (s1 - e) (drop e x)"
          by auto
        show ?thesis
        proof (cases anchor)
          case True
          with rest adv_some sc Some have *: "b' = b @ y @ c" "n' = n + 1" "src' = s1" "st' = st1" by auto
          have "c @ drop s1 x = drop e x" using s1(2,4) take_drop_join by simp
          with * True show ?thesis by (intro piece [of "[]"]) simp_all
        next
          case False
          with rest adv_some sc Some have "gsub_loop x p anchor max_s rp s1 (n + 1) (b @ y @ c) st1 = Inr (b', n', src', st')" by simp
          moreover have "b @ y @ c = (b @ y) @ take (s1 - e) (drop e x)" using s1(4) by simp
          ultimately obtain ps where "replaced x p anchor (max_s - (n + 1)) rp s1 st1 ps st'" "n' = n + 1 + int (length ps)"
            "b' @ drop src' x = (b @ y) @ replaced_text x e ps"
            using IH [of s1 c b' n' src' st' s1 e "b @ y"] gap_refl [OF s1(3)] s1(2) adv_some sc Some False by auto
          with s1(1) False show ?thesis by (intro piece [of ps]) (simp_all add: algebra_simps)
        qed
      qed
    qed
  qed
qed

lemma replaced_count: "replaced x p anchor k rp u st ps st' \<Longrightarrow> int (length ps) \<le> max 0 k"
proof (induction ps arbitrary: k u st)
  case (Cons q ps)
  obtain t e cs y where q: "q = (t, e, cs, y)" by (metis prod.collapse)
  with Cons.prems have k: "0 < k" and "ps = [] \<or> (\<exists>u st. replaced x p anchor (k - 1) rp u st ps st')"
    by (auto split: if_splits)
  with Cons.IH [of "k - 1"] show ?case by fastforce
qed simp

text \<open>
  C33: \<open>string.gsub\<close> replaces the matches of its pattern and keeps everything else: from the beginning of the
  subject on, each time the leftmost match that begins behind the last one is replaced, by its own
  replacement, computed in this order, until none is left or as many are replaced as were asked for; their
  number is returned. A pattern with an anchor is tried at the beginning only.
\<close>

theorem string_gsub_replaces:
  assumes "string_gsub x p rp max_s st = Inr (y, n, st')"
  shows "\<exists>ps. replaced x (pat_body p) (has_anchor p) (case max_s of None \<Rightarrow> int (length x) + 1 | Some k \<Rightarrow> k) rp 0 st ps st' \<and>
    y = replaced_text x 0 ps \<and> n = int (length ps) \<and>
    n \<le> max 0 (case max_s of None \<Rightarrow> int (length x) + 1 | Some k \<Rightarrow> k)"
proof -
  obtain b src where "gsub_loop x (pat_body p) (has_anchor p) (case max_s of None \<Rightarrow> int (length x) + 1 | Some k \<Rightarrow> k) rp 0 0 [] st =
      Inr (b, n, src, st')" "y = b @ drop src x"
    using assms by (auto simp: string_gsub_def Let_def mbind_Inr)
  from gsub_loop_replaced [OF this(1) gap_refl, of 0 "[]"] obtain ps where ps:
    "replaced x (pat_body p) (has_anchor p) (case max_s of None \<Rightarrow> int (length x) + 1 | Some k \<Rightarrow> k) rp 0 st ps st'"
    "n = int (length ps)" "b @ drop src x = replaced_text x 0 ps" by auto
  from ps(2,3) replaced_count [OF ps(1)] \<open>y = b @ drop src x\<close> show ?thesis
    by (intro exI [of _ ps] conjI ps(1)) simp_all
qed

definition rev_pair :: "lval list \<Rightarrow> nat \<Rightarrow> (lval \<times> nat) mres" where
  "rev_pair vs st = Inr (case vs of [L_str a, L_str b] \<Rightarrow> L_str (b @ a) | _ \<Rightarrow> L_nil, st + 1)"

theorem string_gsub_replaces_witness:
  "\<exists>ps. replaced ''ab-cd'' (pat_body ''(%a)(%a)'') (has_anchor ''(%a)(%a)'')
      (case None of None \<Rightarrow> int (length ''ab-cd'') + 1 | Some k \<Rightarrow> k) (R_fn rev_pair) 0 0 ps 2 \<and>
    ''ba-dc'' = replaced_text ''ab-cd'' 0 ps \<and> 2 = int (length ps) \<and>
    2 \<le> max 0 (case None of None \<Rightarrow> int (length ''ab-cd'') + 1 | Some k \<Rightarrow> k)"
  by (rule string_gsub_replaces)
    (simp add: eval_find string_gsub_def gsub_loop.simps gsub_advance_def add_value_def rev_pair_def cong: mbind_weak_cong)

text \<open>A match replaced by itself.\<close>

lemma add_value_same: "add_value x cs t e (R_str ''%0'') st = Inr (y, st1) \<Longrightarrow> st1 = st \<and> y = take (e - t) (drop t x)"
  by (auto simp: add_value_def add_s.simps mbind_Inr rd_def rd_mem_def lj_char_isdigit_def lj_char_isa_def lj_char_bits_def split: if_splits)

lemma replaced_same:
  "replaced x p anchor k (R_str ''%0'') u st ps st' \<Longrightarrow> i \<le> u \<Longrightarrow> i \<le> length x \<Longrightarrow> (anchor \<longrightarrow> u \<le> length x) \<Longrightarrow>
   st' = st \<and> replaced_text x i ps = drop i x"
proof (induction ps arbitrary: i u k)
  case (Cons q ps)
  obtain t e cs y where q: "q = (t, e, cs, y)" by (metis prod.collapse)
  from Cons.prems q have t: "u \<le> t" "t \<le> length x" "matches_at x p t e cs"
    by (auto simp: leftmost_def starts_def split: if_splits)
  note b = matches_at_bounds [OF t(3,2)]
  obtain st1 where a: "add_value x cs t e (R_str ''%0'') st = Inr (y, st1)"
    and r: "if anchor then ps = [] \<and> st' = st1 else replaced x p anchor (k - 1) (R_str ''%0'') (if e > t then e else t + 1) st1 ps st'"
    using Cons.prems(1) unfolding q replaced.simps by blast
  from add_value_same [OF a] have y: "st1 = st" "y = take (e - t) (drop t x)" by simp_all
  have "st' = st \<and> replaced_text x e ps = drop e x"
  proof (cases anchor)
    case True
    with r y show ?thesis by simp
  next
    case False
    with r y b have "replaced x p anchor (k - 1) (R_str ''%0'') (if e > t then e else t + 1) st ps st'" "e \<le> (if e > t then e else t + 1)"
      by auto
    from Cons.IH [OF this b(2)] False show ?thesis by simp
  qed
  with q y b t(1) Cons.prems(2) show ?case by (simp add: take_drop_join)
qed simp

lemma string_gsub_same:
  assumes "string_gsub x p (R_str ''%0'') max_s st = Inr (y, n, st')"
  shows "y = x \<and> st' = st"
proof -
  obtain b src where "gsub_loop x (pat_body p) (has_anchor p) (case max_s of None \<Rightarrow> int (length x) + 1 | Some k \<Rightarrow> k) (R_str ''%0'') 0 0 [] st =
      Inr (b, n, src, st')" "y = b @ drop src x"
    using assms by (auto simp: string_gsub_def Let_def mbind_Inr)
  with gsub_loop_replaced [OF this(1) gap_refl, of 0 "[]"] replaced_same show ?thesis by fastforce
qed

subsection \<open>Repetition\<close>

lemma rep_copy_Some: "i < length s \<Longrightarrow> rep_copy (Some s) (length s) i b = b @ drop i s"
proof (induction "Some s" "length s" i b rule: rep_copy.induct)
  case (1 i b)
  show ?case
  proof (cases "i + 1 < length s")
    case True
    with 1 show ?thesis
      by (subst rep_copy.simps) (simp add: copy_src_def Let_def Cons_nth_drop_Suc)
  next
    case False
    with 1 have "drop i s = [s ! i]" by (metis Cons_nth_drop_Suc drop_all not_less add.commute plus_1_eq_Suc)
    with False 1 show ?thesis by (subst rep_copy.simps) (simp add: copy_src_def Let_def)
  qed
qed

lemma rep_copy_None:
  "i < len \<Longrightarrow> len \<le> length b \<Longrightarrow> rep_copy None len i b = b @ drop i (take len b)"
proof (induction "None :: string option" len i b rule: rep_copy.induct)
  case (1 len i b)
  have c: "copy_src None b i = take len b ! i" using 1 by (simp add: copy_src_def)
  show ?case
  proof (cases "i + 1 < len")
    case True
    have "take len (b @ [copy_src None b i]) = take len b" using 1(3) by simp
    moreover have "drop i (take len b) = take len b ! i # drop (i + 1) (take len b)"
      using Cons_nth_drop_Suc [of i "take len b"] 1(2,3) by simp
    ultimately show ?thesis using True 1 c by (subst rep_copy.simps) (simp add: Let_def)
  next
    case False
    with 1 have "drop i (take len b) = [take len b ! i]"
      by (subst Cons_nth_drop_Suc [symmetric]) simp_all
    with False c show ?thesis by (subst rep_copy.simps) (simp add: Let_def)
  qed
qed

lemma rep_loop_Some: "s \<noteq> [] \<Longrightarrow> rep_loop (Some s) (length s) k b = b @ concat (replicate (Suc k) s)"
  by (induction k arbitrary: b) (simp_all add: rep_copy_Some)

lemma rep_loop_None: "0 < len \<Longrightarrow> len \<le> length b \<Longrightarrow> rep_loop None len k b = b @ concat (replicate (Suc k) (take len b))"
  by (induction k arbitrary: b) (simp_all add: rep_copy_None)

text \<open>\<open>k\<close> copies of \<open>s\<close> with the separator between them.\<close>

definition rep_text :: "string \<Rightarrow> int \<Rightarrow> string \<Rightarrow> string" where
  "rep_text s k x = s @ concat (replicate (nat k - 1) (x @ s))"

lemma length_concat_replicate: "length (concat (replicate k x)) = k * length x"
  by (induction k) simp_all

lemma rep_text_length:
  assumes "0 < k"
  shows "int (length (rep_text s k x)) = (int (length s) + int (length x)) * k - int (length x)"
proof -
  obtain m where m: "nat k = Suc m" "k = int m + 1" by (rule that [of "nat (k - 1)"]) (use assms in arith)+
  then show ?thesis by (simp add: rep_text_def length_concat_replicate algebra_simps)
qed

lemma rep_text_shift: "concat (replicate (Suc n) (s @ x)) = s @ concat (replicate n (x @ s)) @ x"
  by (induction n) simp_all

definition sep_text :: "string option \<Rightarrow> string" where
  "sep_text sep = (case sep of None \<Rightarrow> [] | Some x \<Rightarrow> x)"

lemma string_rep_buffer:
  assumes "string_rep s k sep = Rep_buffer b sz n"
  shows "length b \<le> sz \<and> n \<le> length b \<and> take n b = rep_text s k (sep_text sep)"
proof -
  let ?x = "sep_text sep"
  let ?t = "(int (length s) + int (length ?x)) * k"
  have k: "0 < k" "?t \<noteq> 0" using assms by (auto simp: string_rep_def sep_text_def Let_def split: if_splits option.splits)
  have len: "int (length (rep_text s k ?x)) = ?t - int (length ?x)" by (rule rep_text_length [OF k(1)])
  have tl: "0 < ?t" using k by (simp add: zero_less_mult_iff)
  show ?thesis
  proof (cases "sep \<noteq> None \<and> k > 1")
    case True
    then obtain x where x: "sep = Some x" "?x = x" by (auto simp: sep_text_def)
    have ne: "0 < length x + length s" using k(2) x by (cases x; cases s) simp_all
    define m where "m = nat (k - 2)"
    have "1 < k" using True by simp
    then have m: "nat (k - 1 - 1) = m" "nat k - 1 = Suc m" unfolding m_def by arith+
    have "b = rep_loop None (length x + length s) m (s @ x)" "sz = nat ?t" "n = nat (?t - int (length x))"
      using assms True x m k by (auto simp: string_rep_def Let_def split: if_splits)
    moreover have "rep_loop None (length x + length s) m (s @ x) = rep_text s k x @ x"
      using rep_loop_None [OF ne, of "s @ x" m] rep_text_shift [of "Suc m" s x] m(2) by (simp add: rep_text_def)
    moreover have "nat (?t - int (length x)) = length (rep_text s k x)" "nat ?t = length (rep_text s k x) + length x"
      using len x by simp_all
    ultimately show ?thesis using x by simp
  next
    case False
    have b: "b = rep_loop (Some s) (length s) (nat (k - 1)) []" "sz = nat ?t" "n = nat (?t - int (length ?x))"
      using assms False k by (auto simp: string_rep_def sep_text_def Let_def split: if_splits option.splits)
    have n: "n = length (rep_text s k ?x)" "sz = length (rep_text s k ?x) + length ?x" using b len by simp_all
    show ?thesis
    proof (cases "s = []")
      case True
      then have "sep \<noteq> None" "k = 1" using False k by (auto simp: sep_text_def split: option.splits)
      with True b n k show ?thesis by (simp add: rep_text_def rep_copy.simps Let_def Suc_le_eq)
    next
      case ne: False
      have "b = concat (replicate (Suc (nat (k - 1))) s)" using rep_loop_Some [OF ne] b(1) by simp
      moreover have "rep_text s k ?x = concat (replicate (Suc (nat (k - 1))) s)"
      proof -
        have "rep_text s k ?x = s @ concat (replicate (nat (k - 1)) (?x @ s))"
          using k(1) by (simp add: rep_text_def nat_diff_distrib)
        moreover have "?x = [] \<or> nat (k - 1) = 0" using False k(1) by (auto simp: sep_text_def)
        ultimately show ?thesis by auto
      qed
      ultimately show ?thesis using n by simp
    qed
  qed
qed

text \<open>
  C34: \<open>string.rep\<close> fails exactly if \<open>k\<close> copies, each with a separator behind it, are longer than a string may be,
  although the last separator is no part of the result. Otherwise the result is \<open>k\<close> copies with the
  separator in between, and the copying, which reads from the buffer it writes to, never writes behind the
  end of the buffer, whose size is a 32-bit number.
\<close>

theorem string_rep_text:
  "case string_rep s k sep of
     Rep_overflow \<Rightarrow> 0 < k \<and> (int (length s) + int (length (sep_text sep))) * k > LJ_MAX_STRLEN
   | Rep_empty \<Rightarrow> k \<le> 0 \<or> rep_text s k (sep_text sep) = []
   | Rep_buffer b sz n \<Rightarrow> 0 < k \<and> (int (length s) + int (length (sep_text sep))) * k \<le> LJ_MAX_STRLEN \<and>
       length b \<le> sz \<and> n \<le> length b \<and> take n b = rep_text s k (sep_text sep)"
proof (cases "string_rep s k sep")
  case Rep_overflow
  let ?t = "int (length s) + int (length (sep_text sep))"
  have k: "0 < k" and t: "?t > LJ_MAX_STRLEN \<or> ?t * k > LJ_MAX_STRLEN"
    using Rep_overflow by (auto simp: string_rep_def sep_text_def Let_def split: if_splits option.splits prod.splits)
  have "?t \<le> ?t * k" using k mult_left_mono [of 1 k ?t] by simp
  with t have "?t * k > LJ_MAX_STRLEN" by linarith
  with k Rep_overflow show ?thesis by simp
next
  case Rep_empty
  then have "k \<le> 0 \<or> (int (length s) + int (length (sep_text sep))) * k = 0"
    by (auto simp: string_rep_def sep_text_def Let_def split: if_splits option.splits prod.splits)
  then have "k \<le> 0 \<or> int (length s) + int (length (sep_text sep)) = 0" by auto
  then have "k \<le> 0 \<or> s = [] \<and> sep_text sep = []" by (metis length_0_conv of_nat_0_eq_iff of_nat_0_le_iff add_nonneg_eq_0_iff)
  then show ?thesis using Rep_empty by (auto simp: rep_text_def)
next
  case (Rep_buffer b sz n)
  then have "0 < k" "(int (length s) + int (length (sep_text sep))) * k \<le> LJ_MAX_STRLEN"
    by (auto simp: string_rep_def sep_text_def Let_def split: if_splits option.splits prod.splits)
  with Rep_buffer string_rep_buffer [OF Rep_buffer] show ?thesis by simp
qed

end
