(* ===== verification/Lj_Tablib.thy ===== *)
theory Lj_Tablib
  imports Lj_Tab_Walk Lj_Str
begin

text \<open>
  \<open>lib_table.c\<close>: the table library, on one table and the state of the script that calls it. The
  arguments are those that the checks of \<open>lj_lib.c\<close> let through. Functions of the script (order
  functions, callbacks, metamethods) are fields of the record \<open>script\<close>; they may change the table, raise an
  error, or not return. A result is \<open>None\<close> if the operation does not end; an error comes with the state
  it leaves. \<open>TL_undefined\<close> stands for undefined behaviour: an addition that overflows, or a pointer that
  is read after a rehash has freed what it points to.
\<close>

subsection \<open>The state\<close>

datatype tablib_error =
    TL_tab tab_error | ERR_TABINS | ERR_TABCAT TValue int | ERR_TABSORT | ERR_BADCMP TValue TValue
  | ERR_BADTYPE | TL_script TValue | TL_undefined

type_synonym 's lstate = "GCtab \<times> 's"
type_synonym ('s, 'a) tm = "'s lstate \<Rightarrow> ((tablib_error + 'a) \<times> 's lstate) option"

definition sret :: "'a \<Rightarrow> ('s, 'a) tm" where "sret x s = Some (Inr x, s)"
definition serr :: "tablib_error \<Rightarrow> ('s, 'a) tm" where "serr e s = Some (Inl e, s)"

definition sbind :: "('s, 'a) tm \<Rightarrow> ('a \<Rightarrow> ('s, 'b) tm) \<Rightarrow> ('s, 'b) tm" where
  "sbind m f s = (case m s of None \<Rightarrow> None | Some (Inl e, s') \<Rightarrow> Some (Inl e, s') | Some (Inr x, s') \<Rightarrow> f x s')"

lemma sbind_cong [fundef_cong]:
  assumes "m s = m' s'" "\<And>x s1. m' s' = Some (Inr x, s1) \<Longrightarrow> f x s1 = f' x s1"
  shows "sbind m f s = sbind m' f' s'"
  using assms by (auto simp: sbind_def split: option.splits sum.splits)

lemma sbind_simps [simp]:
  "sbind (sret x) f s = f x s" "sbind (serr e) f s = Some (Inl e, s)"
  by (simp_all add: sbind_def sret_def serr_def)

lemma sbind_eqs:
  "m s = Some (Inr x, s') \<Longrightarrow> sbind m f s = f x s'" "m s = Some (Inl e, s') \<Longrightarrow> sbind m f s = Some (Inl e, s')"
  "m s = None \<Longrightarrow> sbind m f s = None"
  by (simp_all add: sbind_def)

lemma sbind_Inr: "sbind m f s = Some (Inr y, s') \<longleftrightarrow> (\<exists>x s1. m s = Some (Inr x, s1) \<and> f x s1 = Some (Inr y, s'))"
  by (auto simp: sbind_def split: option.splits sum.splits)

text \<open>The functions of a script, metamethods for comparison (\<open>T_nil\<close> if an object has none), and the memory behind a string.\<close>

record 's script =
  sc_call :: "TValue \<Rightarrow> TValue list \<Rightarrow> ('s, TValue) tm"
  sc_mm_lt :: "'s \<Rightarrow> TValue \<Rightarrow> TValue"
  sc_behind :: "string \<Rightarrow> string"

definition tvistruecond :: "TValue \<Rightarrow> bool" where
  "tvistruecond v \<longleftrightarrow> v \<noteq> T_nil \<and> v \<noteq> T_bool False"

abbreviation LJ_TFUNC :: nat where "LJ_TFUNC \<equiv> 8"
abbreviation LJ_TCDATA :: nat where "LJ_TCDATA \<equiv> 10"

fun tvisfunc :: "TValue \<Rightarrow> bool" where
  "tvisfunc (T_gc it _) = (it = LJ_TFUNC)"
| "tvisfunc _ = False"

fun tviscdata :: "TValue \<Rightarrow> bool" where
  "tviscdata (T_gc it _) = (it = LJ_TCDATA)"
| "tviscdata _ = False"

subsection \<open>Raw access\<close>

text \<open>What a pointer that may be \<open>NULL\<close> points to; a rehash inside a rehash does not happen, so depth two is enough.\<close>

definition load_or_nil :: "GCtab \<Rightarrow> slot option \<Rightarrow> TValue" where
  "load_or_nil t r = (case r of Some x \<Rightarrow> load t x | None \<Rightarrow> T_nil)"

abbreviation setint :: "GCtab \<Rightarrow> int \<Rightarrow> (slot \<times> GCtab) tres" where
  "setint \<equiv> lj_tab_setint (lj_tab_newkey 2)"

definition lua_rawgeti :: "int \<Rightarrow> ('s, TValue) tm" where
  "lua_rawgeti n = (\<lambda>(t, s). map_option (\<lambda>r. (Inr (load_or_nil t r), (t, s))) (lj_tab_getint t n))"

definition lua_rawseti :: "int \<Rightarrow> TValue \<Rightarrow> ('s, unit) tm" where
  "lua_rawseti n v = (\<lambda>(t, s).
     case setint t n of
       None \<Rightarrow> None
     | Some (Inl e) \<Rightarrow> Some (Inl (TL_tab e), (t, s))
     | Some (Inr (dst, t')) \<Rightarrow> Some (Inr (), (store dst v t', s)))"

definition tab_len :: "('s, int) tm" where
  "tab_len = (\<lambda>(t, s). map_option (\<lambda>n. (Inr (int n), (t, s))) (lj_tab_len t))"

subsection \<open>Callbacks\<close>

function foreachi_loop :: "'s script \<Rightarrow> TValue \<Rightarrow> int \<Rightarrow> int \<Rightarrow> ('s, TValue list) tm" where
  "foreachi_loop sc func i n =
     (if i \<le> n then
        sbind (lua_rawgeti i) (\<lambda>val.
        sbind (sc_call sc func [T_num (num_of_int i), val]) (\<lambda>r.
        if r \<noteq> T_nil then sret [r] else foreachi_loop sc func (i + 1) n))
      else sret [])"
  by auto
termination by (relation "measure (\<lambda>(sc, func, i, n). nat (n + 1 - i))") auto

declare foreachi_loop.simps [simp del]

definition table_foreachi :: "'s script \<Rightarrow> TValue \<Rightarrow> ('s, TValue list) tm" where
  "table_foreachi sc func = sbind tab_len (\<lambda>n. foreachi_loop sc func 1 n)"

partial_function (option) foreach_loop :: "'s script \<Rightarrow> TValue \<Rightarrow> TValue \<Rightarrow> ('s, TValue list) tm" where
  "foreach_loop sc func key st =
     (case lj_tab_next (fst st) key of
        None \<Rightarrow> None
      | Some (Inl e) \<Rightarrow> Some (Inl (TL_tab e), st)
      | Some (Inr None) \<Rightarrow> Some (Inr [], st)
      | Some (Inr (Some (k, v))) \<Rightarrow>
          (case sc_call sc func [k, v] st of
             None \<Rightarrow> None
           | Some (Inl e, st') \<Rightarrow> Some (Inl e, st')
           | Some (Inr r, st') \<Rightarrow> if r \<noteq> T_nil then Some (Inr [r], st') else foreach_loop sc func k st'))"

declare foreach_loop.simps [code]

definition table_foreach :: "'s script \<Rightarrow> TValue \<Rightarrow> ('s, TValue list) tm" where
  "table_foreach sc func = foreach_loop sc func T_nil"

subsection \<open>The largest numeric key\<close>

text \<open>\<open><\<close> on doubles: the bits of a magnitude are ordered like the magnitudes.\<close>

definition num_rank :: "64 word \<Rightarrow> int" where
  "num_rank w = (if w < MZERO then uint w else - uint (w AND 0x7fffffffffffffff))"

definition num_lt :: "64 word \<Rightarrow> 64 word \<Rightarrow> bool" where
  "num_lt x y \<longleftrightarrow> \<not> tvisnan x \<and> \<not> tvisnan y \<and> num_rank x < num_rank y"

definition maxn_node :: "node \<Rightarrow> 64 word \<Rightarrow> 64 word" where
  "maxn_node n m =
     (case n_key n of
        T_num w \<Rightarrow> if n_val n \<noteq> T_nil \<and> num_lt m w then w else m
      | _ \<Rightarrow> m)"

definition table_maxn :: "GCtab \<Rightarrow> 64 word" where
  "table_maxn t =
     fold maxn_node (rev (t_node t))
       (case find (\<lambda>i. t_array t ! i \<noteq> T_nil) (rev [0..<asize t]) of
          Some i \<Rightarrow> num_of_int (int i)
        | None \<Rightarrow> 0)"

subsection \<open>Inserting and removing\<close>

text \<open>The slot is made first, then the source is read from the table as it is then.\<close>

definition insert_copy :: "int \<Rightarrow> int \<Rightarrow> ('s, unit) tm" where
  "insert_copy i src = (\<lambda>(t, s).
     case setint t i of
       None \<Rightarrow> None
     | Some (Inl e) \<Rightarrow> Some (Inl (TL_tab e), (t, s))
     | Some (Inr (dst, t')) \<Rightarrow>
         (case lj_tab_getint t' src of
            None \<Rightarrow> None
          | Some r \<Rightarrow> Some (Inr (), (store dst (load_or_nil t' r) t', s))))"

function insert_shift :: "int \<Rightarrow> int \<Rightarrow> ('s, unit) tm" where
  "insert_shift n i = (if i > n then sbind (insert_copy i (i - 1)) (\<lambda>_. insert_shift n (i - 1)) else sret ())"
  by auto
termination by (relation "measure (\<lambda>(n, i). nat (i - n))") auto

declare insert_shift.simps [simp del]

text \<open>The arguments after the table.\<close>

datatype insert_args = Append TValue | Insert_at int TValue | Wrong_number

definition table_insert :: "insert_args \<Rightarrow> ('s, unit) tm" where
  "table_insert args = sbind tab_len (\<lambda>len.
     case args of
       Append v \<Rightarrow> lua_rawseti (len + 1) v
     | Insert_at n v \<Rightarrow> sbind (insert_shift n (len + 1)) (\<lambda>_. lua_rawseti n v)
     | Wrong_number \<Rightarrow> serr ERR_TABINS)"

text \<open>
  In \<open>table_remove\<close> the source is a pointer into the table from before the slot is made. Making the slot
  frees the nodes if the key is new, its main node is taken and no node is free.
\<close>

definition frees_nodes :: "GCtab \<Rightarrow> int \<Rightarrow> bool" where
  "frees_nodes t i \<longleftrightarrow>
     \<not> inarray t i \<and> lj_tab_getinth t i = Some None \<and>
     (n_val (t_node t ! hashkey t (T_num (num_of_int i))) \<noteq> T_nil \<or> hmask t = 0) \<and> find_free (t_node t) (t_freetop t) = None"

definition remove_copy :: "int \<Rightarrow> int \<Rightarrow> ('s, unit) tm" where
  "remove_copy pos src = (\<lambda>(t, s).
     case lj_tab_getint t src of
       None \<Rightarrow> None
     | Some r \<Rightarrow>
         (case setint t pos of
            None \<Rightarrow> None
          | Some (Inl e) \<Rightarrow> Some (Inl (TL_tab e), (t, s))
          | Some (Inr (dst, t')) \<Rightarrow>
              if r \<noteq> None \<and> frees_nodes t pos then Some (Inl TL_undefined, (t', s))
              else Some (Inr (), (store dst (load_or_nil t' r) t', s))))"

function remove_shift :: "int \<Rightarrow> int \<Rightarrow> ('s, unit) tm" where
  "remove_shift pos e = (if pos < e then sbind (remove_copy pos (pos + 1)) (\<lambda>_. remove_shift (pos + 1) e) else sret ())"
  by auto
termination by (relation "measure (\<lambda>(pos, e). nat (e - pos))") auto

declare remove_shift.simps [simp del]

text \<open>The position is an option, as the argument is; the result is what the function returns to the script.\<close>

definition table_remove :: "int option \<Rightarrow> ('s, TValue list) tm" where
  "table_remove arg = sbind tab_len (\<lambda>e.
     let pos = (case arg of Some p \<Rightarrow> p | None \<Rightarrow> e) in
     if \<not> (1 \<le> pos \<and> pos \<le> e) then sret []
     else
       sbind (lua_rawgeti pos) (\<lambda>v.
       sbind (remove_shift pos e) (\<lambda>_.
       sbind (lua_rawseti e T_nil) (\<lambda>_. sret [v]))))"

subsection \<open>Concatenation\<close>

text \<open>\<open>numfmt\<close> prints a double. The first argument of the loop is the separator.\<close>

fun value_text :: "(64 word \<Rightarrow> string) \<Rightarrow> TValue \<Rightarrow> string option" where
  "value_text numfmt (T_str s) = Some s"
| "value_text numfmt (T_num w) = Some (lj_str_bufnum numfmt w)"
| "value_text numfmt _ = None"

function concat_loop :: "(64 word \<Rightarrow> string) \<Rightarrow> string \<Rightarrow> int \<Rightarrow> int \<Rightarrow> string \<Rightarrow> ('s, string) tm" where
  "concat_loop numfmt sep i e b =
     sbind (lua_rawgeti i) (\<lambda>v.
     case value_text numfmt v of
       None \<Rightarrow> serr (ERR_TABCAT v i)
     | Some x \<Rightarrow> if i \<ge> e then sret (b @ x) else concat_loop numfmt sep (i + 1) e (b @ x @ sep))"
  by auto
termination by (relation "measure (\<lambda>(numfmt, sep, i, e, b). nat (e - i))") auto

declare concat_loop.simps [simp del]

definition table_concat :: "(64 word \<Rightarrow> string) \<Rightarrow> string option \<Rightarrow> int option \<Rightarrow> int option \<Rightarrow> ('s, string) tm" where
  "table_concat numfmt sep start stop =
     (let i = (case start of Some i \<Rightarrow> i | None \<Rightarrow> 1) in
      sbind (case stop of Some e \<Rightarrow> sret e | None \<Rightarrow> tab_len) (\<lambda>e.
      if i \<le> e then concat_loop numfmt (case sep of Some x \<Rightarrow> x | None \<Rightarrow> []) i e [] else sret []))"

subsection \<open>Comparison\<close>

fun same_itype :: "TValue \<Rightarrow> TValue \<Rightarrow> bool" where
  "same_itype T_nil T_nil = True"
| "same_itype (T_bool a) (T_bool b) = (a = b)"
| "same_itype (T_lightud _) (T_lightud _) = True"
| "same_itype (T_str _) (T_str _) = True"
| "same_itype (T_gc i _) (T_gc j _) = (i = j)"
| "same_itype _ _ = False"

fun tvisbool :: "TValue \<Rightarrow> bool" where
  "tvisbool (T_bool _) = True"
| "tvisbool _ = False"

text \<open>\<open>lj_meta_comp\<close> for the operator less-than, with the call it prepares.\<close>

definition call_mm :: "'s script \<Rightarrow> TValue \<Rightarrow> TValue \<Rightarrow> TValue \<Rightarrow> ('s, bool) tm" where
  "call_mm sc mo o1 o2 = sbind (sc_call sc mo [o1, o2]) (\<lambda>r. sret (tvistruecond r))"

definition lj_meta_comp :: "'s script \<Rightarrow> TValue \<Rightarrow> TValue \<Rightarrow> ('s, bool) tm" where
  "lj_meta_comp sc o1 o2 = (\<lambda>(t, s).
     if tviscdata o1 \<or> tviscdata o2 then
       let mo = sc_mm_lt sc s (if tviscdata o1 then o1 else o2)
       in if mo = T_nil then serr (ERR_BADCMP o1 o2) (t, s) else call_mm sc mo o1 o2 (t, s)
     else if same_itype o1 o2 \<or> tvisbool o1 \<and> tvisbool o2 then
       (case (o1, o2) of
          (T_str a, T_str b) \<Rightarrow> sret (sint (lj_str_cmp (a, sc_behind sc a) (b, sc_behind sc b)) < 0) (t, s)
        | _ \<Rightarrow>
            let mo = sc_mm_lt sc s o1; mo2 = sc_mm_lt sc s o2
            in if mo = T_nil \<or> \<not> lj_obj_equal mo mo2 then serr (ERR_BADCMP o1 o2) (t, s) else call_mm sc mo o1 o2 (t, s))
     else serr (ERR_BADCMP o1 o2) (t, s))"

definition lua_lessthan :: "'s script \<Rightarrow> TValue \<Rightarrow> TValue \<Rightarrow> ('s, bool) tm" where
  "lua_lessthan sc o1 o2 =
     (case (o1, o2) of (T_num x, T_num y) \<Rightarrow> sret (num_lt x y) | _ \<Rightarrow> lj_meta_comp sc o1 o2)"

subsection \<open>Sorting\<close>

type_synonym 's order = "TValue \<Rightarrow> TValue \<Rightarrow> ('s, bool) tm"

definition sort_comp :: "'s script \<Rightarrow> TValue \<Rightarrow> 's order" where
  "sort_comp sc f a b =
     (if f \<noteq> T_nil then sbind (sc_call sc f [a, b]) (\<lambda>res. sret (tvistruecond res))
      else lua_lessthan sc a b)"

text \<open>\<open>x\<close> is the value on top of the stack, \<open>y\<close> the one below it.\<close>

definition set2 :: "int \<Rightarrow> int \<Rightarrow> TValue \<Rightarrow> TValue \<Rightarrow> ('s, unit) tm" where
  "set2 i j x y = sbind (lua_rawseti i x) (\<lambda>_. lua_rawseti j y)"

definition sort_ends :: "'s order \<Rightarrow> int \<Rightarrow> int \<Rightarrow> ('s, unit) tm" where
  "sort_ends lt l u =
     sbind (lua_rawgeti l) (\<lambda>al.
     sbind (lua_rawgeti u) (\<lambda>au.
     sbind (lt au al) (\<lambda>b. if b then set2 l u au al else sret ())))"

definition sort_middle :: "'s order \<Rightarrow> int \<Rightarrow> int \<Rightarrow> int \<Rightarrow> ('s, unit) tm" where
  "sort_middle lt l u i =
     sbind (lua_rawgeti i) (\<lambda>ai.
     sbind (lua_rawgeti l) (\<lambda>al.
     sbind (lt ai al) (\<lambda>b.
       if b then set2 i l al ai
       else
         sbind (lua_rawgeti u) (\<lambda>au.
         sbind (lt au ai) (\<lambda>b. if b then set2 i u au ai else sret ())))))"

text \<open>The scans for an element not smaller and one not larger than the pivot: the index and the element found.\<close>

function scan_up :: "'s order \<Rightarrow> TValue \<Rightarrow> int \<Rightarrow> int \<Rightarrow> ('s, int \<times> TValue) tm" where
  "scan_up lt P u i =
     sbind (lua_rawgeti (i + 1)) (\<lambda>v.
     sbind (lt v P) (\<lambda>b.
       if b then if i + 1 \<ge> u then serr ERR_TABSORT else scan_up lt P u (i + 1)
       else sret (i + 1, v)))"
  by auto
termination by (relation "measure (\<lambda>(lt, P, u, i). nat (u - i))") auto

function scan_down :: "'s order \<Rightarrow> TValue \<Rightarrow> int \<Rightarrow> int \<Rightarrow> ('s, int \<times> TValue) tm" where
  "scan_down lt P l j =
     sbind (lua_rawgeti (j - 1)) (\<lambda>v.
     sbind (lt P v) (\<lambda>b.
       if b then if j - 1 \<le> l then serr ERR_TABSORT else scan_down lt P l (j - 1)
       else sret (j - 1, v)))"
  by auto
termination by (relation "measure (\<lambda>(lt, P, l, j). nat (j - l))") auto

declare scan_up.simps [simp del] scan_down.simps [simp del]

lemma scan_up_moves: "scan_up lt P u i s = Some (Inr (i', v), s') \<Longrightarrow> i < i' \<and> (i < u \<longrightarrow> i' \<le> u)"
proof (induction lt P u i arbitrary: s rule: scan_up.induct)
  case (1 lt P u i)
  from 1(2) obtain w b s1 where
    r: "(if b then if i + 1 \<ge> u then serr ERR_TABSORT else scan_up lt P u (i + 1) else sret (i + 1, w)) s1 = Some (Inr (i', v), s')"
    unfolding scan_up.simps [of lt P u i] sbind_Inr by (elim exE conjE) (rule that)
  show ?case
  proof (cases b)
    case True
    with r have "\<not> i + 1 \<ge> u" by (auto simp: serr_def)
    with 1(1) [OF True this, of s1] r True show ?thesis by simp
  qed (use r in \<open>auto simp: sret_def\<close>)
qed

lemma scan_down_moves: "scan_down lt P l j s = Some (Inr (j', v), s') \<Longrightarrow> j' < j \<and> (l < j \<longrightarrow> l \<le> j')"
proof (induction lt P l j arbitrary: s rule: scan_down.induct)
  case (1 lt P l j)
  from 1(2) obtain w b s1 where
    r: "(if b then if j - 1 \<le> l then serr ERR_TABSORT else scan_down lt P l (j - 1) else sret (j - 1, w)) s1 = Some (Inr (j', v), s')"
    unfolding scan_down.simps [of lt P l j] sbind_Inr by (elim exE conjE) (rule that)
  show ?case
  proof (cases b)
    case True
    with r have "\<not> j - 1 \<le> l" by (auto simp: serr_def)
    with 1(1) [OF True this, of s1] r True show ?thesis by simp
  qed (use r in \<open>auto simp: sret_def\<close>)
qed

text \<open>The partition, up to the index at which the scans have crossed.\<close>

function partition_loop :: "'s order \<Rightarrow> TValue \<Rightarrow> int \<Rightarrow> int \<Rightarrow> int \<Rightarrow> int \<Rightarrow> ('s, int) tm" where
  "partition_loop lt P l u i j s =
     sbind (scan_up lt P u i) (\<lambda>x s.
     sbind (scan_down lt P l j) (\<lambda>y s.
       if fst y < fst x then sret (fst x) s
       else sbind (set2 (fst x) (fst y) (snd y) (snd x)) (\<lambda>_ s. partition_loop lt P l u (fst x) (fst y) s) s) s) s"
  by auto
termination
  by (relation "measure (\<lambda>(lt, P, l, u, i, j, s). nat (j - i))") (auto dest!: scan_up_moves scan_down_moves)

declare partition_loop.simps [simp del]

text \<open>The pivot is put aside, the rest is partitioned, and the pivot goes to the index at which the scans have crossed.\<close>

definition sort_pivot :: "'s order \<Rightarrow> int \<Rightarrow> int \<Rightarrow> int \<Rightarrow> ('s, int) tm" where
  "sort_pivot lt l u m =
     sbind (lua_rawgeti m) (\<lambda>P.
     sbind (lua_rawgeti (u - 1)) (\<lambda>v.
     sbind (set2 m (u - 1) v P) (\<lambda>_.
     sbind (partition_loop lt P l u l (u - 1)) (\<lambda>i.
     sbind (lua_rawgeti (u - 1)) (\<lambda>v.
     sbind (lua_rawgeti i) (\<lambda>w.
     sbind (set2 (u - 1) i w v) (\<lambda>_. sret i)))))))"

text \<open>One round of the loop: the index between the parts that are left to sort; none if at most three elements were there.\<close>

definition sort_step :: "'s order \<Rightarrow> int \<Rightarrow> int \<Rightarrow> ('s, int option) tm" where
  "sort_step lt l u =
     sbind (sort_ends lt l u) (\<lambda>_.
     if u - l = 1 then sret None
     else if l + u \<ge> 2 ^ 31 then serr TL_undefined
     else
       let m = (l + u) div 2 in
       sbind (sort_middle lt l u m) (\<lambda>_.
       if u - l = 2 then sret None else sbind (sort_pivot lt l u m) (\<lambda>i. sret (Some i))))"

lemma partition_loop_moves:
  "partition_loop lt P l u i j s = Some (Inr r, s') \<Longrightarrow> i < r \<and> (l \<le> i \<longrightarrow> i < u \<longrightarrow> j \<le> u \<longrightarrow> r \<le> u)"
proof (induction lt P l u i j s arbitrary: s' rule: partition_loop.induct)
  case (1 lt P l u i j s)
  from 1(2) obtain x s1 y s2 where up: "scan_up lt P u i s = Some (Inr x, s1)"
    and down: "scan_down lt P l j s1 = Some (Inr y, s2)"
    and r: "(if fst y < fst x then sret (fst x) s2
      else sbind (set2 (fst x) (fst y) (snd y) (snd x)) (\<lambda>_ s. partition_loop lt P l u (fst x) (fst y) s) s2) = Some (Inr r, s')"
    unfolding partition_loop.simps [of lt P l u i j s] sbind_Inr by (elim exE conjE) (rule that)
  have m: "i < fst x \<and> (i < u \<longrightarrow> fst x \<le> u)" "fst y < j \<and> (l < j \<longrightarrow> l \<le> fst y)"
    using scan_up_moves [of lt P u i s "fst x" "snd x"] scan_down_moves [of lt P l j s1 "fst y" "snd y"] up down by simp_all
  show ?case
  proof (cases "fst y < fst x")
    case True
    with r m show ?thesis by (auto simp: sret_def)
  next
    case False
    with r obtain a s3 where s3: "set2 (fst x) (fst y) (snd y) (snd x) s2 = Some (Inr a, s3)"
      "partition_loop lt P l u (fst x) (fst y) s3 = Some (Inr r, s')"
      unfolding if_not_P [OF False] sbind_Inr by (elim exE conjE) (rule that)
    from 1(1) [OF up down False s3] m False show ?thesis by auto
  qed
qed

lemma sort_step_inside:
  assumes "sort_step lt l u s = Some (Inr (Some i), s')" "l < u"
  shows "l < i \<and> i \<le> u"
  using assms partition_loop_moves
  by (fastforce simp: sort_step_def sort_pivot_def sbind_Inr sret_def serr_def Let_def split: if_splits)

text \<open>The smaller part is sorted by the recursive call, the larger one by the loop.\<close>

function auxsort :: "'s order \<Rightarrow> int \<Rightarrow> int \<Rightarrow> ('s, unit) tm" where
  "auxsort lt l u s =
     (if l < u then
        sbind (sort_step lt l u) (\<lambda>r s.
          case r of
            None \<Rightarrow> sret () s
          | Some i \<Rightarrow>
              if i - l < u - i then sbind (auxsort lt l (i - 1)) (\<lambda>_. auxsort lt (i + 1) u) s
              else sbind (auxsort lt (i + 1) u) (\<lambda>_. auxsort lt l (i - 1)) s) s
      else sret () s)"
  by auto
termination
  by (relation "measure (\<lambda>(lt, l, u, s). nat (u - l))") (auto dest!: sort_step_inside)

declare auxsort.simps [simp del]

definition table_sort :: "'s script \<Rightarrow> TValue \<Rightarrow> ('s, unit) tm" where
  "table_sort sc f = sbind tab_len (\<lambda>n.
     if f \<noteq> T_nil \<and> \<not> tvisfunc f then serr ERR_BADTYPE
     else auxsort (sort_comp sc f) 1 n)"

end
