(* ===== verification/Lj_Tablib_Array.thy ===== *)
theory Lj_Tablib_Array
  imports Lj_Tablib
begin

text \<open>
  A table seen as an array: the values of the indices from one to some number, in a list, while every
  other key keeps its value. Raw access on the table is access to the list.
\<close>

subsection \<open>Integer keys\<close>

abbreviation ikey :: "int \<Rightarrow> TValue" where
  "ikey i \<equiv> T_num (num_of_int i)"

lemma ikey_eq: "int32 i \<Longrightarrow> int32 j \<Longrightarrow> ikey i = ikey j \<longleftrightarrow> i = j"
  using num_of_int_inj [of i j] by auto

lemma get_slot_ikey: "int32 i \<Longrightarrow> get_slot t (ikey i) = lj_tab_getint t i"
  by (simp add: get_slot_def num2int_num_of_int)

lemma getint_lookup:
  assumes "tab_ok t" "int32 i"
  obtains r where "lj_tab_getint t i = Some r" "load_or_nil t r = lookup t (ikey i)"
  using lj_tab_get_lookup [OF assms(1) num_of_int_good [OF assms(2)]]
  by (auto simp: lj_tab_get_def get_slot_ikey [OF assms(2)] load_or_nil_def)

lemma setint_found_or:
  assumes "int32 i"
  shows "setint t i = found_or (lj_tab_newkey 2) t (ikey i) (get_slot t (ikey i))"
  unfolding get_slot_ikey [OF assms] by (simp add: lj_tab_setint_def lj_tab_setinth_def lj_tab_getint_def found_or_def)

lemma setint_given:
  assumes "tab_ok t" "int32 i" "length (entries t) < 2 ^ LJ_MAX_HBITS"
  shows "slot_given t (ikey i) (setint t i)"
  using assms(1) num_of_int_good [OF assms(2)]
proof (cases rule: found_or_cases [where nk = "lj_tab_newkey 2"])
  case (found sl)
  then show ?thesis unfolding setint_found_or [OF assms(2)] by (simp add: key_added_slot_given)
next
  case new
  have "lj_tab_newkey (Suc (Suc 0)) = lj_tab_newkey 2" by (simp only: numeral_2_eq_2)
  with newkey_ok [OF assms(1) num_of_int_good [OF assms(2)] new(1,2), of 0] assms(3) show ?thesis
    unfolding setint_found_or [OF assms(2)] new(3) by simp
qed

text \<open>The slot that the setter returns, and what storing through it does.\<close>

lemma setint_stores:
  assumes "tab_ok t" "int32 i" "length (entries t) < 2 ^ LJ_MAX_HBITS"
  obtains sl t' where "setint t i = tret (sl, t')" "tab_ok t'" "\<And>k. good_key k \<Longrightarrow> lookup t' k = lookup t k"
    "\<And>v. tab_ok (store sl v t')" "\<And>v k. good_key k \<Longrightarrow> lookup (store sl v t') k = (if k = ikey i then v else lookup t k)"
proof -
  from setint_given [OF assms] obtain sl t' where r: "setint t i = tret (sl, t')" "tab_ok t'" "slot_of t' (ikey i) sl"
    "\<And>k. good_key k \<Longrightarrow> lookup t' k = lookup t k" by (auto simp: slot_given_def)
  note st = store_ok [OF r(2) num_of_int_good [OF assms(2)] r(3)]
  show thesis by (rule that [OF r(1,2,4) st(1)]) (simp_all add: st(2) r(4))
qed

text \<open>The slot of an index that has a value is there already, and nothing moves.\<close>

lemma setint_present:
  assumes "tab_ok t" "int32 i" "lookup t (ikey i) \<noteq> T_nil"
  obtains sl where "setint t i = tret (sl, t)" "\<not> frees_nodes t i"
    "\<And>v. tab_ok (store sl v t)" "\<And>v k. good_key k \<Longrightarrow> lookup (store sl v t) k = (if k = ikey i then v else lookup t k)"
proof -
  note g = num_of_int_good [OF assms(2)]
  from getint_lookup [OF assms(1,2)] obtain r where r: "lj_tab_getint t i = Some r" "load_or_nil t r = lookup t (ikey i)" .
  with assms(3) obtain sl0 where sl0: "r = Some sl0" by (cases r) (auto simp: load_or_nil_def)
  from assms(1) g show thesis
  proof (cases rule: found_or_cases [where nk = "lj_tab_newkey 2"])
    case (found sl)
    then have sl: "setint t i = tret (sl, t)" "slot_of t (ikey i) sl"
      by (simp_all add: setint_found_or [OF assms(2)] key_added_def)
    have "\<not> frees_nodes t i" using r(1) sl0 by (auto simp: frees_nodes_def lj_tab_getint_def split: if_splits)
    with sl(1) show thesis using store_ok [OF assms(1) g sl(2)] by (intro that)
  next
    case new
    then have "lookup t (ikey i) = T_nil" by (simp add: lookup_def val_of_none)
    with assms(3) show thesis by simp
  qed
qed

subsection \<open>A segment of indices as a list\<close>

definition ikeys :: "nat \<Rightarrow> TValue set" where
  "ikeys m = (\<lambda>i. ikey (int i)) ` {1..m}"

definition others :: "nat \<Rightarrow> GCtab \<Rightarrow> TValue set" where
  "others m t = {k. good_key k \<and> k \<notin> ikeys m \<and> lookup t k \<noteq> T_nil}"

definition elt :: "TValue list \<Rightarrow> int \<Rightarrow> TValue" where
  "elt xs i = xs ! nat (i - 1)"

definition upd :: "TValue list \<Rightarrow> int \<Rightarrow> TValue \<Rightarrow> TValue list" where
  "upd xs i v = xs[nat (i - 1) := v]"

lemma length_upd [simp]: "length (upd xs i v) = length xs"
  by (simp add: upd_def)

lemma elt_upd: "1 \<le> i \<Longrightarrow> i \<le> int (length xs) \<Longrightarrow> 1 \<le> j \<Longrightarrow> elt (upd xs i v) j = (if j = i then v else elt xs j)"
  by (auto simp: elt_def upd_def nth_list_update)

text \<open>The table \<open>t\<close> holds \<open>xs\<close> at its first \<open>m\<close> indices, elsewhere what \<open>t0\<close> holds, and has room for all of them.\<close>

definition arr :: "nat \<Rightarrow> GCtab \<Rightarrow> GCtab \<Rightarrow> TValue list \<Rightarrow> bool" where
  "arr m t0 t xs \<longleftrightarrow> tab_ok t \<and> length xs = m \<and> card (others m t0) + m < 2 ^ LJ_MAX_HBITS \<and>
     (\<forall>i. 1 \<le> i \<longrightarrow> i \<le> int m \<longrightarrow> lookup t (ikey i) = elt xs i) \<and>
     (\<forall>k. good_key k \<longrightarrow> k \<notin> ikeys m \<longrightarrow> lookup t k = lookup t0 k)"

lemma arrD:
  assumes "arr m t0 t xs"
  shows "tab_ok t" "length xs = m" "m < 2 ^ LJ_MAX_HBITS" "1 \<le> i \<Longrightarrow> i \<le> int m \<Longrightarrow> lookup t (ikey i) = elt xs i"
    "good_key k \<Longrightarrow> k \<notin> ikeys m \<Longrightarrow> lookup t k = lookup t0 k"
  using assms by (auto simp: arr_def)

lemma arr_int32: "arr m t0 t xs \<Longrightarrow> 1 \<le> i \<Longrightarrow> i \<le> int m \<Longrightarrow> int32 i"
  using arrD(3) [of m t0 t xs] by simp

lemma arr_room:
  assumes "arr m t0 t xs"
  shows "length (entries t) < 2 ^ LJ_MAX_HBITS"
proof -
  note ok = arrD(1) [OF assms]
  have o: "others m t0 = others m t" using arrD(5) [OF assms] by (auto simp: others_def)
  have sub: "{k. good_key k \<and> lookup t k \<noteq> T_nil} \<subseteq> others m t \<union> ikeys m" by (auto simp: others_def)
  have fin: "finite (others m t)" by (rule finite_subset [OF _ entries_card(2) [OF ok]]) (auto simp: others_def)
  have "length (entries t) \<le> card (others m t \<union> ikeys m)"
    unfolding entries_card(1) [OF ok] by (rule card_mono [OF _ sub]) (simp add: fin ikeys_def)
  also have "\<dots> \<le> card (others m t) + card (ikeys m)" by (rule card_Un_le)
  also have "card (ikeys m) \<le> m" using card_image_le [of "{1..m}" "\<lambda>i. ikey (int i)"] by (simp add: ikeys_def)
  finally show ?thesis using assms unfolding o [symmetric] by (simp add: arr_def)
qed

lemma ikey_in_ikeys: "1 \<le> i \<Longrightarrow> i \<le> int m \<Longrightarrow> ikey i \<in> ikeys m"
  unfolding ikeys_def by (rule image_eqI [where x = "nat i"]) auto

text \<open>A table in which one index of the segment got a new value.\<close>

lemma arr_updated:
  assumes "arr m t0 t xs" "1 \<le> i" "i \<le> int m" "tab_ok t'"
    "\<And>k. good_key k \<Longrightarrow> lookup t' k = (if k = ikey i then v else lookup t k)"
  shows "arr m t0 t' (upd xs i v)"
proof -
  note i32 = arr_int32 [OF assms(1)] and len = arrD(2) [OF assms(1)]
  have "lookup t' (ikey j) = elt (upd xs i v) j" if "1 \<le> j" "j \<le> int m" for j
    using assms(5) [OF num_of_int_good [OF i32 [OF that]]] ikey_eq [OF i32 [OF that] i32 [OF assms(2,3)]] elt_upd [of i xs j v]
      arrD(4) [OF assms(1) that] assms(2,3) that len by simp
  moreover have "lookup t' k = lookup t0 k" if "good_key k" "k \<notin> ikeys m" for k
    using assms(5) [OF that(1)] ikey_in_ikeys [OF assms(2,3)] arrD(5) [OF assms(1) that] that(2) by auto
  ultimately show ?thesis using assms(1,4) by (simp add: arr_def)
qed

lemma arr_get:
  assumes "arr m t0 t xs" "1 \<le> i" "i \<le> int m"
  shows "lua_rawgeti i (t, s) = Some (Inr (elt xs i), (t, s))"
proof -
  from getint_lookup [OF arrD(1) [OF assms(1)] arr_int32 [OF assms]] obtain r where
    "lj_tab_getint t i = Some r" "load_or_nil t r = lookup t (ikey i)" .
  with arrD(4) [OF assms] show ?thesis by (simp add: lua_rawgeti_def)
qed

lemma arr_set:
  assumes "arr m t0 t xs" "1 \<le> i" "i \<le> int m"
  obtains t' where "lua_rawseti i v (t, s) = Some (Inr (), (t', s))" "arr m t0 t' (upd xs i v)"
proof -
  from setint_stores [OF arrD(1) [OF assms(1)] arr_int32 [OF assms] arr_room [OF assms(1)]] obtain sl t1 where
    t1: "setint t i = tret (sl, t1)" "\<And>v. tab_ok (store sl v t1)"
      "\<And>v k. good_key k \<Longrightarrow> lookup (store sl v t1) k = (if k = ikey i then v else lookup t k)" by metis
  show thesis
    by (rule that [of "store sl v t1"]) (use t1 arr_updated [OF assms, of "store sl v t1" v] in \<open>simp_all add: lua_rawseti_def\<close>)
qed

lemma arr_insert_copy:
  assumes "arr m t0 t xs" "1 \<le> i" "i \<le> int m" "1 \<le> j" "j \<le> int m"
  obtains t' where "insert_copy i j (t, s) = Some (Inr (), (t', s))" "arr m t0 t' (upd xs i (elt xs j))"
proof -
  note j32 = arr_int32 [OF assms(1,4,5)]
  from setint_stores [OF arrD(1) [OF assms(1)] arr_int32 [OF assms(1-3)] arr_room [OF assms(1)]] obtain sl t1 where
    t1: "setint t i = tret (sl, t1)" "tab_ok t1" "\<And>k. good_key k \<Longrightarrow> lookup t1 k = lookup t k" "\<And>v. tab_ok (store sl v t1)"
      "\<And>v k. good_key k \<Longrightarrow> lookup (store sl v t1) k = (if k = ikey i then v else lookup t k)" by metis
  from getint_lookup [OF t1(2) j32] obtain r where r: "lj_tab_getint t1 j = Some r" "load_or_nil t1 r = lookup t1 (ikey j)" .
  then have "load_or_nil t1 r = elt xs j" using t1(3) [OF num_of_int_good [OF j32]] arrD(4) [OF assms(1,4,5)] by simp
  then show thesis
    using t1(1,4,5) r(1) arr_updated [OF assms(1-3), of "store sl (elt xs j) t1" "elt xs j"]
    by (intro that [of "store sl (elt xs j) t1"]) (simp_all add: insert_copy_def)
qed

lemma arr_remove_copy:
  assumes "arr m t0 t xs" "1 \<le> i" "i \<le> int m" "1 \<le> j" "j \<le> int m" "elt xs i \<noteq> T_nil"
  obtains t' where "remove_copy i j (t, s) = Some (Inr (), (t', s))" "arr m t0 t' (upd xs i (elt xs j))"
proof -
  have "lookup t (ikey i) \<noteq> T_nil" using arrD(4) [OF assms(1-3)] assms(6) by simp
  from setint_present [OF arrD(1) [OF assms(1)] arr_int32 [OF assms(1-3)] this] obtain sl where
    sl: "setint t i = tret (sl, t)" "\<not> frees_nodes t i" "\<And>v. tab_ok (store sl v t)"
      "\<And>v k. good_key k \<Longrightarrow> lookup (store sl v t) k = (if k = ikey i then v else lookup t k)" by metis
  from getint_lookup [OF arrD(1) [OF assms(1)] arr_int32 [OF assms(1,4,5)]] obtain r where
    r: "lj_tab_getint t j = Some r" "load_or_nil t r = lookup t (ikey j)" .
  then have "load_or_nil t r = elt xs j" using arrD(4) [OF assms(1,4,5)] by simp
  then show thesis
    using sl r(1) arr_updated [OF assms(1-3), of "store sl (elt xs j) t" "elt xs j"]
    by (intro that [of "store sl (elt xs j) t"]) (simp_all add: remove_copy_def)
qed

subsection \<open>The segment as its callers see it\<close>

definition elems :: "nat \<Rightarrow> GCtab \<Rightarrow> TValue list" where
  "elems m t = map (\<lambda>i. the (lj_tab_get t (ikey (int i)))) [1..<Suc m]"

text \<open>Every key but the indices up to \<open>m\<close>, in any representation, has the same value.\<close>

definition same_outside :: "nat \<Rightarrow> GCtab \<Rightarrow> GCtab \<Rightarrow> bool" where
  "same_outside m t t' \<longleftrightarrow> (\<forall>k. norm_key k \<notin> ikeys m \<longrightarrow> lj_tab_get t' k = lj_tab_get t k)"

lemma get_ikey:
  assumes "tab_ok t" "int32 i"
  shows "lj_tab_get t (ikey i) = Some (lookup t (ikey i))"
  by (rule lj_tab_get_lookup [OF assms(1) num_of_int_good [OF assms(2)]])

lemma length_elems [simp]: "length (elems m t) = m"
  by (simp add: elems_def del: upt_Suc)

lemma elt_elems:
  assumes "tab_ok t" "m < 2 ^ LJ_MAX_HBITS" "1 \<le> i" "i \<le> int m"
  shows "elt (elems m t) i = lookup t (ikey i)"
proof -
  have n: "nat (i - 1) < length [1..<Suc m]" "[1..<Suc m] ! nat (i - 1) = nat i" using assms(3,4) by (auto simp del: upt_Suc)
  have "elt (elems m t) i = the (lj_tab_get t (ikey (int (nat i))))"
    unfolding elt_def elems_def nth_map [OF n(1)] n(2) ..
  with get_ikey [OF assms(1), of i] assms(2-4) show ?thesis by simp
qed

lemma arr_start:
  assumes "tab_ok t" "length (entries t) + m < 2 ^ LJ_MAX_HBITS"
  shows "arr m t t (elems m t)"
proof -
  have "card (others m t) \<le> length (entries t)"
    unfolding entries_card(1) [OF assms(1)] by (rule card_mono [OF entries_card(2) [OF assms(1)]]) (auto simp: others_def)
  with assms elt_elems [OF assms(1)] show ?thesis by (simp add: arr_def)
qed

lemma arr_elems:
  assumes "arr m t0 t xs"
  shows "xs = elems m t"
proof (rule nth_equalityI)
  note len = arrD(2) [OF assms]
  then show "length xs = length (elems m t)" by simp
  fix n
  assume "n < length xs"
  with len have n: "1 \<le> int n + 1" "int n + 1 \<le> int m" by auto
  with arrD(4) [OF assms n] elt_elems [OF arrD(1,3) [OF assms] n] show "xs ! n = elems m t ! n" by (simp add: elt_def)
qed

lemma arr_outside:
  assumes "arr m t0 t xs" "tab_ok t0"
  shows "same_outside m t0 t"
  using arrD(5) [OF assms(1) valid_good]
  by (simp add: same_outside_def lj_tab_get_any [OF assms(2)] lj_tab_get_any [OF arrD(1) [OF assms(1)]])

text \<open>A table for examples, an array of three numbers.\<close>

definition three_table :: GCtab where
  "three_table = \<lparr>t_nomm = 0, t_array = [T_nil, T_num (num_of_int 3), T_num (num_of_int 1), T_num (num_of_int 2)],
     t_node = [empty_node], t_freetop = 0\<rparr>"

lemma three_table_ok:
  "tab_ok three_table" "lj_tab_len three_table = Some 3" "length (entries three_table) + 3 < 2 ^ LJ_MAX_HBITS"
  "elems 3 three_table = [T_num (num_of_int 3), T_num (num_of_int 1), T_num (num_of_int 2)]"
proof -
  have s: "three_table = fresh three_table 0" by (simp add: fresh_def three_table_def)
  show "tab_ok three_table" by (subst s, rule fresh_ok) (simp_all add: three_table_def asize_def)
  show "lj_tab_len three_table = Some 3" by (simp add: lj_tab_len_def three_table_def asize_def hmask_def)
  show "length (entries three_table) + 3 < 2 ^ LJ_MAX_HBITS"
    by (simp add: entries_def arr_entries_def node_entries_def three_table_def)
  show "elems 3 three_table = [T_num (num_of_int 3), T_num (num_of_int 1), T_num (num_of_int 2)]"
    by (simp add: elems_def lj_tab_get_def get_slot_ikey lj_tab_getint_def inarray_def three_table_def asize_def upt_rec)
qed

end
