(* ===== verification/Lj_Tablib_Sort.thy ===== *)
theory Lj_Tablib_Sort
  imports Lj_Tablib_Array Lj_Str_Props "HOL-Library.Multiset"
begin

text \<open>
  \<open>table.sort\<close>: whatever the order function does, short of changing the table, the sort ends, stays within the
  indices it is given and permutes their values; with a strict weak order the result is sorted. The
  operations are reasoned about by weakest preconditions over the list of values.
\<close>

subsection \<open>Weakest preconditions over the values of a table\<close>

text \<open>From any table that holds \<open>xs\<close>, the operation ends in a table that holds a list with the postcondition.\<close>

definition wp :: "nat \<Rightarrow> GCtab \<Rightarrow> ('s, 'a) tm \<Rightarrow> TValue list \<Rightarrow> ('a \<Rightarrow> TValue list \<Rightarrow> bool) \<Rightarrow> (tablib_error \<Rightarrow> TValue list \<Rightarrow> bool) \<Rightarrow> bool" where
  "wp m t0 M xs Q E \<longleftrightarrow> (\<forall>t s. arr m t0 t xs \<longrightarrow>
     (\<exists>r t' s' ys. M (t, s) = Some (r, (t', s')) \<and> arr m t0 t' ys \<and> (case r of Inr x \<Rightarrow> Q x ys | Inl e \<Rightarrow> E e ys)))"

lemma wpE:
  assumes "wp m t0 M xs Q E" "arr m t0 t xs"
  obtains r t' s' ys where "M (t, s) = Some (r, (t', s'))" "arr m t0 t' ys" "case r of Inr x \<Rightarrow> Q x ys | Inl e \<Rightarrow> E e ys"
  using assms unfolding wp_def by metis

named_theorems wp_rules \<open>weakest preconditions of the table operations\<close>

lemma wp_ret [wp_rules]: "Q x xs \<Longrightarrow> wp m t0 (sret x) xs Q E"
  by (fastforce simp: wp_def sret_def)

lemma wp_err [wp_rules]: "E e xs \<Longrightarrow> wp m t0 (serr e) xs Q E"
  by (fastforce simp: wp_def serr_def)

lemma wp_bind:
  assumes "wp m t0 M xs (\<lambda>x ys. wp m t0 (f x) ys Q E) E"
  shows "wp m t0 (sbind M f) xs Q E"
  unfolding wp_def
proof (intro allI impI)
  fix t s
  assume "arr m t0 t xs"
  with assms obtain r t1 s1 ys where r: "M (t, s) = Some (r, (t1, s1))" "arr m t0 t1 ys"
    "case r of Inr x \<Rightarrow> wp m t0 (f x) ys Q E | Inl e \<Rightarrow> E e ys" by (rule wpE)
  show "\<exists>r t' s' ys. sbind M f (t, s) = Some (r, (t', s')) \<and> arr m t0 t' ys \<and> (case r of Inr x \<Rightarrow> Q x ys | Inl e \<Rightarrow> E e ys)"
  proof (cases r)
    case (Inl e)
    with r show ?thesis by (auto simp: sbind_def)
  next
    case (Inr x)
    with r have "wp m t0 (f x) ys Q E" by simp
    from this r(2) obtain r' t' s' zs where "f x (t1, s1) = Some (r', (t', s'))" "arr m t0 t' zs"
      "case r' of Inr x \<Rightarrow> Q x zs | Inl e \<Rightarrow> E e zs" by (rule wpE)
    with Inr r(1) show ?thesis by (auto simp: sbind_def)
  qed
qed

lemma wp_len: "(length xs = m \<Longrightarrow> wp m t0 M xs Q E) \<Longrightarrow> wp m t0 M xs Q E"
  using arrD(2) by (fastforce simp: wp_def)

lemma wp_mono:
  assumes "wp m t0 M xs Q E" "\<And>x ys. Q x ys \<Longrightarrow> Q' x ys"
  shows "wp m t0 M xs Q' E"
  unfolding wp_def
proof (intro allI impI)
  fix t s
  assume "arr m t0 t xs"
  with assms(1) obtain r t' s' ys where r: "M (t, s) = Some (r, (t', s'))" "arr m t0 t' ys"
    "case r of Inr x \<Rightarrow> Q x ys | Inl e \<Rightarrow> E e ys" by (rule wpE)
  from r(3) assms(2) have "case r of Inr x \<Rightarrow> Q' x ys | Inl e \<Rightarrow> E e ys" by (auto split: sum.splits)
  with r show "\<exists>r t' s' ys. M (t, s) = Some (r, (t', s')) \<and> arr m t0 t' ys \<and> (case r of Inr x \<Rightarrow> Q' x ys | Inl e \<Rightarrow> E e ys)"
    by blast
qed

lemma wp_get [wp_rules]: "1 \<le> i \<Longrightarrow> i \<le> int m \<Longrightarrow> Q (elt xs i) xs \<Longrightarrow> wp m t0 (lua_rawgeti i) xs Q E"
  by (fastforce simp: wp_def arr_get)

lemma wp_set [wp_rules]:
  assumes "1 \<le> i" "i \<le> int m" "Q () (upd xs i v)"
  shows "wp m t0 (lua_rawseti i v) xs Q E"
  unfolding wp_def
proof (intro allI impI)
  fix t s
  assume "arr m t0 t xs"
  from arr_set [OF this assms(1,2)] assms(3)
  show "\<exists>r t' s' ys. lua_rawseti i v (t, s) = Some (r, (t', s')) \<and> arr m t0 t' ys \<and> (case r of Inr x \<Rightarrow> Q x ys | Inl e \<Rightarrow> E e ys)"
    by (metis (no_types, lifting) sum.simps(6))
qed

subsection \<open>Exchanging elements\<close>

definition swp :: "TValue list \<Rightarrow> int \<Rightarrow> int \<Rightarrow> TValue list" where
  "swp xs i j = upd (upd xs i (elt xs j)) j (elt xs i)"

lemma elt_swp:
  assumes "1 \<le> i" "i \<le> int (length xs)" "1 \<le> j" "j \<le> int (length xs)" "1 \<le> k"
  shows "elt (swp xs i j) k = (if k = i then elt xs j else if k = j then elt xs i else elt xs k)"
  using assms by (simp add: swp_def elt_upd)

lemma mset_swp:
  assumes "1 \<le> i" "i \<le> int (length xs)" "1 \<le> j" "j \<le> int (length xs)"
  shows "mset (swp xs i j) = mset xs"
  using mset_swap [of "nat (j - 1)" xs "nat (i - 1)"] assms by (simp add: swp_def upd_def elt_def)

lemma length_swp [simp]: "length (swp xs i j) = length xs"
  by (simp add: swp_def)

lemma wp_set2 [wp_rules]:
  assumes "1 \<le> i" "i \<le> int m" "1 \<le> j" "j \<le> int m" "x = elt xs j" "y = elt xs i" "Q () (swp xs i j)"
  shows "wp m t0 (set2 i j x y) xs Q E"
  unfolding set2_def using assms by (intro wp_bind wp_set) (simp_all add: swp_def)

text \<open>The values between two indices are permuted, all others stay.\<close>

definition perm_in :: "int \<Rightarrow> int \<Rightarrow> TValue list \<Rightarrow> TValue list \<Rightarrow> bool" where
  "perm_in l u xs ys \<longleftrightarrow> length ys = length xs \<and> mset ys = mset xs \<and>
     (\<forall>k. 1 \<le> k \<longrightarrow> k \<le> int (length xs) \<longrightarrow> k < l \<or> u < k \<longrightarrow> elt ys k = elt xs k)"

lemma perm_in_out: "perm_in l u xs ys \<Longrightarrow> 1 \<le> k \<Longrightarrow> k \<le> int (length xs) \<Longrightarrow> k < l \<or> u < k \<Longrightarrow> elt ys k = elt xs k"
  unfolding perm_in_def by blast

lemma perm_in_refl: "perm_in l u xs xs"
  by (simp add: perm_in_def)

lemma perm_in_trans:
  assumes "perm_in l1 u1 xs ys" "perm_in l2 u2 ys zs" "l \<le> l1" "l \<le> l2" "u1 \<le> u" "u2 \<le> u"
  shows "perm_in l u xs zs"
  using assms unfolding perm_in_def by (smt (verit, best))

lemma perm_in_swp:
  assumes "1 \<le> i" "i \<le> int (length xs)" "1 \<le> j" "j \<le> int (length xs)" "l \<le> i" "i \<le> u" "l \<le> j" "j \<le> u"
  shows "perm_in l u xs (swp xs i j)"
  using assms by (auto simp: perm_in_def mset_swp elt_swp)

lemma perm_in_all:
  assumes "perm_in l u xs ys" "1 \<le> l" "u \<le> int (length xs)" "\<And>k. l \<le> k \<Longrightarrow> k \<le> u \<Longrightarrow> p (elt xs k)" "l \<le> k" "k \<le> u"
  shows "p (elt ys k)"
proof -
  let ?a = "nat (l - 1)" and ?b = "nat u"
  have ab: "?a \<le> ?b" using assms(5,6) by simp
  have len: "length ys = length xs" and ms: "mset ys = mset xs"
    and out: "\<And>k. 1 \<le> k \<Longrightarrow> k \<le> int (length xs) \<Longrightarrow> k < l \<or> u < k \<Longrightarrow> elt ys k = elt xs k"
    using assms(1) by (auto simp: perm_in_def)
  have nth: "ys ! n = xs ! n" if "n < length xs" "n < ?a \<or> ?b \<le> n" for n
  proof -
    have "int n + 1 < l \<or> u < int n + 1" using that(2) by linarith
    with out [of "int n + 1"] that(1) show ?thesis by (simp add: elt_def)
  qed
  have t: "take ?a ys = take ?a xs" using assms(2,3) ab len by (intro nth_equalityI) (auto intro!: nth)
  have d: "drop ?b ys = drop ?b xs" using len by (intro nth_equalityI) (auto intro!: nth)
  have split: "mset zs = mset (take ?a zs) + mset (drop ?a (take ?b zs)) + mset (drop ?b zs)" for zs :: "TValue list"
  proof -
    have "take ?a (take ?b zs) @ drop ?a (take ?b zs) = take ?b zs" by (rule append_take_drop_id)
    then have "mset (take ?b zs) = mset (take ?a zs) + mset (drop ?a (take ?b zs))"
      using ab by (metis mset_append min.absorb1 take_take)
    moreover have "mset zs = mset (take ?b zs) + mset (drop ?b zs)" by (metis append_take_drop_id mset_append)
    ultimately show ?thesis by simp
  qed
  from split [of xs] split [of ys] ms t d have "mset (drop ?a (take ?b ys)) = mset (drop ?a (take ?b xs))" by simp
  then have s: "set (drop ?a (take ?b ys)) = set (drop ?a (take ?b xs))" by (metis set_mset_mset)
  have "elt ys k = drop ?a (take ?b ys) ! (nat (k - 1) - ?a)"
    using assms(2,3,5,6) len by (simp add: elt_def)
  also have "\<dots> \<in> set (drop ?a (take ?b ys))" using assms(2,3,5,6) len by (intro nth_mem) auto
  finally obtain n where "n < length (drop ?a (take ?b xs))" "elt ys k = drop ?a (take ?b xs) ! n"
    unfolding s by (metis in_set_conv_nth)
  then have n: "?a + n < length (take ?b xs)" "elt ys k = drop ?a (take ?b xs) ! n" by auto
  then have "?a + n < ?b" "elt ys k = xs ! (?a + n)" using nth_drop [of ?a "take ?b xs" n] by simp_all
  moreover have "xs ! q = elt xs (int q + 1)" for q by (simp add: elt_def)
  ultimately show ?thesis using assms(2,4) by simp
qed

definition sorted_in :: "(TValue \<Rightarrow> TValue \<Rightarrow> bool) \<Rightarrow> int \<Rightarrow> int \<Rightarrow> TValue list \<Rightarrow> bool" where
  "sorted_in R l u xs \<longleftrightarrow> (\<forall>k k'. l \<le> k \<longrightarrow> k < k' \<longrightarrow> k' \<le> u \<longrightarrow> \<not> R (elt xs k') (elt xs k))"

lemma sorted_in_cong:
  assumes "\<And>k. a \<le> k \<Longrightarrow> k \<le> b \<Longrightarrow> elt ys k = elt xs k"
  shows "sorted_in R a b ys = sorted_in R a b xs"
  using assms by (auto simp: sorted_in_def)

lemma sorted_in_three:
  assumes "\<not> R (elt xs (l + 1)) (elt xs l)" "\<not> R (elt xs (l + 2)) (elt xs (l + 1))" "\<not> R (elt xs (l + 2)) (elt xs l)"
  shows "sorted_in R l (l + 2) xs"
  unfolding sorted_in_def
proof (intro allI impI)
  fix k k'
  assume "l \<le> k" "k < k'" "k' \<le> l + 2"
  then consider "k = l" "k' = l + 1" | "k = l + 1" "k' = l + 2" | "k = l" "k' = l + 2" by linarith
  then show "\<not> R (elt xs k') (elt xs k)" by cases (use assms in simp_all)
qed

subsection \<open>Order functions\<close>

text \<open>
  An order function leaves the table alone and answers or raises an error. With \<open>w\<close> it is well behaved:
  it answers with a strict weak order on the values \<open>vals\<close>.
\<close>

definition strict_weak_order :: "'a set \<Rightarrow> ('a \<Rightarrow> 'a \<Rightarrow> bool) \<Rightarrow> bool" where
  "strict_weak_order A R \<longleftrightarrow> (\<forall>a \<in> A. \<forall>b \<in> A. R a b \<longrightarrow> \<not> R b a) \<and>
     (\<forall>a \<in> A. \<forall>b \<in> A. \<forall>c \<in> A. R a c \<longrightarrow> R a b \<or> R b c)"

locale sort_order =
  fixes lt :: "'s order" and w :: bool and R :: "TValue \<Rightarrow> TValue \<Rightarrow> bool" and vals :: "TValue set"
    and may_raise :: "tablib_error \<Rightarrow> bool"
  assumes answers: "a \<in> vals \<Longrightarrow> b \<in> vals \<Longrightarrow> \<exists>r s'. lt a b (t, s) = Some (r, (t, s')) \<and> (w \<longrightarrow> r = Inr (R a b)) \<and>
      (case r of Inl e \<Rightarrow> may_raise e | Inr _ \<Rightarrow> True)"
    and order: "w \<Longrightarrow> strict_weak_order vals R"
begin

lemma asym: "w \<Longrightarrow> a \<in> vals \<Longrightarrow> b \<in> vals \<Longrightarrow> R a b \<Longrightarrow> \<not> R b a"
  using order by (auto simp: strict_weak_order_def)

lemma le_trans: "w \<Longrightarrow> a \<in> vals \<Longrightarrow> b \<in> vals \<Longrightarrow> c \<in> vals \<Longrightarrow> \<not> R b a \<Longrightarrow> \<not> R c b \<Longrightarrow> \<not> R c a"
  using order unfolding strict_weak_order_def by blast

lemma subset: "A \<subseteq> vals \<Longrightarrow> sort_order lt w R A may_raise"
  using answers order by unfold_locales (auto simp: strict_weak_order_def subset_eq)

text \<open>The values are those of a multiset; an error leaves a permutation, and there is none if the order is a good one.\<close>

definition wpe :: "TValue multiset \<Rightarrow> nat \<Rightarrow> GCtab \<Rightarrow> ('s, 'a) tm \<Rightarrow> TValue list \<Rightarrow> ('a \<Rightarrow> TValue list \<Rightarrow> bool) \<Rightarrow> bool" where
  "wpe M m t0 N xs Q \<longleftrightarrow> wp m t0 N xs Q (\<lambda>e ys. \<not> w \<and> mset ys = M \<and> (e = ERR_TABSORT \<or> may_raise e))"

lemma wpe_bind: "wpe M m t0 N xs (\<lambda>x ys. wpe M m t0 (f x) ys Q) \<Longrightarrow> wpe M m t0 (sbind N f) xs Q"
  unfolding wpe_def by (rule wp_bind)

lemma wpe_ret: "Q x xs \<Longrightarrow> wpe M m t0 (sret x) xs Q"
  unfolding wpe_def by (rule wp_ret)

lemma wpe_get: "1 \<le> i \<Longrightarrow> i \<le> int m \<Longrightarrow> Q (elt xs i) xs \<Longrightarrow> wpe M m t0 (lua_rawgeti i) xs Q"
  unfolding wpe_def by (rule wp_get)

lemma wpe_set2: "1 \<le> i \<Longrightarrow> i \<le> int m \<Longrightarrow> 1 \<le> j \<Longrightarrow> j \<le> int m \<Longrightarrow> x = elt xs j \<Longrightarrow> y = elt xs i \<Longrightarrow> Q () (swp xs i j) \<Longrightarrow>
    wpe M m t0 (set2 i j x y) xs Q"
  unfolding wpe_def by (rule wp_set2)

lemma wpe_sorterr: "\<not> w \<Longrightarrow> mset xs = M \<Longrightarrow> wpe M m t0 (serr ERR_TABSORT) xs Q"
  unfolding wpe_def by (rule wp_err) simp

lemma wpe_mono: "wpe M m t0 N xs Q \<Longrightarrow> (\<And>x ys. Q x ys \<Longrightarrow> Q' x ys) \<Longrightarrow> wpe M m t0 N xs Q'"
  unfolding wpe_def by (rule wp_mono)

lemma wpe_lt:
  assumes "a \<in> vals" "b \<in> vals" "mset xs = M" "\<And>r. (w \<longrightarrow> r = R a b) \<Longrightarrow> Q r xs"
  shows "wpe M m t0 (lt a b) xs Q"
  unfolding wpe_def wp_def
proof (intro allI impI)
  fix t s
  assume arr: "arr m t0 t xs"
  from answers [OF assms(1,2)] obtain r s' where r: "lt a b (t, s) = Some (r, (t, s'))" "w \<longrightarrow> r = Inr (R a b)"
    "case r of Inl e \<Rightarrow> may_raise e | Inr _ \<Rightarrow> True" by blast
  then have "case r of Inl e \<Rightarrow> \<not> w \<and> mset xs = M \<and> (e = ERR_TABSORT \<or> may_raise e) | Inr x \<Rightarrow> Q x xs"
    using assms(3,4) by (auto split: sum.splits)
  with r(1) arr show "\<exists>r t' s' ys. lt a b (t, s) = Some (r, (t', s')) \<and> arr m t0 t' ys \<and>
      (case r of Inl e \<Rightarrow> \<not> w \<and> mset ys = M \<and> (e = ERR_TABSORT \<or> may_raise e) | Inr x \<Rightarrow> Q x ys)" by blast
qed

definition holds :: "TValue multiset \<Rightarrow> nat \<Rightarrow> TValue list \<Rightarrow> bool" where
  "holds M m xs \<longleftrightarrow> length xs = m \<and> mset xs = M \<and> set_mset M \<subseteq> vals"

lemma holdsD: "holds M m xs \<Longrightarrow> length xs = m" "holds M m xs \<Longrightarrow> mset xs = M"
  "holds M m xs \<Longrightarrow> 1 \<le> k \<Longrightarrow> k \<le> int m \<Longrightarrow> elt xs k \<in> vals"
  by (auto simp: holds_def elt_def subset_eq)

lemma holds_perm_in: "holds M m xs \<Longrightarrow> perm_in l u xs ys \<Longrightarrow> holds M m ys"
  by (auto simp: holds_def perm_in_def)

lemma scan_up_wp:
  assumes "holds M m xs" "P \<in> vals" "0 \<le> i" "i < u" "u \<le> int m"
    and "w \<Longrightarrow> i < c \<and> c < u \<and> \<not> R (elt xs c) P"
    and "\<And>i'. i < i' \<Longrightarrow> i' \<le> u \<Longrightarrow> (w \<Longrightarrow> i' \<le> c \<and> \<not> R (elt xs i') P \<and> (\<forall>k. i < k \<longrightarrow> k < i' \<longrightarrow> R (elt xs k) P)) \<Longrightarrow> Q (i', elt xs i') xs"
  shows "wpe M m t0 (scan_up lt P u i) xs Q"
  using assms(3-7)
proof (induction "nat (u - i)" arbitrary: i rule: less_induct)
  case less
  have v: "1 \<le> i + 1" "i + 1 \<le> int m" using less.prems(1-3) by auto
  show ?case
    unfolding scan_up.simps [of lt P u i]
  proof (intro wpe_bind wpe_get v wpe_lt holdsD(2,3) [OF assms(1)] assms(2))
    fix r
    assume r: "w \<longrightarrow> r = R (elt xs (i + 1)) P"
    show "wpe M m t0 (if r then if i + 1 \<ge> u then serr ERR_TABSORT else scan_up lt P u (i + 1) else sret (i + 1, elt xs (i + 1))) xs Q"
    proof (cases r)
      case False
      with less.prems(4) have "wpe M m t0 (sret (i + 1, elt xs (i + 1))) xs Q"
        by (intro wpe_ret less.prems(5)) (use less.prems(2) r in auto)
      with False show ?thesis by simp
    next
      case True
      then have c: "w \<Longrightarrow> i + 1 < c" using r less.prems(4) by (cases "c = i + 1") auto
      show ?thesis
      proof (cases "i + 1 \<ge> u")
        case stop: True
        with c less.prems(4) have "\<not> w" by auto
        from wpe_sorterr [OF this holdsD(2) [OF assms(1)]] True stop show ?thesis by simp
      next
        case False
        have "wpe M m t0 (scan_up lt P u (i + 1)) xs Q"
        proof (rule less.hyps)
          show "Q (i', elt xs i') xs" if i': "i + 1 < i'" "i' \<le> u"
            "w \<Longrightarrow> i' \<le> c \<and> \<not> R (elt xs i') P \<and> (\<forall>k. i + 1 < k \<longrightarrow> k < i' \<longrightarrow> R (elt xs k) P)" for i'
          proof (rule less.prems(5))
            assume w: "w"
            have "R (elt xs k) P" if "i < k" "k < i'" for k
              using that i'(3) [OF w] r True w by (cases "k = i + 1") auto
            with i'(3) [OF w] show "i' \<le> c \<and> \<not> R (elt xs i') P \<and> (\<forall>k. i < k \<longrightarrow> k < i' \<longrightarrow> R (elt xs k) P)" by blast
          qed (use i' in auto)
        qed (use False less.prems c in auto)
        with True False show ?thesis by simp
      qed
    qed
  qed
qed

lemma scan_down_wp:
  assumes "holds M m xs" "P \<in> vals" "1 \<le> l" "l < j" "j \<le> int m"
    and "w \<Longrightarrow> l \<le> c \<and> c < j \<and> \<not> R P (elt xs c)"
    and "\<And>j'. j' < j \<Longrightarrow> l \<le> j' \<Longrightarrow> (w \<Longrightarrow> c \<le> j' \<and> \<not> R P (elt xs j') \<and> (\<forall>k. j' < k \<longrightarrow> k < j \<longrightarrow> R P (elt xs k))) \<Longrightarrow> Q (j', elt xs j') xs"
  shows "wpe M m t0 (scan_down lt P l j) xs Q"
  using assms(4-7)
proof (induction "nat (j - l)" arbitrary: j rule: less_induct)
  case less
  have v: "1 \<le> j - 1" "j - 1 \<le> int m" using less.prems(1,2) assms(3) by auto
  show ?case
    unfolding scan_down.simps [of lt P l j]
  proof (intro wpe_bind wpe_get v wpe_lt holdsD(2,3) [OF assms(1)] assms(2))
    fix r
    assume r: "w \<longrightarrow> r = R P (elt xs (j - 1))"
    show "wpe M m t0 (if r then if j - 1 \<le> l then serr ERR_TABSORT else scan_down lt P l (j - 1) else sret (j - 1, elt xs (j - 1))) xs Q"
    proof (cases r)
      case False
      with less.prems(3) have "wpe M m t0 (sret (j - 1, elt xs (j - 1))) xs Q"
        by (intro wpe_ret less.prems(4)) (use less.prems(1) r in auto)
      with False show ?thesis by simp
    next
      case True
      then have c: "w \<Longrightarrow> c < j - 1" using r less.prems(3) by (cases "c = j - 1") auto
      show ?thesis
      proof (cases "j - 1 \<le> l")
        case stop: True
        with c less.prems(3) have "\<not> w" by auto
        from wpe_sorterr [OF this holdsD(2) [OF assms(1)]] True stop show ?thesis by simp
      next
        case False
        have "wpe M m t0 (scan_down lt P l (j - 1)) xs Q"
        proof (rule less.hyps)
          show "Q (j', elt xs j') xs" if j': "j' < j - 1" "l \<le> j'"
            "w \<Longrightarrow> c \<le> j' \<and> \<not> R P (elt xs j') \<and> (\<forall>k. j' < k \<longrightarrow> k < j - 1 \<longrightarrow> R P (elt xs k))" for j'
          proof (rule less.prems(4))
            assume w: "w"
            have "R P (elt xs k)" if "j' < k" "k < j" for k
              using that j'(3) [OF w] r True w by (cases "k = j - 1") auto
            with j'(3) [OF w] show "c \<le> j' \<and> \<not> R P (elt xs j') \<and> (\<forall>k. j' < k \<longrightarrow> k < j \<longrightarrow> R P (elt xs k))" by blast
          qed (use j' in auto)
        qed (use False less.prems c in auto)
        with True False show ?thesis by simp
      qed
    qed
  qed
qed

text \<open>Everything up to \<open>a\<close> is not larger than the pivot, everything from \<open>b\<close> not smaller.\<close>

definition parted :: "TValue \<Rightarrow> TValue list \<Rightarrow> int \<Rightarrow> int \<Rightarrow> int \<Rightarrow> int \<Rightarrow> bool" where
  "parted P xs l a b u \<longleftrightarrow> (w \<longrightarrow>
     (\<forall>k. l \<le> k \<longrightarrow> k \<le> a \<longrightarrow> \<not> R P (elt xs k)) \<and> (\<forall>k. b \<le> k \<longrightarrow> k \<le> u \<longrightarrow> \<not> R (elt xs k) P))"

lemma partition_wp:
  assumes "holds M m xs" "P \<in> vals" "1 \<le> l" "u \<le> int m"
    and "l \<le> i" "i \<le> u - 2" "i \<le> j" "l < j" "j < u" "parted P xs l i j u"
    and "\<And>r ys. l < r \<Longrightarrow> r \<le> u \<Longrightarrow> w \<longrightarrow> r < u \<Longrightarrow> perm_in (l + 1) (u - 2) xs ys \<Longrightarrow> parted P ys l (r - 1) r u \<Longrightarrow> Q r ys"
  shows "wpe M m t0 (partition_loop lt P l u i j) xs Q"
  using assms(1,5-11)
proof (induction "nat (j - i)" arbitrary: i j xs rule: less_induct)
  case less
  note h = less.prems(1) and ij = less.prems(2-6) and part = less.prems(7)
  have loop: "partition_loop lt P l u i j = sbind (scan_up lt P u i) (\<lambda>x. sbind (scan_down lt P l j) (\<lambda>y.
      if fst y < fst x then sret (fst x)
      else sbind (set2 (fst x) (fst y) (snd y) (snd x)) (\<lambda>_. partition_loop lt P l u (fst x) (fst y))))"
    by (rule ext, subst partition_loop.simps) (auto intro!: sbind_cong)
  let ?c = "max j (i + 1)" and ?d = "min i (j - 1)"
  have part_low: "\<not> R P (elt xs k)" if "w" "l \<le> k" "k \<le> i" for k using part that unfolding parted_def by blast
  have part_high: "\<not> R (elt xs k) P" if "w" "j \<le> k" "k \<le> u" for k using part that unfolding parted_def by blast
  have c: "w \<Longrightarrow> i < ?c \<and> ?c < u \<and> \<not> R (elt xs ?c) P" using part_high [of ?c] ij by auto
  have d: "w \<Longrightarrow> l \<le> ?d \<and> ?d < j \<and> \<not> R P (elt xs ?d)" using part_low [of ?d] ij by auto
  show ?case
    unfolding loop
  proof (intro wpe_bind scan_up_wp [OF h assms(2) _ _ assms(4) c] scan_down_wp [OF h assms(2,3) _ _ d])
    fix i' j'
    assume i': "i < i'" "i' \<le> u" "w \<Longrightarrow> i' \<le> ?c \<and> \<not> R (elt xs i') P \<and> (\<forall>k. i < k \<longrightarrow> k < i' \<longrightarrow> R (elt xs k) P)"
      and j': "j' < j" "l \<le> j'" "w \<Longrightarrow> ?d \<le> j' \<and> \<not> R P (elt xs j') \<and> (\<forall>k. j' < k \<longrightarrow> k < j \<longrightarrow> R P (elt xs k))"
    have vals: "elt xs k \<in> vals" if "l \<le> k" "k \<le> u" for k using holdsD(3) [OF h, of k] that assms(3,4) by simp
    have low: "\<not> R P (elt xs k)" if "w" "l \<le> k" "k < i'" for k
    proof (cases "k \<le> i")
      case True
      from part_low [OF that(1,2) this] show ?thesis .
    next
      case False
      with i'(3) [OF that(1)] that have "R (elt xs k) P" by auto
      then show ?thesis using asym [OF that(1) vals assms(2)] that i'(2) by auto
    qed
    have high: "\<not> R (elt xs k) P" if "w" "j' < k" "k \<le> u" for k
    proof (cases "j \<le> k")
      case True
      from part_high [OF that(1) this that(3)] show ?thesis .
    next
      case False
      with j'(3) [OF that(1)] that have "R P (elt xs k)" by auto
      then show ?thesis using asym [OF that(1) assms(2) vals] that j'(2) by auto
    qed
    show "wpe M m t0 (if fst (j', elt xs j') < fst (i', elt xs i') then sret (fst (i', elt xs i'))
        else sbind (set2 (fst (i', elt xs i')) (fst (j', elt xs j')) (snd (j', elt xs j')) (snd (i', elt xs i')))
          (\<lambda>_. partition_loop lt P l u (fst (i', elt xs i')) (fst (j', elt xs j')))) xs Q"
    proof (cases "j' < i'")
      case True
      have "parted P xs l (i' - 1) i' u" using low high i'(3) True by (auto simp: parted_def)
      moreover have "w \<longrightarrow> i' < u" using i'(3) c by auto
      ultimately have "Q i' xs" using i' ij(1) by (intro less.prems(8)) (auto simp: perm_in_refl)
      with True show ?thesis by (simp add: wpe_ret)
    next
      case False
      let ?ys = "swp xs i' j'"
      note len = holdsD(1) [OF h]
      have r: "1 \<le> i'" "i' \<le> int (length xs)" "1 \<le> j'" "j' \<le> int (length xs)"
        using False i' j' ij assms(3,4) len by auto
      have perm: "perm_in (l + 1) (u - 2) xs ?ys" by (rule perm_in_swp [OF r]) (use False i' j' ij in auto)
      have e: "elt ?ys k = (if k = i' then elt xs j' else if k = j' then elt xs i' else elt xs k)" if "l \<le> k" for k
        using elt_swp [OF r, of k] that assms(3) by simp
      have part': "parted P ?ys l i' j' u"
        unfolding parted_def
      proof (intro impI conjI allI)
        fix k
        assume w: "w"
        show "\<not> R P (elt ?ys k)" if "l \<le> k" "k \<le> i'"
          using low [OF w that(1)] j'(3) [OF w] e [OF that(1)] that False by auto
        show "\<not> R (elt ?ys k) P" if "j' \<le> k" "k \<le> u"
          using high [OF w _ that(2)] i'(3) [OF w] e [of k] that False j'(2) by auto
      qed
      have "wpe M m t0 (partition_loop lt P l u i' j') ?ys Q"
      proof (rule less.hyps [OF _ holds_perm_in [OF h perm] _ _ _ _ _ part'])
        show "Q r zs" if "l < r" "r \<le> u" "w \<longrightarrow> r < u" "perm_in (l + 1) (u - 2) ?ys zs" "parted P zs l (r - 1) r u" for r zs
          using that(1-3) perm_in_trans [OF perm that(4)] that(5) by (intro less.prems(8)) auto
      qed (use False i' j' ij in auto)
      with False r len show ?thesis by (auto intro!: wpe_bind wpe_set2)
    qed
  qed (use ij assms(3,4) in auto)
qed

lemma sort_ends_wp:
  assumes "holds M m xs" "1 \<le> l" "l < u" "u \<le> int m"
    and Q: "\<And>ys. perm_in l u xs ys \<Longrightarrow> (w \<Longrightarrow> \<not> R (elt ys u) (elt ys l)) \<Longrightarrow> Q () ys"
  shows "wpe M m t0 (sort_ends lt l u) xs Q"
  unfolding sort_ends_def
proof (intro wpe_bind wpe_get wpe_lt holdsD(2,3) [OF assms(1)])
  fix r
  assume r: "w \<longrightarrow> r = R (elt xs u) (elt xs l)"
  note len = holdsD(1) [OF assms(1)]
  have lu: "1 \<le> l" "l \<le> int (length xs)" "1 \<le> u" "u \<le> int (length xs)" using assms(2-4) len by auto
  have vals: "elt xs l \<in> vals" "elt xs u \<in> vals" using holdsD(3) [OF assms(1)] assms(2-4) by auto
  have "r \<Longrightarrow> Q () (swp xs l u)"
    using r asym [OF _ vals(2,1)] assms(2,3) elt_swp [OF lu] by (intro Q perm_in_swp [OF lu]) auto
  moreover have "\<not> r \<Longrightarrow> Q () xs" using r by (intro Q perm_in_refl) auto
  ultimately show "wpe M m t0 (if r then set2 l u (elt xs u) (elt xs l) else sret ()) xs Q"
    using lu len by (cases r) (simp_all add: wpe_set2 wpe_ret)
qed (use assms(2-4) in auto)

lemma sort_middle_wp:
  assumes "holds M m xs" "1 \<le> l" "l < i" "i < u" "u \<le> int m" "w \<Longrightarrow> \<not> R (elt xs u) (elt xs l)"
    and Q: "\<And>ys. perm_in l u xs ys \<Longrightarrow> (w \<Longrightarrow> \<not> R (elt ys i) (elt ys l) \<and> \<not> R (elt ys u) (elt ys i)) \<Longrightarrow> Q () ys"
  shows "wpe M m t0 (sort_middle lt l u i) xs Q"
proof -
  note len = holdsD(1) [OF assms(1)]
  have li: "1 \<le> i" "i \<le> int (length xs)" "1 \<le> l" "l \<le> int (length xs)" and iu: "1 \<le> u" "u \<le> int (length xs)"
    using assms(2-5) len by auto
  have vals: "elt xs l \<in> vals" "elt xs i \<in> vals" "elt xs u \<in> vals" using holdsD(3) [OF assms(1)] assms(2-5) by auto
  show ?thesis
    unfolding sort_middle_def
  proof (intro wpe_bind wpe_get wpe_lt holdsD(2) [OF assms(1)] vals)
    fix r
    assume r: "w \<longrightarrow> r = R (elt xs i) (elt xs l)"
    show "wpe M m t0 (if r then set2 i l (elt xs l) (elt xs i) else sbind (lua_rawgeti u) (\<lambda>au.
        sbind (lt au (elt xs i)) (\<lambda>b. if b then set2 i u au (elt xs i) else sret ()))) xs Q"
    proof (cases r)
      case True
      have "Q () (swp xs i l)"
        using r True asym [OF _ vals(2,1)] assms(2-6) elt_swp [OF li] by (intro Q perm_in_swp [OF li]) auto
      with True li len show ?thesis by (simp add: wpe_set2)
    next
      case False
      have "wpe M m t0 (sbind (lua_rawgeti u) (\<lambda>au.
          sbind (lt au (elt xs i)) (\<lambda>b. if b then set2 i u au (elt xs i) else sret ()))) xs Q"
      proof (intro wpe_bind wpe_get wpe_lt holdsD(2) [OF assms(1)] vals)
        fix b
        assume b: "w \<longrightarrow> b = R (elt xs u) (elt xs i)"
        have "b \<Longrightarrow> Q () (swp xs i u)"
          using b asym [OF _ vals(3,2)] assms(2-6) elt_swp [OF li(1,2) iu] by (intro Q perm_in_swp [OF li(1,2) iu]) auto
        moreover have "\<not> b \<Longrightarrow> Q () xs" using r b False by (intro Q perm_in_refl) auto
        ultimately show "wpe M m t0 (if b then set2 i u (elt xs u) (elt xs i) else sret ()) xs Q"
          using li iu len by (cases b) (simp_all add: wpe_set2 wpe_ret)
      qed (use iu len in auto)
      with False show ?thesis by simp
    qed
  qed (use li len in auto)
qed

lemma sort_pivot_wp:
  assumes "holds M m xs" "1 \<le> l" "l < c" "c \<le> u - 2" "u \<le> int m"
    and "w \<Longrightarrow> \<not> R (elt xs c) (elt xs l) \<and> \<not> R (elt xs u) (elt xs c)"
    and Q: "\<And>i ys. l < i \<Longrightarrow> i \<le> u \<Longrightarrow> perm_in l u xs ys \<Longrightarrow> parted (elt ys i) ys l (i - 1) (i + 1) u \<Longrightarrow> Q i ys"
  shows "wpe M m t0 (sort_pivot lt l u c) xs Q"
proof -
  let ?P = "elt xs c" and ?ys = "swp xs c (u - 1)"
  have P: "?P \<in> vals" using holdsD(3) [OF assms(1)] assms(2-5) by simp
  have r: "1 \<le> c" "c \<le> int (length xs)" "1 \<le> u - 1" "u - 1 \<le> int (length xs)"
    using holdsD(1) [OF assms(1)] assms(2-5) by auto
  have p1: "perm_in l u xs ?ys" by (rule perm_in_swp [OF r]) (use assms(3,4) in auto)
  note h1 = holds_perm_in [OF assms(1) p1] and len = holdsD(1) [OF assms(1)]
  have e: "elt ?ys k = (if k = c then elt xs (u - 1) else if k = u - 1 then ?P else elt xs k)" if "l \<le> k" for k
    using elt_swp [OF r, of k] that assms(2) by simp
  have "\<not> R ?P ?P" if "w" using asym [OF that P P] by blast
  then have part1: "parted ?P ?ys l l (u - 1) u"
    unfolding parted_def using assms(3,4,6) e by (smt (verit))
  show ?thesis
    unfolding sort_pivot_def
  proof (intro wpe_bind wpe_get wpe_set2 wpe_ret partition_wp [OF h1 P assms(2,5) _ _ _ _ _ part1])
    fix i zs
    assume i: "l < i" "i \<le> u" "w \<longrightarrow> i < u" and p2: "perm_in (l + 1) (u - 2) ?ys zs" and part2: "parted ?P zs l (i - 1) i u"
    note h2 = holds_perm_in [OF h1 p2]
    have r2: "1 \<le> u - 1" "u - 1 \<le> int (length zs)" "1 \<le> i" "i \<le> int (length zs)"
      using holdsD(1) [OF h2] assms(2-5) i by auto
    have p3: "perm_in l u zs (swp zs (u - 1) i)" by (rule perm_in_swp [OF r2]) (use assms(3,4) i in auto)
    have "elt zs (u - 1) = elt ?ys (u - 1)" using p2 r(3,4) by (simp add: perm_in_def)
    with e [of "u - 1"] assms(3,4) have zP: "elt zs (u - 1) = ?P" by simp
    have e2: "elt (swp zs (u - 1) i) k = (if k = u - 1 then elt zs i else if k = i then ?P else elt zs k)" if "l \<le> k" for k
      using elt_swp [OF r2, of k] that assms(2) zP by simp
    show "Q i (swp zs (u - 1) i)"
    proof (rule Q [OF i(1,2)])
      show "perm_in l u xs (swp zs (u - 1) i)"
        by (rule perm_in_trans [OF perm_in_trans [OF p1 p2] p3]) auto
      show "parted (elt (swp zs (u - 1) i) i) (swp zs (u - 1) i) l (i - 1) (i + 1) u"
        using part2 i e2 zP assms(3,4) unfolding parted_def by (smt (verit))
    qed
  qed (use r len assms(2-5) in auto)
qed

lemma sort_step_wp:
  assumes "holds M m xs" "1 \<le> l" "l < u" "u \<le> int m" "int m < 2 ^ 30"
    and none: "\<And>ys. perm_in l u xs ys \<Longrightarrow> (w \<Longrightarrow> sorted_in R l u ys) \<Longrightarrow> Q None ys"
    and some: "\<And>i ys. l < i \<Longrightarrow> i \<le> u \<Longrightarrow> perm_in l u xs ys \<Longrightarrow> parted (elt ys i) ys l (i - 1) (i + 1) u \<Longrightarrow> Q (Some i) ys"
  shows "wpe M m t0 (sort_step lt l u) xs Q"
  unfolding sort_step_def Let_def
proof (intro wpe_bind sort_ends_wp [OF assms(1-4)])
  let ?m = "(l + u) div 2"
  let ?rest = "\<lambda>_. if u - l = 2 then sret None else sbind (sort_pivot lt l u ?m) (\<lambda>i. sret (Some i))"
  have no: "\<not> l + u \<ge> 2 ^ 31" using assms(3-5) by simp
  fix ys
  assume p1: "perm_in l u xs ys" and o1: "w \<Longrightarrow> \<not> R (elt ys u) (elt ys l)"
  note h1 = holds_perm_in [OF assms(1) p1]
  show "wpe M m t0 (if u - l = 1 then sret None else if l + u \<ge> 2 ^ 31 then serr TL_undefined
      else sbind (sort_middle lt l u ?m) ?rest) ys Q"
  proof (cases "u - l = 1")
    case True
    have "Q None ys"
    proof (rule none [OF p1])
      assume "w"
      from o1 [OF this] True show "sorted_in R l u ys" unfolding sorted_in_def by (smt (verit))
    qed
    with True show ?thesis by (simp add: wpe_ret)
  next
    case far: False
    then have mid: "l < ?m" "?m < u" using assms(3) by auto
    have "wpe M m t0 (sbind (sort_middle lt l u ?m) ?rest) ys Q"
    proof (intro wpe_bind sort_middle_wp [OF h1 assms(2) mid assms(4) o1])
      fix zs
      assume p2: "perm_in l u ys zs" and o2: "w \<Longrightarrow> \<not> R (elt zs ?m) (elt zs l) \<and> \<not> R (elt zs u) (elt zs ?m)"
      note h2 = holds_perm_in [OF h1 p2] and p12 = perm_in_trans [OF p1 p2 order_refl order_refl order_refl order_refl]
      have vals: "elt zs k \<in> vals" if "l \<le> k" "k \<le> u" for k using holdsD(3) [OF h2, of k] that assms(2,4) by simp
      show "wpe M m t0 (?rest ()) zs Q"
      proof (cases "u - l = 2")
        case True
        have "Q None zs"
        proof (rule none [OF p12])
          assume w: "w"
          have m: "?m = l + 1" "u = l + 2" using True by auto
          have "\<not> R (elt zs u) (elt zs l)"
            using le_trans [OF w vals [of l] vals [of ?m] vals [of u]] o2 [OF w] mid assms(3) by auto
          with o2 [OF w] show "sorted_in R l u zs" unfolding m by (intro sorted_in_three) (simp_all add: m)
        qed
        with True show ?thesis by (simp add: wpe_ret)
      next
        case False
        then have m2: "?m \<le> u - 2" using far assms(3) by linarith
        have "wpe M m t0 (sbind (sort_pivot lt l u ?m) (\<lambda>i. sret (Some i))) zs Q"
          using perm_in_trans [OF p12 _ order_refl order_refl order_refl order_refl]
          by (intro wpe_bind sort_pivot_wp [OF h2 assms(2) mid(1) m2 assms(4) o2] wpe_ret some) auto
        with False show ?thesis by simp
      qed
    qed
    with far no show ?thesis by simp
  qed
qed

lemma sorted_glue:
  assumes "parted P xs l (i - 1) (i + 1) u" "elt xs i = P" "sorted_in R l (i - 1) xs" "sorted_in R (i + 1) u xs"
    "\<And>k. l \<le> k \<Longrightarrow> k \<le> u \<Longrightarrow> elt xs k \<in> vals" "l < i" "i \<le> u" "w"
  shows "sorted_in R l u xs"
  unfolding sorted_in_def
proof (intro allI impI)
  fix k k'
  assume k: "l \<le> k" "k < k'" "k' \<le> u"
  have low: "\<not> R P (elt xs j)" if "l \<le> j" "j \<le> i - 1" for j using assms(1,8) that unfolding parted_def by blast
  have high: "\<not> R (elt xs j) P" if "i + 1 \<le> j" "j \<le> u" for j using assms(1,8) that unfolding parted_def by blast
  have P: "P \<in> vals" using assms(5) [of i] assms(2,6,7) by simp
  consider "k' \<le> i - 1" | "i + 1 \<le> k" | "k = i" | "k' = i" | "k \<le> i - 1" "i + 1 \<le> k'" using k by linarith
  then show "\<not> R (elt xs k') (elt xs k)"
  proof cases
    case 5
    with k show ?thesis using le_trans [OF assms(8) assms(5) P assms(5), of k k'] low [of k] high [of k'] by simp
  qed (use k assms(2-4) low high in \<open>auto simp: sorted_in_def\<close>)
qed

lemma parted_perm:
  assumes "parted P xs l (i - 1) (i + 1) u" "perm_in a b xs ys" "a = l \<and> b = i - 1 \<or> a = i + 1 \<and> b = u"
    and "1 \<le> l" "u \<le> int (length xs)" "l < i" "i \<le> u"
  shows "parted P ys l (i - 1) (i + 1) u" "elt ys i = elt xs i"
proof -
  have ab: "1 \<le> a" "b \<le> int (length xs)" using assms(3-7) by auto
  have out: "elt ys k = elt xs k" if "l \<le> k" "k \<le> u" "k < a \<or> b < k" for k
    using perm_in_out [OF assms(2), of k] assms(4,5) that by simp
  show "elt ys i = elt xs i" by (rule out) (use assms(3,6,7) in auto)
  show "parted P ys l (i - 1) (i + 1) u"
    unfolding parted_def
  proof (intro impI conjI allI)
    fix k
    assume w: "w"
    have low: "\<not> R P (elt xs k)" if "l \<le> k" "k \<le> i - 1" for k using assms(1) w that unfolding parted_def by blast
    have high: "\<not> R (elt xs k) P" if "i + 1 \<le> k" "k \<le> u" for k using assms(1) w that unfolding parted_def by blast
    show "\<not> R P (elt ys k)" if k: "l \<le> k" "k \<le> i - 1"
    proof (cases "a = l \<and> b = i - 1")
      case True
      with perm_in_all [OF assms(2) ab, of "\<lambda>v. \<not> R P v" k] low k show ?thesis by simp
    next
      case False
      with out [of k] low [OF k] k assms(3,7) show ?thesis by simp
    qed
    show "\<not> R (elt ys k) P" if k: "i + 1 \<le> k" "k \<le> u"
    proof (cases "a = i + 1 \<and> b = u")
      case True
      with perm_in_all [OF assms(2) ab, of "\<lambda>v. \<not> R v P" k] high k show ?thesis by simp
    next
      case False
      with out [of k] high [OF k] k assms(3,6) show ?thesis by simp
    qed
  qed
qed

text \<open>Sorting both parts, in either order, sorts the whole.\<close>

lemma both_parts:
  assumes "holds M m xs" "1 \<le> l" "u \<le> int m" "l < i" "i \<le> u" "parted (elt xs i) xs l (i - 1) (i + 1) u"
    and "perm_in a b xs ys" "perm_in c d ys zs" "w \<Longrightarrow> sorted_in R a b ys" "w \<Longrightarrow> sorted_in R c d zs"
    and "a = l \<and> b = i - 1 \<and> c = i + 1 \<and> d = u \<or> a = i + 1 \<and> b = u \<and> c = l \<and> d = i - 1"
  shows "perm_in l u xs zs" "w \<Longrightarrow> sorted_in R l u zs"
proof -
  note len = holdsD(1) [OF assms(1)]
  have len': "length ys = m" using assms(7) len by (simp add: perm_in_def)
  show perm: "perm_in l u xs zs" by (rule perm_in_trans [OF assms(7,8)]) (use assms(4,5,11) in auto)
  note h = holds_perm_in [OF assms(1) perm]
  have part1: "parted (elt xs i) ys l (i - 1) (i + 1) u" "elt ys i = elt xs i"
    using parted_perm [OF assms(6,7)] assms(2-5,11) len by auto
  have part2: "parted (elt xs i) zs l (i - 1) (i + 1) u" "elt zs i = elt ys i"
    using parted_perm [OF part1(1) assms(8)] assms(2-5,11) len' by auto
  show "sorted_in R l u zs" if w: "w"
  proof -
    have "elt zs k = elt ys k" if "a \<le> k" "k \<le> b" for k
      using perm_in_out [OF assms(8), of k] assms(2-5,11) that len' by auto
    then have "sorted_in R a b zs" using sorted_in_cong [of a b zs ys R] assms(9) [OF w] by simp
    with assms(10) [OF w] assms(11) have "sorted_in R l (i - 1) zs" "sorted_in R (i + 1) u zs" by auto
    moreover have "elt zs k \<in> vals" if "l \<le> k" "k \<le> u" for k using holdsD(3) [OF h, of k] that assms(2,3) by simp
    moreover have "elt zs i = elt xs i" using part1(2) part2(2) by simp
    ultimately show ?thesis using sorted_glue [OF part2(1)] assms(4,5) w by blast
  qed
qed

lemma auxsort_wp:
  assumes "holds M m xs" "1 \<le> l" "u \<le> int m" "int m < 2 ^ 30"
    and "\<And>ys. perm_in l u xs ys \<Longrightarrow> (w \<Longrightarrow> sorted_in R l u ys) \<Longrightarrow> Q ys"
  shows "wpe M m t0 (auxsort lt l u) xs (\<lambda>_. Q)"
  using assms(1-3,5)
proof (induction "nat (u - l)" arbitrary: l u xs Q rule: less_induct)
  case less
  note h = less.prems(1)
  have unf: "auxsort lt l u = (if l < u then sbind (sort_step lt l u) (\<lambda>r. case r of
        None \<Rightarrow> sret ()
      | Some i \<Rightarrow> if i - l < u - i then sbind (auxsort lt l (i - 1)) (\<lambda>_. auxsort lt (i + 1) u)
          else sbind (auxsort lt (i + 1) u) (\<lambda>_. auxsort lt l (i - 1))) else sret ())"
    by (rule ext, subst auxsort.simps) (auto intro!: sbind_cong split: option.splits)
  show ?case
  proof (cases "l < u")
    case False
    then have "Q xs" by (intro less.prems(4) perm_in_refl) (simp add: sorted_in_def)
    with False show ?thesis by (simp add: unf wpe_ret)
  next
    case True
    have "wpe M m t0 (sbind (sort_step lt l u) (\<lambda>r. case r of
        None \<Rightarrow> sret ()
      | Some i \<Rightarrow> if i - l < u - i then sbind (auxsort lt l (i - 1)) (\<lambda>_. auxsort lt (i + 1) u)
          else sbind (auxsort lt (i + 1) u) (\<lambda>_. auxsort lt l (i - 1)))) xs (\<lambda>_. Q)"
    proof (rule wpe_bind, rule sort_step_wp [OF h less.prems(2) True less.prems(3) assms(4)])
      show "wpe M m t0 (case None of None \<Rightarrow> sret () | Some i \<Rightarrow> f i) ys (\<lambda>_. Q)"
        if "perm_in l u xs ys" "w \<Longrightarrow> sorted_in R l u ys" for ys f
        using less.prems(4) [OF that] by (simp add: wpe_ret)
      fix i ys
      assume i: "l < i" "i \<le> u" and p: "perm_in l u xs ys" and part: "parted (elt ys i) ys l (i - 1) (i + 1) u"
      note hy = holds_perm_in [OF h p]
      have Q: "Q zs" if "perm_in l u ys zs" "w \<Longrightarrow> sorted_in R l u zs" for zs
        using less.prems(4) [OF perm_in_trans [OF p that(1) order_refl order_refl order_refl order_refl] that(2)] .
      have parts: "wpe M m t0 (sbind (auxsort lt a b) (\<lambda>_. auxsort lt c d)) ys (\<lambda>_. Q)"
        if ab: "a = l \<and> b = i - 1 \<and> c = i + 1 \<and> d = u \<or> a = i + 1 \<and> b = u \<and> c = l \<and> d = i - 1" for a b c d
      proof (rule wpe_bind, rule less.hyps [OF _ hy])
        fix zs
        assume p1: "perm_in a b ys zs" and s1: "w \<Longrightarrow> sorted_in R a b zs"
        show "wpe M m t0 (auxsort lt c d) zs (\<lambda>_. Q)"
        proof (rule less.hyps [OF _ holds_perm_in [OF hy p1]])
          show "Q vs" if "perm_in c d zs vs" "w \<Longrightarrow> sorted_in R c d vs" for vs
            using both_parts [OF hy less.prems(2,3) i part p1 that(1) s1 that(2) ab] by (rule Q)
        qed (use ab less.prems(2,3) i in auto)
      qed (use ab less.prems(2,3) i in auto)
      then show "wpe M m t0 (case Some i of None \<Rightarrow> sret ()
          | Some i \<Rightarrow> if i - l < u - i then sbind (auxsort lt l (i - 1)) (\<lambda>_. auxsort lt (i + 1) u)
              else sbind (auxsort lt (i + 1) u) (\<lambda>_. auxsort lt l (i - 1))) ys (\<lambda>_. Q)" by simp
    qed
    then show ?thesis unfolding unf if_P [OF True] .
  qed
qed

text \<open>The result on a table: it ends, in a permutation, and with a good order without error and sorted.\<close>

lemma auxsort_result:
  assumes "arr m t0 t xs" "set xs \<subseteq> vals"
  obtains r t' s' ys where "auxsort lt 1 (int m) (t, s) = Some (r, (t', s'))" "arr m t0 t' ys" "mset ys = mset xs"
    "case r of Inl e \<Rightarrow> \<not> w \<and> (e = ERR_TABSORT \<or> may_raise e) | Inr _ \<Rightarrow> w \<longrightarrow> sorted_in R 1 (int m) ys"
proof -
  have h: "holds (mset xs) m xs" using assms by (simp add: holds_def arr_def)
  have m: "int m < 2 ^ 30" using arrD(3) [OF assms(1)] by simp
  have "wpe (mset xs) m t0 (auxsort lt 1 (int m)) xs (\<lambda>_ ys. mset ys = mset xs \<and> (w \<longrightarrow> sorted_in R 1 (int m) ys))"
    by (rule auxsort_wp [OF h _ _ m]) (auto simp: perm_in_def)
  then have "wp m t0 (auxsort lt 1 (int m)) xs (\<lambda>_ ys. mset ys = mset xs \<and> (w \<longrightarrow> sorted_in R 1 (int m) ys))
      (\<lambda>e ys. \<not> w \<and> mset ys = mset xs \<and> (e = ERR_TABSORT \<or> may_raise e))" by (simp only: wpe_def)
  from wpE [OF this assms(1)] obtain r t' s' ys where r: "auxsort lt 1 (int m) (t, s) = Some (r, (t', s'))" "arr m t0 t' ys"
    "case r of Inr x \<Rightarrow> mset ys = mset xs \<and> (w \<longrightarrow> sorted_in R 1 (int m) ys)
       | Inl e \<Rightarrow> \<not> w \<and> mset ys = mset xs \<and> (e = ERR_TABSORT \<or> may_raise e)" .
  show thesis by (rule that [OF r(1,2)]) (use r(3) in \<open>auto split: sum.splits\<close>)
qed

end

subsection \<open>Sorting a table\<close>

lemma sorted_in_wrt:
  assumes "sorted_in R 1 (int (length xs)) xs"
  shows "sorted_wrt (\<lambda>a b. \<not> R b a) xs"
  unfolding sorted_wrt_iff_nth_less
proof (intro allI impI)
  fix i j
  assume "i < j" "j < length xs"
  moreover have "elt xs (int n + 1) = xs ! n" for n by (simp add: elt_def)
  ultimately show "\<not> R (xs ! j) (xs ! i)"
    using assms unfolding sorted_in_def by (metis add_mono1 le_add_same_cancel2 of_nat_0_le_iff of_nat_less_iff zless_imp_add1_zle)
qed

lemma table_sort_result:
  assumes order: "sort_order (sort_comp sc f) w R (set (elems n t)) may_raise"
    and "tab_ok t" "lj_tab_len t = Some n" "length (entries t) + n < 2 ^ LJ_MAX_HBITS" "f = T_nil \<or> tvisfunc f"
  obtains r t' s' where "table_sort sc f (t, s) = Some (r, (t', s'))" "tab_ok t'" "mset (elems n t') = mset (elems n t)"
    "same_outside n t t'"
    "case r of Inl e \<Rightarrow> \<not> w \<and> (e = ERR_TABSORT \<or> may_raise e) | Inr _ \<Rightarrow> w \<longrightarrow> sorted_wrt (\<lambda>a b. \<not> R b a) (elems n t')"
proof -
  from sort_order.auxsort_result [OF order arr_start [OF assms(2,4)] order_refl] obtain r t' s' ys where
    r: "auxsort (sort_comp sc f) 1 (int n) (t, s) = Some (r, (t', s'))" and t': "arr n t t' ys" "mset ys = mset (elems n t)"
    and post: "case r of Inl e \<Rightarrow> \<not> w \<and> (e = ERR_TABSORT \<or> may_raise e) | Inr _ \<Rightarrow> w \<longrightarrow> sorted_in R 1 (int n) ys" .
  have "table_sort sc f (t, s) = Some (r, (t', s'))"
    using r assms(3,5) by (auto simp: table_sort_def tab_len_def sbind_def)
  moreover have "ys = elems n t'" by (rule arr_elems [OF t'(1)])
  ultimately show thesis
    using t' post arrD(1) [OF t'(1)] arr_outside [OF t'(1) assms(2)] sorted_in_wrt [of R "elems n t'"]
    by (intro that [of r t' s']) (auto split: sum.splits)
qed

text \<open>
  C36: \<open>table.sort\<close> is safe for every order function that returns and leaves the table alone, however inconsistent
  its answers are, and whether or not the table has holes. The sort ends, its only errors are those
  of the order function and the one for an invalid order function; the elements up to the length
  are a permutation of what they were, even after an error, and every other key keeps its value.
\<close>

theorem table_sort_permutes:
  assumes "tab_ok t" "lj_tab_len t = Some n" "length (entries t) + n < 2 ^ LJ_MAX_HBITS" "f = T_nil \<or> tvisfunc f"
    and "\<And>a b t' s'. a \<in> set (elems n t) \<Longrightarrow> b \<in> set (elems n t) \<Longrightarrow>
      \<exists>r s''. sort_comp sc f a b (t', s') = Some (r, (t', s''))"
  shows "\<exists>r t' s'. table_sort sc f (t, s) = Some (r, (t', s')) \<and> tab_ok t' \<and>
    mset (elems n t') = mset (elems n t) \<and> same_outside n t t' \<and>
    (\<forall>e. r = Inl e \<longrightarrow> e = ERR_TABSORT \<or> (\<exists>a b st st'. sort_comp sc f a b st = Some (Inl e, st')))"
proof -
  have "sort_order (sort_comp sc f) False (\<lambda>_ _. False) (set (elems n t))
      (\<lambda>e. \<exists>a b st st'. sort_comp sc f a b st = Some (Inl e, st'))"
    by unfold_locales (use assms(5) in \<open>fastforce split: sum.splits\<close>)+
  from table_sort_result [OF this assms(1-4)] obtain r t' s' where
    "table_sort sc f (t, s) = Some (r, (t', s'))" "tab_ok t'" "mset (elems n t') = mset (elems n t)" "same_outside n t t'"
    "case r of Inl e \<Rightarrow> \<not> False \<and> (e = ERR_TABSORT \<or> (\<exists>a b st st'. sort_comp sc f a b st = Some (Inl e, st')))
       | Inr _ \<Rightarrow> False \<longrightarrow> sorted_wrt (\<lambda>a b. \<not> False) (elems n t')" .
  then show ?thesis by (cases r) auto
qed

text \<open>
  C35: \<open>table.sort\<close> sorts. If the order function answers with a strict weak order on the elements, the sort ends
  without error, no element is smaller than one in front of it, the elements are the same ones
  with their multiplicities, and every other key keeps its value.
\<close>

theorem table_sort_sorts:
  assumes "tab_ok t" "lj_tab_len t = Some n" "length (entries t) + n < 2 ^ LJ_MAX_HBITS" "f = T_nil \<or> tvisfunc f"
    and "strict_weak_order (set (elems n t)) R"
    and "\<And>a b t' s'. a \<in> set (elems n t) \<Longrightarrow> b \<in> set (elems n t) \<Longrightarrow>
      \<exists>s''. sort_comp sc f a b (t', s') = Some (Inr (R a b), (t', s''))"
  shows "\<exists>t' s'. table_sort sc f (t, s) = Some (Inr (), (t', s')) \<and> tab_ok t' \<and>
    sorted_wrt (\<lambda>a b. \<not> R b a) (elems n t') \<and> mset (elems n t') = mset (elems n t) \<and> same_outside n t t'"
proof -
  have "sort_order (sort_comp sc f) True R (set (elems n t)) (\<lambda>_. False)"
    by unfold_locales (use assms(5,6) in \<open>fastforce split: sum.splits\<close>)+
  from table_sort_result [OF this assms(1-4)] obtain r t' s' where
    "table_sort sc f (t, s) = Some (r, (t', s'))" "tab_ok t'" "mset (elems n t') = mset (elems n t)" "same_outside n t t'"
    "case r of Inl e \<Rightarrow> \<not> True \<and> (e = ERR_TABSORT \<or> False) | Inr _ \<Rightarrow> True \<longrightarrow> sorted_wrt (\<lambda>a b. \<not> R b a) (elems n t')" .
  then show ?thesis by (cases r) auto
qed

subsection \<open>The default order\<close>

fun value_less :: "TValue \<Rightarrow> TValue \<Rightarrow> bool" where
  "value_less (T_num x) (T_num y) = num_lt x y"
| "value_less (T_str a) (T_str b) = str_less a b"
| "value_less _ _ = False"

definition number_values :: "TValue set" where
  "number_values = {T_num w |w. \<not> tvisnan w}"

definition string_values :: "TValue set" where
  "string_values = {T_str a |a. length a < LJ_MAX_STR}"

lemma str_less_asym: "str_less a b \<Longrightarrow> \<not> str_less b a"
  by (induction a b rule: str_less.induct) auto

lemma str_less_split: "str_less a c \<Longrightarrow> str_less a b \<or> str_less b c"
proof (induction a c arbitrary: b rule: str_less.induct)
  case (2 c cs)
  then show ?case by (cases b) auto
next
  case (3 x xs y ys)
  then show ?case by (cases b) (auto simp: not_less)
qed simp

interpretation num_order: sort_order "sort_comp sc T_nil" True value_less number_values "\<lambda>_. False" for sc :: "'s script"
proof
  show "\<exists>r s'. sort_comp sc T_nil a b (t, s) = Some (r, (t, s')) \<and> (True \<longrightarrow> r = Inr (value_less a b)) \<and>
      (case r of Inl e \<Rightarrow> False | Inr _ \<Rightarrow> True)" if "a \<in> number_values" "b \<in> number_values" for a b t and s :: 's
    using that by (auto simp: number_values_def sort_comp_def lua_lessthan_def sret_def)
  show "strict_weak_order number_values value_less"
    by (auto simp: strict_weak_order_def number_values_def num_lt_def)
qed

interpretation str_order: sort_order "sort_comp sc T_nil" True value_less string_values "\<lambda>_. False" for sc :: "'s script"
proof
  show "\<exists>r s'. sort_comp sc T_nil a b (t, s) = Some (r, (t, s')) \<and> (True \<longrightarrow> r = Inr (value_less a b)) \<and>
      (case r of Inl e \<Rightarrow> False | Inr _ \<Rightarrow> True)" if "a \<in> string_values" "b \<in> string_values" for a b t and s :: 's
    using that by (auto simp: string_values_def sort_comp_def lua_lessthan_def lj_meta_comp_def sret_def lj_str_cmp_sign)
  show "strict_weak_order string_values value_less"
    unfolding strict_weak_order_def
  proof (intro conjI ballI impI)
    fix a b
    assume "a \<in> string_values" "b \<in> string_values" "value_less a b"
    then show "\<not> value_less b a" by (auto simp: string_values_def str_less_asym)
  next
    fix a b c
    assume "a \<in> string_values" "b \<in> string_values" "c \<in> string_values" "value_less a c"
    then obtain x y z where "a = T_str x" "b = T_str y" "c = T_str z" "str_less x z" by (auto simp: string_values_def)
    then show "value_less a b \<or> value_less b c" using str_less_split [of x z y] by simp
  qed
qed

text \<open>
  C37: without an order function \<open>table.sort\<close> sorts numbers other than NaN by value and strings by their bytes, for
  every script and whatever bytes follow the strings in memory.
\<close>

theorem table_sort_default:
  assumes "tab_ok t" "lj_tab_len t = Some n" "length (entries t) + n < 2 ^ LJ_MAX_HBITS"
    and "set (elems n t) \<subseteq> number_values \<or> set (elems n t) \<subseteq> string_values"
  shows "\<exists>t' s'. table_sort sc T_nil (t, s) = Some (Inr (), (t', s')) \<and> tab_ok t' \<and>
    sorted_wrt (\<lambda>a b. \<not> value_less b a) (elems n t') \<and> mset (elems n t') = mset (elems n t) \<and> same_outside n t t'"
proof -
  have "sort_order (sort_comp sc T_nil) True value_less (set (elems n t)) (\<lambda>_. False)"
    using assms(4) num_order.subset str_order.subset by blast
  from table_sort_result [OF this assms(1-3)] obtain r t' s' where
    "table_sort sc T_nil (t, s) = Some (r, (t', s'))" "tab_ok t'" "mset (elems n t') = mset (elems n t)" "same_outside n t t'"
    "case r of Inl e \<Rightarrow> \<not> True \<and> (e = ERR_TABSORT \<or> False)
       | Inr _ \<Rightarrow> True \<longrightarrow> sorted_wrt (\<lambda>a b. \<not> value_less b a) (elems n t')" by blast
  then show ?thesis by (cases r) auto
qed

subsection \<open>Examples\<close>

lemma three_table_numbers: "set (elems 3 three_table) \<subseteq> number_values"
  using num_of_int_good by (auto simp: three_table_ok number_values_def good_key_num)

definition always_script :: "unit script" where
  "always_script = \<lparr>sc_call = \<lambda>f args. sret (T_bool True), sc_mm_lt = \<lambda>s v. T_nil, sc_behind = \<lambda>a. []\<rparr>"

theorem table_sort_permutes_witness:
  "\<exists>r t' s'. table_sort always_script (T_gc LJ_TFUNC 0) (three_table, ()) = Some (r, (t', s')) \<and> tab_ok t' \<and>
    mset (elems 3 t') = mset (elems 3 three_table) \<and> same_outside 3 three_table t' \<and>
    (\<forall>e. r = Inl e \<longrightarrow> e = ERR_TABSORT \<or> (\<exists>a b st st'. sort_comp always_script (T_gc LJ_TFUNC 0) a b st = Some (Inl e, st')))"
  by (rule table_sort_permutes [OF three_table_ok(1-3)]) (simp_all add: sort_comp_def always_script_def sret_def)

definition greater_script :: "unit script" where
  "greater_script = \<lparr>sc_call = \<lambda>f args. sret (T_bool (value_less (args ! 1) (args ! 0))), sc_mm_lt = \<lambda>s v. T_nil, sc_behind = \<lambda>a. []\<rparr>"

theorem table_sort_sorts_witness:
  "\<exists>t' s'. table_sort greater_script (T_gc LJ_TFUNC 0) (three_table, ()) = Some (Inr (), (t', s')) \<and> tab_ok t' \<and>
    sorted_wrt (\<lambda>a b. \<not> value_less a b) (elems 3 t') \<and> mset (elems 3 t') = mset (elems 3 three_table) \<and> same_outside 3 three_table t'"
proof (rule table_sort_sorts [OF three_table_ok(1-3)])
  show "strict_weak_order (set (elems 3 three_table)) (\<lambda>a b. value_less b a)"
    using three_table_numbers num_order.order unfolding strict_weak_order_def by blast
qed (simp_all add: sort_comp_def greater_script_def sret_def tvistruecond_def)

theorem table_sort_default_witness:
  "\<exists>t' s'. table_sort always_script T_nil (three_table, ()) = Some (Inr (), (t', s')) \<and> tab_ok t' \<and>
    sorted_wrt (\<lambda>a b. \<not> value_less b a) (elems 3 t') \<and> mset (elems 3 t') = mset (elems 3 three_table) \<and> same_outside 3 three_table t'"
  by (rule table_sort_default [OF three_table_ok(1-3)]) (simp add: three_table_numbers)

end
