(* ===== verification/Lj_Tablib_Lists.thy ===== *)
theory Lj_Tablib_Lists
  imports Lj_Tablib_Array
begin

text \<open>
  The table library on sequences, tables whose integer keys are those from one to the length: inserting,
  removing and concatenating are the operations on lists. Removing from a table with a hole in
  front of its border reads memory that is free already.
\<close>

subsection \<open>Small keys\<close>

lemma ikeys_bits: "num_of_int 1 = 0x3ff0000000000000" "num_of_int 2 = 0x4000000000000000" "num_of_int 3 = 0x4008000000000000"
   "num_of_int 4 = 0x4010000000000000" "num_of_int 5 = 0x4014000000000000" "num_of_int 6 = 0x4018000000000000" "num_of_int 8 = 0x4020000000000000"
proof -
  have f: "fls_nat 1 = 0" "fls_nat 2 = 1" "fls_nat 3 = 1" "fls_nat 4 = 2" "fls_nat 5 = 2" "fls_nat 6 = 2" "fls_nat 8 = 3"
    by (rule fls_nat_unique; simp)+
  show "num_of_int 1 = 0x3ff0000000000000" "num_of_int 2 = 0x4000000000000000" "num_of_int 3 = 0x4008000000000000"
   "num_of_int 4 = 0x4010000000000000" "num_of_int 5 = 0x4014000000000000" "num_of_int 6 = 0x4018000000000000" "num_of_int 8 = 0x4020000000000000"
    by (simp_all add: num_of_int_def f [simplified])
qed

subsection \<open>Sequences\<close>

definition sequence :: "GCtab \<Rightarrow> TValue list \<Rightarrow> bool" where
  "sequence t xs \<longleftrightarrow> tab_ok t \<and> T_nil \<notin> set xs \<and>
     (\<forall>i. 1 \<le> i \<longrightarrow> i < 2 ^ 31 \<longrightarrow> lj_tab_get t (ikey i) = Some (if i \<le> int (length xs) then elt xs i else T_nil))"

lemma sequence_lookup:
  assumes "sequence t xs" "1 \<le> i" "i < 2 ^ 31"
  shows "lookup t (ikey i) = (if i \<le> int (length xs) then elt xs i else T_nil)"
  using assms get_ikey [of t i] by (auto simp: sequence_def)

lemma elt_not_nil: "T_nil \<notin> set xs \<Longrightarrow> 1 \<le> i \<Longrightarrow> i \<le> int (length xs) \<Longrightarrow> elt xs i \<noteq> T_nil"
  by (auto simp: elt_def in_set_conv_nth)

text \<open>A sequence is not longer than the table has entries.\<close>

lemma sequence_short:
  assumes "sequence t xs" "length (entries t) < 2 ^ LJ_MAX_HBITS"
  shows "length xs \<le> length (entries t)"
proof (rule ccontr)
  have ok: "tab_ok t" using assms(1) by (simp add: sequence_def)
  assume "\<not> ?thesis"
  then have n: "Suc (length (entries t)) \<le> length xs" "Suc (length (entries t)) < 2 ^ 31" using assms(2) by auto
  let ?n = "Suc (length (entries t))"
  have "ikeys ?n \<subseteq> {k. good_key k \<and> lookup t k \<noteq> T_nil}"
  proof
    fix k
    assume "k \<in> ikeys ?n"
    then obtain i where i: "k = ikey (int i)" "1 \<le> i" "i \<le> ?n" by (auto simp: ikeys_def)
    have "lookup t k \<noteq> T_nil"
      using sequence_lookup [OF assms(1), of "int i"] elt_not_nil [of xs "int i"] assms(1) i n by (simp add: sequence_def)
    moreover have "good_key k" unfolding i(1) by (rule num_of_int_good) (use i n in auto)
    ultimately show "k \<in> {k. good_key k \<and> lookup t k \<noteq> T_nil}" by simp
  qed
  then have "card (ikeys ?n) \<le> length (entries t)"
    unfolding entries_card(1) [OF ok] by (rule card_mono [OF entries_card(2) [OF ok]])
  moreover have "inj_on (\<lambda>i. ikey (int i)) {1..?n}"
    by (rule inj_onI) (use n ikey_eq in auto)
  then have "card (ikeys ?n) = ?n" unfolding ikeys_def by (simp add: card_image)
  ultimately show False by simp
qed

lemma sequence_len:
  assumes "sequence t xs" "length xs < 2 ^ LJ_MAX_HBITS"
  shows "lj_tab_len t = Some (length xs)"
proof -
  have ok: "tab_ok t" using assms(1) by (simp add: sequence_def)
  have p: "present t j \<longleftrightarrow> j \<le> length xs" if "1 \<le> j" "j < 2 ^ 31" for j
    using sequence_lookup [OF assms(1), of "int j"] elt_not_nil [of xs "int j"] assms(1) that
    by (auto simp: present_def sequence_def)
  obtain n where n: "lj_tab_len t = Some n" "border t n" by (rule lj_tab_len_ok [OF ok])
  then have "n = length xs" using p [of n] p [of "Suc n"] assms(2) by (cases "n = 0") (auto simp: border_def le_Suc_eq not_less_eq_eq)
  with n(1) show ?thesis by simp
qed

text \<open>A sequence as the segment of its first \<open>m\<close> indices, and back.\<close>

lemma sequence_arr:
  assumes "sequence t xs" "length (entries t) < 2 ^ 25" "m = length xs \<or> m = Suc (length xs)"
  shows "arr m t t (elems m t)" "m < 2 ^ LJ_MAX_HBITS" "1 \<le> i \<Longrightarrow> i \<le> int (length xs) \<Longrightarrow> elt (elems m t) i = elt xs i"
proof -
  have ok: "tab_ok t" using assms(1) by (simp add: sequence_def)
  have short: "length xs \<le> length (entries t)" by (rule sequence_short [OF assms(1)]) (use assms(2) in simp)
  with assms(2,3) show "arr m t t (elems m t)" by (intro arr_start [OF ok]) auto
  show m: "m < 2 ^ LJ_MAX_HBITS" using short assms(2,3) by auto
  show "elt (elems m t) i = elt xs i" if "1 \<le> i" "i \<le> int (length xs)"
    using elt_elems [OF ok m, of i] sequence_lookup [OF assms(1), of i] that assms(3) m by auto
qed

lemma arr_sequence:
  assumes "sequence t xs" "arr m t t' ys" "length zs \<le> m" "length xs \<le> m" "T_nil \<notin> set zs"
    and "\<And>i. 1 \<le> i \<Longrightarrow> i \<le> int m \<Longrightarrow> elt ys i = (if i \<le> int (length zs) then elt zs i else T_nil)"
  shows "sequence t' zs"
  unfolding sequence_def
proof (intro conjI allI impI)
  show ok: "tab_ok t'" by (rule arrD(1) [OF assms(2)])
  fix i :: int
  assume i: "1 \<le> i" "i < 2 ^ 31"
  have "lookup t' (ikey i) = (if i \<le> int (length zs) then elt zs i else T_nil)"
  proof (cases "i \<le> int m")
    case True
    with arrD(4) [OF assms(2) i(1)] assms(6) [OF i(1)] show ?thesis by simp
  next
    case False
    have "ikey i \<notin> ikeys m"
    proof
      assume "ikey i \<in> ikeys m"
      then obtain j where "ikey i = ikey (int j)" "1 \<le> j" "j \<le> m" by (auto simp: ikeys_def)
      with ikey_eq [of i "int j"] i arrD(3) [OF assms(2)] False show False by auto
    qed
    with arrD(5) [OF assms(2) num_of_int_good, of i] i sequence_lookup [OF assms(1) i] False assms(3,4) show ?thesis by auto
  qed
  with get_ikey [OF ok, of i] i show "lj_tab_get t' (ikey i) = Some (if i \<le> int (length zs) then elt zs i else T_nil)" by simp
qed (rule assms(5))

subsection \<open>Moving elements\<close>

lemma insert_shift_arr:
  assumes "arr m t0 t xs" "1 \<le> n" "n \<le> i" "i \<le> int m"
  obtains t' ys where "insert_shift n i (t, s) = Some (Inr (), (t', s))" "arr m t0 t' ys"
    "\<And>k. 1 \<le> k \<Longrightarrow> elt ys k = (if n < k \<and> k \<le> i then elt xs (k - 1) else elt xs k)"
  using assms(1,3,4)
proof (induction "nat (i - n)" arbitrary: i t xs thesis)
  case 0
  then have "i = n" by simp
  show ?case by (rule 0(2) [OF _ 0(3)]) (use \<open>i = n\<close> in \<open>auto simp: insert_shift.simps [of n n] sret_def\<close>)
next
  case (Suc d)
  have i: "n < i" "1 \<le> i - 1" "i - 1 \<le> int m" "1 \<le> i" using Suc.hyps(2) Suc.prems(3,4) assms(2) by auto
  note len = arrD(2) [OF Suc.prems(2)]
  from arr_insert_copy [OF Suc.prems(2) i(4) Suc.prems(4) i(2,3)] obtain t1 where
    t1: "insert_copy i (i - 1) (t, s) = Some (Inr (), (t1, s))" "arr m t0 t1 (upd xs i (elt xs (i - 1)))" .
  have d: "d = nat (i - 1 - n)" using Suc.hyps(2) by simp
  obtain t' ys where r: "insert_shift n (i - 1) (t1, s) = Some (Inr (), (t', s))" "arr m t0 t' ys"
    "\<And>k. 1 \<le> k \<Longrightarrow> elt ys k = (if n < k \<and> k \<le> i - 1 then elt (upd xs i (elt xs (i - 1))) (k - 1) else elt (upd xs i (elt xs (i - 1))) k)"
    using Suc.hyps(1) [OF d _ t1(2)] i by (metis zle_diff1_eq)
  show ?case
  proof (rule Suc.prems(1) [OF _ r(2)])
    show "insert_shift n i (t, s) = Some (Inr (), (t', s))"
      using i(1) r(1) t1(1) by (simp add: insert_shift.simps [of n i] sbind_eqs)
    show "elt ys k = (if n < k \<and> k \<le> i then elt xs (k - 1) else elt xs k)" if "1 \<le> k" for k
      using r(3) [OF that] elt_upd [of i xs k] elt_upd [of i xs "k - 1"] that i assms(2) Suc.prems(4) len by auto
  qed
qed

lemma remove_shift_arr:
  assumes "arr m t0 t xs" "1 \<le> p" "p \<le> e" "e \<le> int m" "T_nil \<notin> set xs"
  obtains t' ys where "remove_shift p e (t, s) = Some (Inr (), (t', s))" "arr m t0 t' ys"
    "\<And>k. 1 \<le> k \<Longrightarrow> elt ys k = (if p \<le> k \<and> k < e then elt xs (k + 1) else elt xs k)"
  using assms(1-3,5)
proof (induction "nat (e - p)" arbitrary: p t xs thesis)
  case 0
  then have "e = p" by simp
  show ?case by (rule 0(2) [OF _ 0(3)]) (use \<open>e = p\<close> in \<open>auto simp: remove_shift.simps [of p p] sret_def\<close>)
next
  case (Suc d)
  have p: "p < e" "1 \<le> p + 1" "p + 1 \<le> int m" "p \<le> int m" using Suc.hyps(2) Suc.prems(3,4) assms(4) by auto
  note len = arrD(2) [OF Suc.prems(2)]
  have "elt xs p \<noteq> T_nil" using elt_not_nil [OF Suc.prems(5) Suc.prems(3)] p(4) len by simp
  from arr_remove_copy [OF Suc.prems(2,3) p(4,2,3) this] obtain t1 where
    t1: "remove_copy p (p + 1) (t, s) = Some (Inr (), (t1, s))" "arr m t0 t1 (upd xs p (elt xs (p + 1)))" .
  have "elt xs (p + 1) \<noteq> T_nil" using elt_not_nil [OF Suc.prems(5) p(2)] p(3) len by simp
  then have nn: "T_nil \<notin> set (upd xs p (elt xs (p + 1)))"
    using set_update_subset_insert [of xs "nat (p - 1)" "elt xs (p + 1)"] Suc.prems(5) by (auto simp: upd_def)
  have d: "d = nat (e - (p + 1))" using Suc.hyps(2) by simp
  obtain t' ys where r: "remove_shift (p + 1) e (t1, s) = Some (Inr (), (t', s))" "arr m t0 t' ys"
    "\<And>k. 1 \<le> k \<Longrightarrow> elt ys k = (if p + 1 \<le> k \<and> k < e then elt (upd xs p (elt xs (p + 1))) (k + 1) else elt (upd xs p (elt xs (p + 1))) k)"
    using Suc.hyps(1) [OF d _ t1(2) p(2) _ nn] p(1) by (metis zless_imp_add1_zle)
  show ?case
  proof (rule Suc.prems(1) [OF _ r(2)])
    show "remove_shift p e (t, s) = Some (Inr (), (t', s))"
      using p(1) r(1) t1(1) by (simp add: remove_shift.simps [of p e] sbind_eqs)
    show "elt ys k = (if p \<le> k \<and> k < e then elt xs (k + 1) else elt xs k)" if "1 \<le> k" for k
      using r(3) [OF that] elt_upd [of p xs k] elt_upd [of p xs "k + 1"] that p Suc.prems(3) len by auto
  qed
qed

subsection \<open>Inserting and removing\<close>

definition list_insert :: "nat \<Rightarrow> 'a \<Rightarrow> 'a list \<Rightarrow> 'a list" where
  "list_insert p v xs = take (p - 1) xs @ v # drop (p - 1) xs"

definition list_remove :: "nat \<Rightarrow> 'a list \<Rightarrow> 'a list" where
  "list_remove p xs = take (p - 1) xs @ drop p xs"

lemma elt_list_insert:
  assumes "1 \<le> p" "p \<le> Suc (length xs)" "1 \<le> k" "k \<le> int (Suc (length xs))"
  shows "elt (list_insert p v xs) k = (if k < int p then elt xs k else if k = int p then v else elt xs (k - 1))"
proof -
  have "nat (k - 1) - p = nat (k - 2) - (p - 1)" if "k > int p" using that assms(1) by linarith
  then show ?thesis
    using assms by (auto simp: elt_def list_insert_def nth_append nth_Cons' min_def nat_diff_distrib)
qed

lemma elt_list_remove:
  assumes "1 \<le> p" "p \<le> length xs" "1 \<le> k" "k < int (length xs)"
  shows "elt (list_remove p xs) k = (if k < int p then elt xs k else elt xs (k + 1))"
proof -
  have "Suc (nat (k - 1)) = nat k" using assms(3) by linarith
  with assms show ?thesis by (auto simp: elt_def list_remove_def nth_append min_def)
qed

lemma insert_at:
  assumes "sequence t xs" "length (entries t) < 2 ^ 25" "v \<noteq> T_nil" "1 \<le> p" "p \<le> Suc (length xs)"
  obtains t' where "table_insert (Insert_at (int p) v) (t, s) = Some (Inr (), (t', s))" "sequence t' (list_insert p v xs)"
    "same_outside (Suc (length xs)) t t'"
proof -
  let ?m = "Suc (length xs)"
  have ok: "tab_ok t" using assms(1) by (simp add: sequence_def)
  note S = sequence_arr [OF assms(1,2), of ?m, simplified]
  have len: "lj_tab_len t = Some (length xs)" by (rule sequence_len [OF assms(1)]) (use S(2) in simp)
  have p: "1 \<le> int p" "int p \<le> int ?m" using assms(4,5) by auto
  from insert_shift_arr [OF S(1) p order_refl] obtain t1 ys where
    t1: "insert_shift (int p) (int ?m) (t, s) = Some (Inr (), (t1, s))" "arr ?m t t1 ys"
    and ys: "\<And>k. 1 \<le> k \<Longrightarrow> elt ys k = (if int p < k \<and> k \<le> int ?m then elt (elems ?m t) (k - 1) else elt (elems ?m t) k)" by metis
  from arr_set [OF t1(2) p] obtain t' where
    t': "lua_rawseti (int p) v (t1, s) = Some (Inr (), (t', s))" "arr ?m t t' (upd ys (int p) v)" .
  have "table_insert (Insert_at (int p) v) (t, s) = Some (Inr (), (t', s))"
    using t1(1) t'(1) by (simp add: table_insert_def tab_len_def len sbind_def add.commute)
  moreover have "sequence t' (list_insert p v xs)"
  proof (rule arr_sequence [OF assms(1) t'(2)])
    show "T_nil \<notin> set (list_insert p v xs)"
      using assms(1,3) by (auto simp: list_insert_def sequence_def dest: in_set_takeD in_set_dropD)
    show "elt (upd ys (int p) v) i = (if i \<le> int (length (list_insert p v xs)) then elt (list_insert p v xs) i else T_nil)"
      if "1 \<le> i" "i \<le> int ?m" for i
      using elt_upd [of "int p" ys i v] ys [OF that(1)] elt_list_insert [OF assms(4,5) that] S(3) [of i] S(3) [of "i - 1"]
        that p arrD(2) [OF t1(2)] by (auto simp: list_insert_def)
  qed (use assms(5) in \<open>auto simp: list_insert_def\<close>)
  moreover have "same_outside ?m t t'" by (rule arr_outside [OF t'(2) ok])
  ultimately show thesis by (rule that)
qed

lemma remove_at:
  assumes "sequence t xs" "length (entries t) < 2 ^ 25" "1 \<le> p" "p \<le> length xs"
  obtains t' where "table_remove (Some (int p)) (t, s) = Some (Inr [xs ! (p - 1)], (t', s))" "sequence t' (list_remove p xs)"
    "same_outside (length xs) t t'"
proof -
  let ?m = "length xs"
  have ok: "tab_ok t" and nn: "T_nil \<notin> set xs" using assms(1) by (simp_all add: sequence_def)
  note S = sequence_arr [OF assms(1,2), of ?m, simplified]
  have len: "lj_tab_len t = Some (length xs)" by (rule sequence_len [OF assms(1)]) (use S(2) in simp)
  have e: "elems ?m t = xs"
  proof (rule nth_equalityI)
    show "elems ?m t ! i = xs ! i" if "i < length (elems ?m t)" for i
      using S(3) [of "int i + 1"] that by (simp add: elt_def)
  qed simp
  note arr = S(1) [unfolded e]
  have p: "1 \<le> int p" "int p \<le> int ?m" "1 \<le> int ?m" using assms(3,4) by auto
  have get: "lua_rawgeti (int p) (t, s) = Some (Inr (xs ! (p - 1)), (t, s))"
    using arr_get [OF arr p(1,2)] assms(3) by (simp add: elt_def nat_diff_distrib)
  from remove_shift_arr [OF arr p(1,2) order_refl nn] obtain t1 ys where
    t1: "remove_shift (int p) (int ?m) (t, s) = Some (Inr (), (t1, s))" "arr ?m t t1 ys"
    and ys: "\<And>k. 1 \<le> k \<Longrightarrow> elt ys k = (if int p \<le> k \<and> k < int ?m then elt xs (k + 1) else elt xs k)" by metis
  from arr_set [OF t1(2) p(3) order_refl] obtain t' where
    t': "lua_rawseti (int ?m) T_nil (t1, s) = Some (Inr (), (t', s))" "arr ?m t t' (upd ys (int ?m) T_nil)" .
  have "table_remove (Some (int p)) (t, s) = Some (Inr [xs ! (p - 1)], (t', s))"
    using get t1(1) t'(1) p by (simp add: table_remove_def Let_def tab_len_def len sbind_def sret_def)
  moreover have "sequence t' (list_remove p xs)"
  proof (rule arr_sequence [OF assms(1) t'(2)])
    show "T_nil \<notin> set (list_remove p xs)"
      using nn by (auto simp: list_remove_def dest: in_set_takeD in_set_dropD)
    show "elt (upd ys (int ?m) T_nil) i = (if i \<le> int (length (list_remove p xs)) then elt (list_remove p xs) i else T_nil)"
      if "1 \<le> i" "i \<le> int ?m" for i
      using elt_upd [of "int ?m" ys i T_nil] ys [OF that(1)] elt_list_remove [OF assms(3,4) that(1)]
        that p arrD(2) [OF t1(2)] by (auto simp: list_remove_def)
  qed (use assms(3,4) in \<open>auto simp: list_remove_def\<close>)
  moreover have "same_outside ?m t t'" by (rule arr_outside [OF t'(2) ok])
  ultimately show thesis by (rule that)
qed

lemma three_table_sequence:
  "sequence three_table [T_num (num_of_int 3), T_num (num_of_int 1), T_num (num_of_int 2)]" "length (entries three_table) < 2 ^ 25"
proof -
  have low: "lj_tab_get three_table (ikey i) = Some (elt [T_num (num_of_int 3), T_num (num_of_int 1), T_num (num_of_int 2)] i)"
    if "1 \<le> i" "i \<le> 3" for i
    using elt_elems [OF three_table_ok(1), of 3 i] get_ikey [OF three_table_ok(1), of i] that by (simp add: three_table_ok)
  have high: "lj_tab_get three_table (ikey i) = Some T_nil" if i: "3 < i" "i < 2 ^ 31" for i
  proof -
    have "\<not> inarray three_table i" using inarray_int32 [of i three_table] i by (simp add: three_table_def asize_def)
    moreover have "lj_tab_getinth three_table i = Some None"
      by (simp add: lj_tab_getinth_def hashkey_def hashmask_def hmask_def three_table_def chain_find.simps empty_node_def)
    ultimately show ?thesis using i by (simp add: lj_tab_get_def get_slot_ikey lj_tab_getint_def)
  qed
  show "sequence three_table [T_num (num_of_int 3), T_num (num_of_int 1), T_num (num_of_int 2)]"
    using low high by (auto simp: sequence_def three_table_ok)
  show "length (entries three_table) < 2 ^ 25"
    by (simp add: entries_def arr_entries_def node_entries_def three_table_def)
qed

text \<open>
  C38: on a sequence \<open>table.insert\<close> is insertion into a list. For every position up to the one behind the end, and
  without a position at the end, it ends without error, the table is the sequence with the value
  inserted, although the shift may have made it rehash, and no key other than the indices of the
  new sequence changes its value.
\<close>

theorem table_insert_list:
  assumes "sequence t xs" "length (entries t) < 2 ^ 25" "v \<noteq> T_nil"
  shows "(1 \<le> p \<and> p \<le> Suc (length xs) \<longrightarrow> (\<exists>t'. table_insert (Insert_at (int p) v) (t, s) = Some (Inr (), (t', s)) \<and>
        sequence t' (list_insert p v xs) \<and> same_outside (Suc (length xs)) t t')) \<and>
    (\<exists>t'. table_insert (Append v) (t, s) = Some (Inr (), (t', s)) \<and> sequence t' (xs @ [v]) \<and> same_outside (Suc (length xs)) t t')"
proof -
  have at: "\<exists>t'. table_insert (Insert_at (int p) v) (t, s) = Some (Inr (), (t', s)) \<and>
      sequence t' (list_insert p v xs) \<and> same_outside (Suc (length xs)) t t'" if "1 \<le> p" "p \<le> Suc (length xs)" for p
    using insert_at [OF assms that] by metis
  have "lj_tab_len t = Some (length xs)"
    by (rule sequence_len [OF assms(1)]) (use sequence_arr(2) [OF assms(1,2)] in simp)
  then have "table_insert (Append v) (t, s) = table_insert (Insert_at (int (Suc (length xs))) v) (t, s)"
    by (simp add: table_insert_def tab_len_def sbind_def insert_shift.simps [of "1 + int (length xs)"] sret_def add.commute)
  moreover have "list_insert (Suc (length xs)) v xs = xs @ [v]" by (simp add: list_insert_def)
  ultimately show ?thesis using at [of p] at [of "Suc (length xs)"] by auto
qed

theorem table_insert_list_witness:
  "\<exists>t'. table_insert (Insert_at 2 (T_bool True)) (three_table, ()) = Some (Inr (), (t', ())) \<and>
    sequence t' [T_num (num_of_int 3), T_bool True, T_num (num_of_int 1), T_num (num_of_int 2)] \<and> same_outside 4 three_table t'"
  using table_insert_list [OF three_table_sequence, of "T_bool True" 2 "()"] by (simp add: list_insert_def eval_nat_numeral)

text \<open>
  C39: on a sequence \<open>table.remove\<close> is removal from a list. It returns the element at the position, the last one
  without a position, and leaves the sequence without it, all other keys as they were; a position
  outside of the sequence removes and returns nothing.
\<close>

theorem table_remove_list:
  assumes "sequence t xs" "length (entries t) < 2 ^ 25"
  shows "(1 \<le> p \<and> p \<le> length xs \<longrightarrow> (\<exists>t'. table_remove (Some (int p)) (t, s) = Some (Inr [xs ! (p - 1)], (t', s)) \<and>
        sequence t' (list_remove p xs) \<and> same_outside (length xs) t t')) \<and>
    (xs \<noteq> [] \<longrightarrow> (\<exists>t'. table_remove None (t, s) = Some (Inr [last xs], (t', s)) \<and>
        sequence t' (butlast xs) \<and> same_outside (length xs) t t')) \<and>
    (i < 1 \<or> int (length xs) < i \<longrightarrow> table_remove (Some i) (t, s) = Some (Inr [], (t, s)))"
proof -
  have at: "\<exists>t'. table_remove (Some (int p)) (t, s) = Some (Inr [xs ! (p - 1)], (t', s)) \<and>
      sequence t' (list_remove p xs) \<and> same_outside (length xs) t t'" if "1 \<le> p" "p \<le> length xs" for p
    using remove_at [OF assms that] by metis
  have len: "lj_tab_len t = Some (length xs)"
    by (rule sequence_len [OF assms(1)]) (use sequence_arr(2) [OF assms(1,2)] in simp)
  then have "table_remove None (t, s) = table_remove (Some (int (length xs))) (t, s)"
    by (simp add: table_remove_def Let_def tab_len_def sbind_def)
  moreover have "list_remove (length xs) xs = butlast xs" by (simp add: list_remove_def butlast_conv_take)
  moreover have "table_remove (Some i) (t, s) = Some (Inr [], (t, s))" if "i < 1 \<or> int (length xs) < i"
    using that len by (auto simp: table_remove_def Let_def tab_len_def sbind_def sret_def)
  ultimately show ?thesis using at [of p] at [of "length xs"] by (cases "xs = []") (auto simp: last_conv_nth Suc_le_eq)
qed

theorem table_remove_list_witness:
  "\<exists>t'. table_remove (Some 2) (three_table, ()) = Some (Inr [T_num (num_of_int 1)], (t', ())) \<and>
    sequence t' [T_num (num_of_int 3), T_num (num_of_int 2)] \<and> same_outside 3 three_table t'"
  using table_remove_list [OF three_table_sequence, of 2 "()" 0] by (simp add: list_remove_def eval_nat_numeral)

subsection \<open>Concatenation\<close>

fun join :: "string \<Rightarrow> string list \<Rightarrow> string" where
  "join sep [] = []"
| "join sep [x] = x"
| "join sep (x # xs) = x @ sep @ join sep xs"

lemma concat_loop_joins:
  assumes "arr m t0 t xs" "1 \<le> i" "i \<le> e" "e \<le> int m" "\<And>k. i \<le> k \<Longrightarrow> k \<le> e \<Longrightarrow> value_text numfmt (elt xs k) = Some (x k)"
  shows "concat_loop numfmt sep i e b (t, s) = Some (Inr (b @ join sep (map x [i..e])), (t, s))"
  using assms(2,3,5)
proof (induction "nat (e - i)" arbitrary: i b)
  case 0
  then have "i = e" by simp
  with 0 assms(4) arr_get [OF assms(1), of i s] show ?case
    by (simp add: concat_loop.simps [of _ _ e e] sbind_eqs sret_def)
next
  case (Suc d)
  then have i: "i < e" "i + 1 \<le> e" "d = nat (e - (i + 1))" by auto
  have "concat_loop numfmt sep (i + 1) e (b @ x i @ sep) (t, s) = Some (Inr ((b @ x i @ sep) @ join sep (map x [i + 1..e])), (t, s))"
    using Suc.prems i by (intro Suc.hyps(1)) auto
  moreover have "[i..e] = i # (i + 1) # [i + 2..e]" using i by (simp add: upto_rec1 add.commute)
  moreover have "[i + 1..e] = (i + 1) # [i + 2..e]" using i by (simp add: upto_rec1 add.commute)
  ultimately show ?case
    using Suc.prems i arr_get [OF assms(1), of i s] assms(4) by (simp add: concat_loop.simps [of _ _ i e] sbind_eqs)
qed

lemma concat_loop_fails:
  assumes "arr m t0 t xs" "1 \<le> i" "i \<le> j" "j \<le> e" "e \<le> int m" "\<And>k. i \<le> k \<Longrightarrow> k < j \<Longrightarrow> value_text numfmt (elt xs k) \<noteq> None"
    and "value_text numfmt (elt xs j) = None"
  shows "concat_loop numfmt sep i e b (t, s) = Some (Inl (ERR_TABCAT (elt xs j) j), (t, s))"
  using assms(2,3,6)
proof (induction "nat (j - i)" arbitrary: i b)
  case 0
  then have "i = j" by simp
  with 0 assms(4,5,7) arr_get [OF assms(1), of i s] show ?case
    by (simp add: concat_loop.simps [of _ _ j e] sbind_eqs serr_def)
next
  case (Suc d)
  then have i: "i < j" "i + 1 \<le> j" "d = nat (j - (i + 1))" by auto
  obtain x where x: "value_text numfmt (elt xs i) = Some x" using Suc.prems(3) [of i] i by auto
  have "concat_loop numfmt sep (i + 1) e (b @ x @ sep) (t, s) = Some (Inl (ERR_TABCAT (elt xs j) j), (t, s))"
    using Suc.prems i by (intro Suc.hyps(1)) auto
  with x Suc.prems i arr_get [OF assms(1), of i s] assms(4,5) show ?case
    by (simp add: concat_loop.simps [of _ _ i e] sbind_eqs)
qed

text \<open>
  On a sequence \<open>table.concat\<close> joins the texts of the elements with the separator between them, and does not
  change the table. If an element is neither a string nor a number, the error names the first such
  element and its index.
\<close>

theorem table_concat_joins:
  assumes "sequence t xs" "length (entries t) < 2 ^ 25"
  shows "if \<forall>v \<in> set xs. value_text numfmt v \<noteq> None
    then table_concat numfmt (Some sep) None None (t, s) =
      Some (Inr (join sep (map (\<lambda>v. the (value_text numfmt v)) xs)), (t, s))
    else \<exists>k < length xs. value_text numfmt (xs ! k) = None \<and> (\<forall>j < k. value_text numfmt (xs ! j) \<noteq> None) \<and>
      table_concat numfmt (Some sep) None None (t, s) = Some (Inl (ERR_TABCAT (xs ! k) (int k + 1)), (t, s))"
proof -
  note S = sequence_arr [OF assms, of "length xs", simplified]
  have e: "elems (length xs) t = xs"
  proof (rule nth_equalityI)
    show "elems (length xs) t ! i = xs ! i" if "i < length (elems (length xs) t)" for i
      using S(3) [of "int i + 1"] that by (simp add: elt_def)
  qed simp
  note arr = S(1) [unfolded e]
  have len: "lj_tab_len t = Some (length xs)" by (rule sequence_len [OF assms(1)]) (use S(2) in simp)
  have unf: "table_concat numfmt (Some sep) None None (t, s) =
      (if xs = [] then Some (Inr [], (t, s)) else concat_loop numfmt sep 1 (int (length xs)) [] (t, s))"
    by (cases xs) (simp_all add: table_concat_def tab_len_def len sbind_def sret_def)
  show ?thesis
  proof (cases "\<forall>v \<in> set xs. value_text numfmt v \<noteq> None")
    case True
    let ?x = "\<lambda>k. the (value_text numfmt (elt xs k))"
    have "map ?x [1..int (length xs)] = map (\<lambda>v. the (value_text numfmt v)) xs"
      by (rule nth_equalityI) (simp_all add: elt_def)
    moreover have "concat_loop numfmt sep 1 (int (length xs)) [] (t, s) = Some (Inr ([] @ join sep (map ?x [1..int (length xs)])), (t, s))"
      if "xs \<noteq> []"
    proof (rule concat_loop_joins [OF arr])
      show "1 \<le> int (length xs)" using that by (simp add: Suc_le_eq)
      show "value_text numfmt (elt xs k) = Some (?x k)" if "1 \<le> k" "k \<le> int (length xs)" for k
        using True that by (simp add: elt_def)
    qed simp_all
    ultimately show ?thesis using True unf by (cases "xs = []") simp_all
  next
    case False
    then have "\<exists>n. n < length xs \<and> value_text numfmt (xs ! n) = None" by (auto simp: in_set_conv_nth)
    then obtain k where k: "k < length xs" "value_text numfmt (xs ! k) = None"
      "\<forall>j < k. \<not> (j < length xs \<and> value_text numfmt (xs ! j) = None)" 
      using exists_least_iff [of "\<lambda>n. n < length xs \<and> value_text numfmt (xs ! n) = None"] by blast
    have "concat_loop numfmt sep 1 (int (length xs)) [] (t, s) = Some (Inl (ERR_TABCAT (elt xs (int k + 1)) (int k + 1)), (t, s))"
    proof (rule concat_loop_fails [OF arr])
      show "value_text numfmt (elt xs i) \<noteq> None" if "1 \<le> i" "i < int k + 1" for i
        using k(1,3) that by (auto simp: elt_def)
    qed (use k(1,2) in \<open>simp_all add: elt_def\<close>)
    with k False unf show ?thesis by (intro if_not_P [THEN iffD2] exI [of _ k]) (auto simp: elt_def)
  qed
qed

theorem table_concat_joins_witness:
  "table_concat (\<lambda>_. ''7'') (Some '', '') None None (three_table, ()) = Some (Inr ''7, 7, 7'', (three_table, ()))"
  using table_concat_joins [OF three_table_sequence, of "\<lambda>_. ''7''" "'', ''" "()"]
  by (simp add: lj_str_bufnum_def ikeys_bits)

subsection \<open>A hole in front of the border\<close>

lemma ikey_hashes:
  "key_hash (T_num 0x3ff0000000000000) = 2212171533" "key_hash (T_num 0x4000000000000000) = 2214318081"
  "key_hash (T_num 0x4008000000000000) = 2215399291" "key_hash (T_num 0x4010000000000000) = 2216480501"
  "key_hash (T_num 0x4014000000000000) = 2217021106" "key_hash (T_num 0x4018000000000000) = 2217561711"
  "key_hash (T_num 0x4020000000000000) = 2218642921"
  by (simp_all add: hashrot_def lj_rol_def)

text \<open>Keys 1, 2, 4 and \<open>true\<close> in four nodes, all in one chain, no node free.\<close>

definition hole_table :: "TValue \<Rightarrow> TValue \<Rightarrow> TValue \<Rightarrow> GCtab" where
  "hole_table a b d = \<lparr>t_nomm = 0, t_array = [],
     t_node = [\<lparr>n_val = T_bool True, n_key = T_bool True, n_next = Some 2\<rparr>, \<lparr>n_val = a, n_key = ikey 1, n_next = Some 0\<rparr>,
       \<lparr>n_val = b, n_key = ikey 2, n_next = Some 3\<rparr>, \<lparr>n_val = d, n_key = ikey 4, n_next = None\<rparr>],
     t_freetop = 0\<rparr>"

lemma hole_sizes: "asize (hole_table a b d) = 0" "hmask (hole_table a b d) = 3"
  by (simp_all add: asize_def hmask_def hole_table_def)

lemma hole_nodes:
  "t_node (hole_table a b d) ! 0 = \<lparr>n_val = T_bool True, n_key = T_bool True, n_next = Some 2\<rparr>"
  "t_node (hole_table a b d) ! Suc 0 = \<lparr>n_val = a, n_key = ikey 1, n_next = Some 0\<rparr>"
  "t_node (hole_table a b d) ! 2 = \<lparr>n_val = b, n_key = ikey 2, n_next = Some 3\<rparr>"
  "t_node (hole_table a b d) ! 3 = \<lparr>n_val = d, n_key = ikey 4, n_next = None\<rparr>"
  by (simp_all add: hole_table_def)

lemma hole_hash:
  "hashkey (hole_table a b d) (T_bool True) = 1"
  "hashkey (hole_table a b d) (ikey 1) = 1" "hashkey (hole_table a b d) (ikey 2) = 1"
  "hashkey (hole_table a b d) (ikey 3) = 3" "hashkey (hole_table a b d) (ikey 4) = 1"
  "hashkey (hole_table a b d) (ikey 5) = 2" "hashkey (hole_table a b d) (ikey 6) = 3" "hashkey (hole_table a b d) (ikey 8) = 1"
  by (simp_all add: hashkey_def hashmask_def hole_sizes ikeys_bits ikey_hashes del: key_hash.simps(2))

lemma hole_num_eq: "is_num (num_of_int i) (ikey j) \<longleftrightarrow> i = j" if "int32 i" "int32 j"
  using that num_of_int_good [of i] num_of_int_good [of j] ikey_eq [of j i] is_num_good [of "ikey j" "num_of_int i"] by auto

lemma hole_get:
  "lj_tab_getint (hole_table a b d) 1 = Some (Some (Hsh 1))" "lj_tab_getint (hole_table a b d) 2 = Some (Some (Hsh 2))"
  "lj_tab_getint (hole_table a b d) 3 = Some None" "lj_tab_getint (hole_table a b d) 4 = Some (Some (Hsh 3))"
  "lj_tab_getint (hole_table a b d) 5 = Some None" "lj_tab_getint (hole_table a b d) 6 = Some None"
  "lj_tab_getint (hole_table a b d) 8 = Some None"
  by (simp_all add: lj_tab_getint_def lj_tab_getinth_def inarray_def hole_sizes hole_hash chain_find.simps hole_nodes hole_num_eq
      Let_def del: is_num.simps(1))

lemma hole_len:
  assumes "a \<noteq> T_nil" "b \<noteq> T_nil" "d \<noteq> T_nil"
  shows "lj_tab_len (hole_table a b d) = Some 4"
proof -
  let ?t = "hole_table a b d"
  have p: "int_present ?t (Suc 0) = Some True" "int_present ?t 2 = Some True" "int_present ?t 4 = Some True"
    "int_present ?t 8 = Some False" "int_present ?t 6 = Some False" "int_present ?t 5 = Some False"
    using assms by (simp_all add: int_present_def hole_get hole_nodes)
  have "binary_search (int_present ?t) 4 8 = Some 4"
    by (simp add: binary_search.simps [of _ 4 8] binary_search.simps [of _ 4 6] binary_search.simps [of _ 4 5] p)
  then have "unbound_search_loop ?t 4 8 = Some 4" by (subst unbound_search_loop.simps) (simp add: p)
  then have "unbound_search_loop ?t 2 4 = Some 4" by (subst unbound_search_loop.simps) (simp add: p)
  then have "unbound_search_loop ?t (Suc 0) 2 = Some 4" by (subst unbound_search_loop.simps) (simp add: p)
  then have "unbound_search_loop ?t 0 (Suc 0) = Some 4" by (subst unbound_search_loop.simps) (simp add: p numeral_2_eq_2)
  then show ?thesis by (simp add: lj_tab_len_def hole_sizes unbound_search_def)
qed

lemma hole_all: "(\<forall>i < length (t_node (hole_table a b d)). P i) \<longleftrightarrow> P 0 \<and> P (Suc 0) \<and> P 2 \<and> P 3"
  by (auto simp: hole_table_def less_Suc_eq numeral_2_eq_2 numeral_3_eq_3)

lemma hole_linked:
  "linked (t_node (hole_table a b d)) i j \<longleftrightarrow> i = Suc 0 \<and> j = 0 \<or> i = 0 \<and> j = 2 \<or> i = 2 \<and> j = 3"
  by (auto simp: linked_def hole_table_def less_Suc_eq nth_Cons' numeral_2_eq_2 numeral_3_eq_3)

lemma hole_ok: "tab_ok (hole_table a b d)"
proof -
  let ?ns = "t_node (hole_table a b d)" and ?h = "hashkey (hole_table a b d)"
  have len: "length ?ns = 4" by (simp add: hole_table_def)
  have r0: "reach ?ns (Suc 0) 0" by (rule r_into_rtranclp) (simp add: hole_linked)
  have r2: "reach ?ns (Suc 0) 2" by (rule rtranclp.rtrancl_into_rtrancl [OF r0]) (simp add: hole_linked)
  have r3: "reach ?ns (Suc 0) 3" by (rule rtranclp.rtrancl_into_rtrancl [OF r2]) (simp add: hole_linked)
  have "ranked ?ns"
    unfolding ranked_def by (rule exI [of _ "\<lambda>i. if i = Suc 0 then 0 else if i = 0 then 1 else i"]) (simp add: hole_linked)
  moreover have "links_ok ?ns" by (auto simp: links_ok_def hole_linked hole_nodes len)
  moreover have "empties_ok ?ns" unfolding empties_ok_def hole_all by (simp add: hole_nodes)
  moreover have "anchored ?h ?ns" unfolding anchored_def hole_all by (simp add: hole_nodes hole_hash len r0 r2 r3)
  moreover have "one_pred ?ns" by (auto simp: one_pred_def hole_linked)
  moreover have "keys_distinct ?ns" unfolding keys_distinct_def hole_all by (simp add: hole_nodes ikeys_bits)
  ultimately have "nodes_ok ?h ?ns" by (simp add: nodes_ok_def)
  moreover have "free_ok ?ns 0" unfolding free_ok_def hole_all by (simp add: hole_nodes)
  moreover have "\<forall>n \<in> set ?ns. n_key n = T_nil \<or> good_key (n_key n) \<and> arr_index (hole_table a b d) (n_key n) = None"
  proof
    fix n
    assume "n \<in> set ?ns"
    then have "good_key (n_key n)" using num_of_int_good by (auto simp: hole_table_def good_key_def)
    moreover have "arr_index (hole_table a b d) (n_key n) = None"
      using arr_index_bound [of "hole_table a b d" "n_key n"] by (cases "arr_index (hole_table a b d) (n_key n)") (auto simp: hole_sizes)
    ultimately show "n_key n = T_nil \<or> good_key (n_key n) \<and> arr_index (hole_table a b d) (n_key n) = None" by blast
  qed
  moreover have "\<exists>b \<le> LJ_MAX_HBITS. length ?ns = 2 ^ b" by (rule exI [of _ 2]) (simp add: len)
  ultimately show ?thesis unfolding tab_ok_def hole_sizes by (simp add: hole_table_def)
qed


lemma hole_setint:
  "setint (hole_table a b d) 1 = tret (Hsh 1, hole_table a b d)" "setint (hole_table a b d) 2 = tret (Hsh 2, hole_table a b d)"
  using hole_get [of a b d]
  by (simp_all add: lj_tab_setint_def lj_tab_setinth_def found_or_def lj_tab_getint_def inarray_def hole_sizes)

lemma hole_store:
  "store (Hsh (Suc 0)) v (hole_table a b d) = hole_table v b d" "store (Hsh 2) v (hole_table a b d) = hole_table a v d"
  by (simp_all add: hole_table_def eval_nat_numeral)

lemma hole_entries: "length (entries (hole_table a b d)) \<le> 4"
  by (simp add: entries_def arr_entries_def node_entries_def hole_table_def)

lemma hole_frees:
  "\<not> frees_nodes (hole_table a b d) 1" "\<not> frees_nodes (hole_table a b d) 2"
  "d \<noteq> T_nil \<Longrightarrow> frees_nodes (hole_table a b d) 3"
proof -
  have n: "\<not> inarray (hole_table a b d) i" for i by (simp add: inarray_def hole_sizes)
  then have g: "lj_tab_getinth (hole_table a b d) i = lj_tab_getint (hole_table a b d) i" for i by (simp add: lj_tab_getint_def)
  show "\<not> frees_nodes (hole_table a b d) 1" "\<not> frees_nodes (hole_table a b d) 2"
    unfolding frees_nodes_def g hole_get by simp_all
  have "t_freetop (hole_table a b d) = 0" by (simp add: hole_table_def)
  then show "frees_nodes (hole_table a b d) 3" if "d \<noteq> T_nil"
    unfolding frees_nodes_def g hole_get hole_hash using that n by (simp add: hole_nodes)
qed

text \<open>
  C40: \<open>table.remove\<close> can read freed memory. The source of a copy is looked up before the slot of its
  destination is made. In a table that satisfies the invariant, with the keys 1, 2, 4 and \<open>true\<close> in four
  nodes, 4 is a border, and removing the first element comes to the hole at 3: making the slot
  rehashes the table and frees the node that the element 4 is then copied from.
\<close>

theorem table_remove_dangles:
  assumes "a \<noteq> T_nil" "b \<noteq> T_nil" "d \<noteq> T_nil"
  shows "tab_ok (hole_table a b d) \<and> lj_tab_len (hole_table a b d) = Some 4 \<and>
    (\<exists>t'. table_remove (Some 1) (hole_table a b d, s) = Some (Inl TL_undefined, (t', s)))"
proof -
  let ?t = "hole_table b T_nil d"
  have 1: "remove_copy 1 2 (hole_table a b d, s) = Some (Inr (), (hole_table b b d, s))"
    by (simp add: remove_copy_def hole_get hole_setint hole_store load_or_nil_def hole_nodes hole_frees del: store.simps)
  have 2: "remove_copy 2 3 (hole_table b b d, s) = Some (Inr (), (?t, s))"
    by (simp add: remove_copy_def hole_get hole_setint hole_store load_or_nil_def hole_nodes hole_frees del: store.simps)
  have "length (entries ?t) < 2 ^ LJ_MAX_HBITS" by (rule le_less_trans [OF hole_entries]) simp
  then have "slot_given ?t (ikey 3) (setint ?t 3)" by (intro setint_given hole_ok) simp_all
  then obtain sl t' where "setint ?t 3 = tret (sl, t')" by (auto simp: slot_given_def)
  then have 3: "remove_copy 3 4 (?t, s) = Some (Inl TL_undefined, (t', s))"
    by (simp add: remove_copy_def hole_get hole_frees assms(3))
  have "remove_shift 1 4 (hole_table a b d, s) = Some (Inl TL_undefined, (t', s))"
    by (simp add: remove_shift.simps sbind_eqs 1 2 3)
  then have "table_remove (Some 1) (hole_table a b d, s) = Some (Inl TL_undefined, (t', s))"
    by (simp add: table_remove_def tab_len_def hole_len [OF assms] lua_rawgeti_def hole_get sbind_def)
  then show ?thesis using hole_ok hole_len [OF assms] by blast
qed

theorem table_remove_dangles_witness:
  "tab_ok (hole_table (T_str ''a'') (T_str ''b'') (T_str ''d'')) \<and>
    lj_tab_len (hole_table (T_str ''a'') (T_str ''b'') (T_str ''d'')) = Some 4 \<and>
    (\<exists>t'. table_remove (Some 1) (hole_table (T_str ''a'') (T_str ''b'') (T_str ''d''), ()) = Some (Inl TL_undefined, (t', ())))"
  by (rule table_remove_dangles) simp_all

subsection \<open>Callbacks\<close>

lemma foreach_places:
  assumes "tab_ok t" "lj_tab_next t k = tret (next_entry t i)"
    and "\<And>k v s. sc_call sc f [k, v] (t, s) = Some (Inr T_nil, (t, g (k, v) s))"
  shows "foreach_loop sc f k (t, s) = Some (Inr [], (t, fold g (map (place t) (places t i)) s))"
  using assms(2)
proof (induction "places t i" arbitrary: k i s)
  case Nil
  with next_entry_places [OF assms(1), of i] show ?case by (subst foreach_loop.simps) simp
next
  case (Cons j js)
  note js = places_Cons [OF Cons.hyps(2) [symmetric]]
  have j: "j \<in> set (places t i)" unfolding Cons.hyps(2) [symmetric] by simp
  obtain k' v where kv: "place t j = (k', v)" by fastforce
  have "foreach_loop sc f k' (t, g (k', v) s) = Some (Inr [], (t, fold g (map (place t) (places t (Suc j))) (g (k', v) s)))"
    using js lj_tab_next_places(2) [OF assms(1) j] kv by (intro Cons.hyps(1)) simp_all
  with js kv Cons.hyps(2) [symmetric] Cons.prems next_entry_places [OF assms(1), of i] show ?case
    by (subst foreach_loop.simps) (simp add: assms(3))
qed

text \<open>A callback that leaves the table alone and returns nil is called once with every entry.\<close>

lemma table_foreach_visits:
  assumes "tab_ok t" "\<And>k v s. sc_call sc f [k, v] (t, s) = Some (Inr T_nil, (t, g (k, v) s))"
  shows "table_foreach sc f (t, s) = Some (Inr [], (t, fold g (entries t) s))"
  using foreach_places [OF assms(1) lj_tab_next_places(1) [OF assms(1)] assms(2)] by (simp add: table_foreach_def entries_places)

lemma foreachi_loop_visits:
  assumes "arr m t0 t xs" "1 \<le> i" "n \<le> int m"
    and "\<And>k v s. sc_call sc f [k, v] (t, s) = Some (Inr T_nil, (t, g (k, v) s))"
  shows "foreachi_loop sc f i n (t, s) = Some (Inr [], (t, fold g (map (\<lambda>k. (ikey k, elt xs k)) [i..n]) s))"
  using assms(2)
proof (induction "nat (n + 1 - i)" arbitrary: i s)
  case 0
  then show ?case by (simp add: foreachi_loop.simps [of _ _ i n] sret_def)
next
  case (Suc d)
  then have i: "i \<le> n" "d = nat (n + 1 - (i + 1))" by auto
  have "foreachi_loop sc f (i + 1) n (t, g (ikey i, elt xs i) s) =
      Some (Inr [], (t, fold g (map (\<lambda>k. (ikey k, elt xs k)) [i + 1..n]) (g (ikey i, elt xs i) s)))"
    using Suc.prems by (intro Suc.hyps(1) i(2)) simp
  with i(1) arr_get [OF assms(1), of i s] Suc.prems assms(3) show ?case
    by (simp add: foreachi_loop.simps [of _ _ i n] sbind_eqs assms(4) upto_rec1)
qed
end
