(* ===== verification/Spec2Isabelle.thy ===== *)
theory Spec2Isabelle
  imports Server Lj_Lex_Tokens Lua_Page Lj_Tab_Walk Lj_Str_Format Lj_Strlib_Gsub Lj_Tablib_Sort Lj_Tablib_Lists
begin

text \<open>
  A verification development for the web server of this repository: an HTTP server in C++ that
  reads a configuration in the syntax of nginx, gives every connection a thread, and serves echo,
  static file (with Markdown and Lua pages), reverse proxy, status and not-found handlers; and for
  the parts of the bundled LuaJIT that read the scripts the server generates and hold their data.

  \<^bold>\<open>How the parts interact.\<close> \<open>main\<close> parses the configuration (\<open>config_parser.cc\<close>), builds the map from
  path prefixes to handlers and the port (\<open>server_config_parser.cc\<close>), and runs the server
  (\<open>server.cc\<close>). A session feeds the blocks it reads to the request parser (\<open>request.cc\<close>), looks up
  the handler of the longest prefix of the path, lets it fill a response (\<open>response.cc\<close>) and writes
  the response back, recording it in the history under a mutex. The static file handler
  (\<open>static_file_handler.cc\<close>) turns a page into a Lua script, which LuaJIT lexes (\<open>lj_lex.c\<close>, with the
  number scanner \<open>lj_strscan.c\<close> and the character classes \<open>lj_char.c\<close>) and runs, with its globals, the
  functions the server registers and the data of the page in tables (\<open>lj_tab.c\<close>) and interned strings
  (\<open>lj_str.c\<close>); a script takes the strings apart with the pattern functions of \<open>lib_string.c\<close> and keeps lists with
  those of \<open>lib_table.c\<close>.

  \<^bold>\<open>The theories.\<close> Definitions keep the names of the code; \<open>A::f\<close> becomes \<open>f\<close> or, where names clash,
  \<open>A_f\<close>; the fields of a class are a record with a common prefix.

  \<^item> \<open>Web_Prelude\<close>: what the sources use of the C++ library: \<open>std::string\<close> searches and
    replacements, \<open>stoull\<close>, \<open>stoi\<close>, \<open>to_string\<close>, C strings. Lemmas: the number conversions invert each
    other.
  \<^item> \<open>Response\<close>: \<open>response.cc\<close>, the status lines, default bodies and \<open>ToString\<close>. A client's reading of a
    response is the specification that \<open>ToString\<close> is proved against.
  \<^item> \<open>Request\<close>: \<open>request.cc\<close>. \<open>Consume\<close> is the state machine per character, \<open>Parse\<close> the loop over a block
    with its thread-local state; undefined behaviour is \<open>None\<close>. Path safety as an invariant of every
    request, independence of how the stream is cut into blocks (through the locale
    \<open>incremental_parser\<close>), and the exact input on which the code is undefined.
  \<^item> \<open>Request_Roundtrip\<close>: requests printed by a client are parsed back; percent encoding is undone.
  \<^item> \<open>Config_Parser\<close>: \<open>config_parser.cc\<close>, tokenizer, statement parser with its stack, printer. Total on
    every file, inverse to the printer, with the error at the end of file.
  \<^item> \<open>Handlers\<close>: the registry, the simple handlers, and \<open>std::map\<close> as a sorted association list, whose laws
    are the locale \<open>std_map\<close>.
  \<^item> \<open>Lua_Template\<close>, \<open>Static_File\<close>: the two halves of \<open>static_file_handler.cc\<close>, the translation of a page
    into a script, for pages with any text between the tags, and the handler with the functions it
    registers with Lua: files are served whole although they are read in blocks, and the exact condition
    on root and prefix under which the handler is confined to its root.
  \<^item> \<open>Reverse_Proxy\<close>: \<open>reverse_proxy_handler.cc\<close>, rewriting of requests line by line, the loops that read
    a reply and follow redirects as partial functions with the exact condition under which they end, and
    the status of the reply, which the code reads from storage it has freed.
  \<^item> \<open>Server_Config\<close>, \<open>Server\<close>: \<open>server_config_parser.cc\<close>, \<open>server.cc\<close> and \<open>main.cc\<close>. A session is the function
    \<open>do_read\<close>; all sessions together are the step relation \<open>server_step\<close>, of which \<open>do_read\<close> is proved to
    be a run.
  \<^item> \<open>Lj_Char\<close>, \<open>Lj_Strscan\<close>, \<open>Lj_Strscan_Props\<close>: the table of character classes, and the scanner of
    numbers with its decimal, hexadecimal and octal paths. Integers are read back exactly, and the
    format returned fits the value and the options.
  \<^item> \<open>Lj_Lex\<close>, \<open>Lj_Lex_Props\<close>, \<open>Lj_Lex_Tokens\<close>: the lexer in an error monad over its state. It ends on
    every input, never reads past it, and its tokens are well typed in every state of a session.
  \<^item> \<open>Lua_Page\<close>: page translation and lexer together, what the script of a page is read as.
  \<^item> \<open>Lj_Tab\<close>: the tables, an array part and a hash part whose nodes are chained by index: creation,
    lookup, insertion by Brent's variation, counting, resizing, rehashing, traversal and length.
    \<open>Lj_Tab_Nodes\<close>: the invariant of the chains, and that each way of inserting a key keeps it (the loop
    that rechains nodes after a move finds nothing to do). \<open>Lj_Tab_Keys\<close>: doubles and integers as keys.
    \<open>Lj_Tab_Map\<close>: lookup and insertion on a table as a map. \<open>Lj_Tab_Resize\<close>, \<open>Lj_Tab_Rehash\<close>: a resized
    table holds its entries, and the sizes rehashing chooses leave room for all of them and the new
    key. \<open>Lj_Tab_Ops\<close>: tables refine finite maps (the locale \<open>lua_table\<close>). \<open>Lj_Tab_Walk\<close>: traversal visits
    each entry once, the length is a border.
  \<^item> \<open>Lj_Str\<close>: comparison and interning of strings, printing of numbers, formatted messages. The
    comparisons read whole words, so the bytes behind a string are an argument. \<open>Lj_Str_Props\<close>: they give
    the order and the equality of the strings, whatever those bytes are. \<open>Lj_Str_Table\<close>: the string table
    holds every string once, through all its resizes, so that objects are equal if and only if their
    strings are (the locale \<open>interner\<close>). \<open>Lj_Str_Format\<close>: printed integers are scanned back, and a message
    is what its format says, within a buffer that grows as needed.
  \<^item> \<open>Lj_Match\<close>: the pattern matcher of \<open>lib_string.c\<close>, its mutually recursive functions in a monad in which
    every byte is fetched by a read that can fail, so that an access behind a string is a value.
    \<open>Lj_Match_Sem\<close>: the inductive relation \<open>mat\<close> says what a pattern matches, and the matcher is proved
    sound and complete for it. \<open>Lj_Match_Props\<close>: a match stays inside the subject, its captures lie
    in it, and no read leaves the subject or the pattern with its terminator. \<open>Lj_Strlib\<close>: the functions
    of the library on top of it. \<open>Lj_Strlib_Props\<close>: \<open>string.find\<close> gives the leftmost match.
    \<open>Lj_Strlib_Gsub\<close>: \<open>string.gsub\<close> against a specification by pieces of the subject, \<open>string.rep\<close>.
  \<^item> \<open>Lj_Tablib\<close>: \<open>lib_table.c\<close>, \<open>foreach\<close>, \<open>maxn\<close>, \<open>insert\<close>, \<open>remove\<close>, \<open>concat\<close> and the quicksort of \<open>table.sort\<close>, in a monad over
    the table and the state of the script. \<open>Lj_Tablib_Array\<close>: the indices up to some number as a list, and
    raw access as access to it. \<open>Lj_Tablib_Sort\<close>: weakest preconditions over that list; the sort is safe
    with any order function and sorts with a strict weak order (the locale \<open>sort_order\<close>, interpreted on
    the default orders of numbers and strings). \<open>Lj_Tablib_Lists\<close>: on sequences the library operates on
    lists; removing from a table with a hole can read a node that is free.
  \<^item> this theory: properties from the wire to the wire.

  \<^bold>\<open>Bounds, fuel, parameters.\<close> Loops that end are recursive functions with a measure. Those that may
  not end are partial functions into \<open>option\<close>: the loops that read a reply and follow redirects (proved to
  return exactly if the origin closes its connections and stops redirecting), the search for a handler (proved to return once
  the empty prefix has one) and the scaling loops of the number scanner, which only number literals
  beyond the fast path reach and whose end is not proved; the walks along the chains of a table
  and the search for its length, proved to return on every table that satisfies the invariant; and
  the doubling of a buffer, proved to return for messages of at most \<open>2 ^ 31\<close> bytes. The
  insertion of a key and rehashing call each other: \<open>lj_tab_newkey\<close> takes the depth of this recursion,
  and depth two is proved to be enough on every such table, because a rehashed table has room for
  all its entries. Sizes and indices of tables are natural numbers, all below \<open>2 ^ 28\<close>. Machine integers are
  words where the source wraps or truncates (status codes, content lengths, ports, the scanner's
  accumulators and results); the exponents of the scanner and the line counters of the lexer are
  integers, since their bounds (strings below \<open>LJ_MAX_STR\<close>, lines below \<open>LJ_MAX_LINE\<close>) keep them within
  32 bits. The matcher ends by the length of the pattern and of the rest of the subject; its limit on
  nested calls, 200, is the code's own and an error of the model. Positions in strings are natural
  numbers, arguments of library functions integers. The functions and tables that \<open>string.gsub\<close>
  calls are a parameter, a function on the state of the script; so are the order functions, callbacks
  and metamethods that the table library calls, which may change the table as well. The file system, the Markdown converter, the Lua virtual machine, the network, the Boost
  tokenizer, the conversion of a double to an integer or (by \<open>sprintf\<close>) to text, and the bytes that
  follow a constant or a string in memory, and what freed storage reads as, are parameters.

  \<^bold>\<open>Not modelled.\<close> Socket errors that throw, asio's scheduling, and thread creation that fails: the code
  has no handling of its own for them. The Markdown converter, SQLite and Google Test: vendored, and
  only called. The rest of LuaJIT (parser, compiler, virtual machine, garbage collector, the other
  libraries): of the string library not \<open>string.dump\<close>, which writes bytecode, nor \<open>string.format\<close>, which
  prints by \<open>sprintf\<close>, nor the functions written in assembly (\<open>len\<close>, \<open>sub\<close>, \<open>reverse\<close>, \<open>lower\<close>, \<open>upper\<close>);
  of tables and strings not the memory management and its failures, the marks of the collector, the
  write barriers and the metatables. The tests and build files.
\<close>

section \<open>Properties that span components\<close>

text \<open>What a session does once a request is complete.\<close>

lemma do_read_good:
  assumes "feed Parse (\<lambda>t. GetParseResult t = indeterminate) blocks t = Some (Some req, t')"
    and "GetParseResult t' = good" and "GetParseResult t = indeterminate"
    and "rq_path req \<noteq> []" and "find_handler hs (rq_path req) = Some (p, h)" and "smap_find hs p = Some h"
    and "handler_HandleRequest env s h req fresh_response = Some (Some (OK, res), h')"
  shows "do_read env hs s t blocks = (case do_write env s (rq_uri req) res of (x, s') \<Rightarrow> (x, s', smap_assign p h' hs))"
  using assms(1,3)
proof (induction blocks arbitrary: t)
  case (Cons b blocks)
  obtain q t1 where P: "Parse b t = Some (q, t1)" using Cons.prems(1) by (auto split: option.splits)
  show ?case
  proof (cases "GetParseResult t1 = indeterminate")
    case True
    then have "on_read hs t b = Reading t1" using P by (simp add: on_read_def)
    with Cons P True show ?thesis by simp
  next
    case False
    with Cons.prems(1) P have "q = Some req" "t1 = t'" by auto
    with P assms have "on_read hs t b = Handling req p" by (simp add: on_read_def)
    with assms show ?thesis by (simp add: reply_of_def)
  qed
qed (use assms(2) in simp)

text \<open>
  C16: the echo handler from the wire to the wire. A well-formed request, cut into blocks in any
  way, for a path whose longest configured prefix belongs to the echo handler is answered with
  status 200 and the request itself as plain text, byte for byte, after the bytes that follow the
  constant \<open>crlf\<close>; the history gets one entry with its URI and 200, and the handlers stay as they
  are.
\<close>

theorem echo_session:
  assumes "m \<noteq> []" "token m" "u \<noteq> []" "CHR '' '' \<notin> set u" "no_ctl u"
    "digits major" "digits minor" "\<forall>h \<in> set hds. req_header_ok h"
    and "case stoull (header_lookup hds ''Content-Length'') of
      Inl _ \<Rightarrow> b = [] | Inr n \<Rightarrow> length b = unat n"
    and "concat blocks = render_request m u major minor hds b"
    and "handlers_ok hs" and "uri_path u \<noteq> []"
    and "slash_prefix p (uri_path u)" and "smap_find hs p = Some EchoHandler"
    and "\<And>q. slash_prefix q (uri_path u) \<Longrightarrow> smap_find hs q \<noteq> None \<Longrightarrow> length q \<le> length p"
  shows "do_read env hs s init_tls blocks =
    (Replied (''HTTP/1.0 200 OK'' @ CRLF @
       ''Content-Length: '' @ to_string_nat (length (concat blocks)) @ CRLF @
       ''Content-Type: text/plain'' @ CRLF @ CRLF @ c_str (se_mem env) @ concat blocks),
     s\<lparr>si_requests := si_requests s @ [(u, 200)]\<rparr>, hs)"
proof -
  from Parse_render_lemma [OF assms(1-9), of "[]"] obtain r t where
    P: "Parse (render_request m u major minor hds b) init_tls = Some (Some r, t)"
    and g: "GetParseResult t = good" and u: "rq_uri r = u" "rq_path r = uri_path u"
    and raw: "rq_raw r = render_request m u major minor hds b" by auto
  have i: "GetParseResult init_tls = indeterminate" by (simp add: init_tls_def GetParseResult_def)
  have feed: "feed Parse (\<lambda>t. GetParseResult t = indeterminate) blocks init_tls = Some (Some r, t)"
    using req.feed_concat [OF i, of blocks] assms(10) P by simp
  have "smap_find hs [] \<noteq> None" using assms(11) by (simp add: handlers_ok_def)
  from find_handler_longest [OF this, of "uri_path u"] obtain p' h where
    f: "find_handler hs (uri_path u) = Some (p', h)" "smap_find hs p' = Some h" "slash_prefix p' (uri_path u)"
      "length p \<le> length p'" using assms(13,14) by (metis option.distinct(1))
  moreover have "length p' \<le> length p" using assms(15) f by simp
  ultimately have "p' = p"
    using assms(13) by (metis antisym prefix_order.eq_iff prefix_length_prefix slash_prefix_def)
  with f assms(14) have f': "find_handler hs (uri_path u) = Some (p, EchoHandler)" by simp
  have "handler_HandleRequest env s EchoHandler r fresh_response
      = Some (Some (OK, PlainTextResponse (rq_raw r)), EchoHandler)" by (simp add: Echo_HandleRequest_def)
  from do_read_good [OF feed g i _ _ assms(14) this] f' u assms(12)
  have "do_read env hs s init_tls blocks =
      (case do_write env s u (PlainTextResponse (rq_raw r)) of (x, s') \<Rightarrow> (x, s', smap_assign p EchoHandler hs))"
    by simp
  moreover have "smap_assign p EchoHandler hs = hs"
    using smap_sorted_assign_same assms(11,14) by (auto simp: handlers_ok_def)
  ultimately show ?thesis
    using raw assms(10)
    by (simp add: do_write_def form_bytes_def record_request_def ToString_def response_defs)
qed
theorem echo_session_witness:
  "do_read example_env [([], NotFoundHandler), (''/e'', EchoHandler)] (sv_info example_server) init_tls
     [''GE'', ''T /e/x HTTP/1.0'' @ CRLF, CRLF] =
    (Replied (''HTTP/1.0 200 OK'' @ CRLF @
       ''Content-Length: '' @ to_string_nat (length (concat [''GE'', ''T /e/x HTTP/1.0'' @ CRLF, CRLF])) @ CRLF @
       ''Content-Type: text/plain'' @ CRLF @ CRLF @ c_str (se_mem example_env) @
       concat [''GE'', ''T /e/x HTTP/1.0'' @ CRLF, CRLF]),
     (sv_info example_server)\<lparr>si_requests := si_requests (sv_info example_server) @ [(''/e/x'', 200)]\<rparr>,
     [([], NotFoundHandler), (''/e'', EchoHandler)])"
proof (rule echo_session [where m = "''GET''" and u = "''/e/x''" and major = "''1''" and minor = "''0''"
      and hds = "[]" and b = "[]" and p = "''/e''"])
  have path: "uri_path ''/e/x'' = ''/e/x''" by (simp add: uri_path_def sublist_Cons_right)
  show "slash_prefix ''/e'' (uri_path ''/e/x'')" by (simp add: path slash_prefix_def)
  show "handlers_ok [([], NotFoundHandler), (''/e'', EchoHandler)]"
    by (auto simp: handlers_ok_def smap_sorted_def)
  show "length q \<le> length ''/e''" if "smap_find [([], NotFoundHandler), (''/e'', EchoHandler)] q \<noteq> None" for q
    using that by (auto split: if_splits)
qed (simp_all add: token_def not_token_def is_char_def is_ctl_def is_tspecial_def schar_def no_ctl_def
    digits_def is_digit_def stoull_def strto_sign_def render_request_def uri_path_def sublist_Cons_right)
text \<open>
  C17: whatever clients send, a session that calls the static file handler has a request path that begins with
  the handler's prefix, up to a slash or the end, so removing it never throws; the name below the root that
  is looked up is what follows the prefix, without a query, and has no two dots in a row; the root is not
  empty.
\<close>

theorem static_handler_reached_safely:
  assumes "main fs argv = Some (Run port hs info)"
    and "(server_step env)\<^sup>*\<^sup>* (new_server hs info) s"
    and "sv_threads s i = Some (Handling req p)"
    and "smap_find (sv_handlers s) p = Some (StaticFileHandler h)"
  shows "slash_prefix (sf_path_prefix h) (rq_path req) \<and>
    (\<exists>name query. rq_path req = sf_path_prefix h @ name @ query \<and> (query = [] \<or> hd query = CHR ''?'') \<and> CHR ''?'' \<notin> set name \<and>
      file_path h req = Some name \<and> \<not> sublist ''..'' name) \<and> sf_root h \<noteq> []"
proof -
  have inv: "server_inv s" using reachable_inv [OF assms(2) main_handlers_ok [OF assms(1)]] .
  then have "phase_ok (sv_handlers s) (Handling req p)" and ok: "handlers_ok (sv_handlers s)"
    using assms(3) unfolding server_inv_def by blast+
  then have safe: "path_safe (rq_path req)" and pre: "slash_prefix p (rq_path req)" by auto
  from ok assms(4) have h: "handler_ok p (StaticFileHandler h)" unfolding handlers_ok_def by blast
  from pre obtain u where u: "rq_path req = p @ u" by (auto simp: slash_prefix_def prefix_def)
  define name query where "name = takeWhile (\<lambda>c. c \<noteq> CHR ''?'') u" and "query = dropWhile (\<lambda>c. c \<noteq> CHR ''?'') u"
  have q: "query = [] \<or> hd query = CHR ''?''" "CHR ''?'' \<notin> set name" "u = name @ query"
    using hd_dropWhile [of "\<lambda>c. c \<noteq> CHR ''?''" u] by (auto simp: name_def query_def dest: set_takeWhileD)
  then have "query = [] \<or> (\<exists>q'. query = CHR ''?'' # q')" by (cases query) auto
  with u h q file_path_name [of req h name query] have name: "file_path h req = Some name" by simp
  then have "\<not> sublist ''..'' name" using file_path_safe [OF safe] by simp
  with name h pre u q show ?thesis by auto
qed

abbreviation static_server :: server where
  "static_server \<equiv> new_server
     [([], NotFoundHandler), (''/s'', StaticFileHandler \<lparr>sf_path_prefix = ''/s'', sf_root = ''www''\<rparr>)]
     [(''(default)'', ''NotFoundHandler''), (''/s'', ''StaticFileHandler'')]"

lemma static_main:
  "main (\<lambda>_. Some ''port 80; path /s StaticFileHandler { root www; }'') [''webserver'', ''c''] =
     Some (Run 80 (sv_handlers static_server) (si_handlerInfo (sv_info static_server)))"
  by code_simp

definition static_request :: request where
  "static_request = (case on_read (sv_handlers static_server) init_tls (''GET /s/a HTTP/1.0'' @ CRLF @ CRLF) of
     Handling req p \<Rightarrow> req | _ \<Rightarrow> new_request 0)"

lemma static_on_read:
  "on_read (sv_handlers static_server) init_tls (''GET /s/a HTTP/1.0'' @ CRLF @ CRLF)
     = Handling static_request ''/s''"
  by code_simp

lemma static_reachable:
  "(server_step example_env)\<^sup>*\<^sup>* static_server
     (set_phase 0 (Handling static_request ''/s'') (set_phase 0 (Reading init_tls) static_server))"
proof (rule rtranclp.rtrancl_into_rtrancl [OF r_into_rtranclp])
  show "server_step example_env static_server (set_phase 0 (Reading init_tls) static_server)"
    by (rule server_step.accept) (simp add: new_server_def)
  show "server_step example_env (set_phase 0 (Reading init_tls) static_server)
     (set_phase 0 (Handling static_request ''/s'') (set_phase 0 (Reading init_tls) static_server))"
    by (rule server_step.read [where t = init_tls and block = "''GET /s/a HTTP/1.0'' @ CRLF @ CRLF"])
      (simp add: set_phase_def, use static_on_read in \<open>simp add: set_phase_def\<close>)
qed

theorem static_handler_reached_safely_witness:
  "slash_prefix (sf_path_prefix \<lparr>sf_path_prefix = ''/s'', sf_root = ''www''\<rparr>) (rq_path static_request) \<and>
    (\<exists>name query. rq_path static_request = sf_path_prefix \<lparr>sf_path_prefix = ''/s'', sf_root = ''www''\<rparr> @ name @ query \<and>
      (query = [] \<or> hd query = CHR ''?'') \<and> CHR ''?'' \<notin> set name \<and>
      file_path \<lparr>sf_path_prefix = ''/s'', sf_root = ''www''\<rparr> static_request = Some name \<and> \<not> sublist ''..'' name) \<and>
    sf_root \<lparr>sf_path_prefix = ''/s'', sf_root = ''www''\<rparr> \<noteq> []"
  by (rule static_handler_reached_safely [OF static_main, where env = example_env and i = 0 and p = "''/s''"
        and s = "set_phase 0 (Handling static_request ''/s'') (set_phase 0 (Reading init_tls) static_server)"])
    (use static_reachable in \<open>simp_all add: set_phase_def new_server_def\<close>)

end
